(* ===== verification/Kernel_Base.thy ===== *)
theory Kernel_Base
  imports "HOL-Library.Word"
begin

text \<open>
  The prelude of the JordanOS development: the C integer types, the errors a C operation can run
  into, the result type with its sequencing, counted loops, bounds-checked buffers and C strings.
  Everything here is shared by the component theories; nothing here models a source function.

  The collections \<open>ok_rules\<close> (introduction rules for "returns, with a state that
  satisfies P") and \<open>result_simps\<close> carry most component proofs.
\<close>

unbundle bit_operations_syntax

named_theorems ok_rules "introduction rules for operations that return without an error"
named_theorems result_simps "rewrite rules for sequencing of fallible operations"

section \<open>Integer types\<close>

type_synonym u8 = "8 word"
type_synonym u16 = "16 word"
type_synonym u32 = "32 word"
type_synonym u64 = "64 word"

text \<open>A C \<open>int\<close> (32 bits on x86-64) read as two's complement by \<open>sint\<close>.\<close>

type_synonym s32 = "32 word"

section \<open>Errors and results\<close>

text \<open>
  What the C standard leaves undefined and the compiled kernel would do silently is a value here:
  an access outside an array, the use of an uninitialised local, a signed overflow, a division
  by zero, a shift by a negative amount.
\<close>

datatype c_error = Out_of_bounds | Uninitialised | Signed_overflow | Div_by_zero | Bad_shift

type_synonym 'a result = "c_error + 'a"

definition bind_r :: "'a result \<Rightarrow> ('a \<Rightarrow> 'b result) \<Rightarrow> 'b result" where
  "bind_r r f = (case r of Inl e \<Rightarrow> Inl e | Inr x \<Rightarrow> f x)"

lemma bind_r_simps [simp, result_simps]:
  "bind_r (Inl e) f = Inl e"
  "bind_r (Inr x) f = f x"
  by (simp_all add: bind_r_def)

lemma bind_r_assoc: "bind_r (bind_r r f) g = bind_r r (\<lambda>x. bind_r (f x) g)"
  by (simp add: bind_r_def split: sum.split)

lemma bind_r_Inr [simp]: "bind_r r Inr = r"
  by (simp add: bind_r_def split: sum.split)

lemma bind_r_eq_Inr: "bind_r r f = Inr y \<longleftrightarrow> (\<exists>x. r = Inr x \<and> f x = Inr y)"
  by (auto simp: bind_r_def split: sum.split)

lemma bind_r_cong [fundef_cong]:
  "r = r' \<Longrightarrow> (\<And>x. r' = Inr x \<Longrightarrow> f x = f' x) \<Longrightarrow> bind_r r f = bind_r r' f'"
  by (auto simp: bind_r_def split: sum.split)

text \<open>A list of C statements over one state, run in order; the first error stops it.\<close>

fun seq_r :: "('s \<Rightarrow> 's result) list \<Rightarrow> 's \<Rightarrow> 's result" where
  "seq_r [] s = Inr s"
| "seq_r (f # fs) s = bind_r (f s) (seq_r fs)"

lemma seq_r_append: "seq_r (fs @ gs) s = bind_r (seq_r fs s) (seq_r gs)"
  by (induction fs arbitrary: s) (auto simp: bind_r_assoc intro: bind_r_cong)

text \<open>The operation returns, and what it returns satisfies \<open>P\<close>.\<close>

definition ok_r :: "('a \<Rightarrow> bool) \<Rightarrow> 'a result \<Rightarrow> bool" where
  "ok_r P r = (case r of Inl e \<Rightarrow> False | Inr x \<Rightarrow> P x)"

lemma ok_r_simps [simp, result_simps]:
  "ok_r P (Inl e) = False"
  "ok_r P (Inr x) = P x"
  by (simp_all add: ok_r_def)

lemma ok_r_iff: "ok_r P r \<longleftrightarrow> (\<exists>x. r = Inr x \<and> P x)"
  by (auto simp: ok_r_def split: sum.split)

lemma ok_r_mono: "ok_r Q r \<Longrightarrow> (\<And>x. Q x \<Longrightarrow> P x) \<Longrightarrow> ok_r P r"
  by (auto simp: ok_r_iff)

lemma ok_r_conj: "ok_r P r \<Longrightarrow> ok_r Q r \<Longrightarrow> ok_r (\<lambda>x. P x \<and> Q x) r"
  by (auto simp: ok_r_iff)

lemma ok_r_bind: "ok_r Q r \<Longrightarrow> (\<And>x. Q x \<Longrightarrow> ok_r P (f x)) \<Longrightarrow> ok_r P (bind_r r f)"
  by (auto simp: ok_r_iff)

lemma ok_r_seq [ok_rules]:
  "P s \<Longrightarrow> (\<And>f t. f \<in> set fs \<Longrightarrow> P t \<Longrightarrow> ok_r P (f t)) \<Longrightarrow> ok_r P (seq_r fs s)"
proof (induction fs arbitrary: s)
  case Nil
  then show ?case by simp
next
  case (Cons f fs)
  have "ok_r P (f s)" using Cons.prems by simp
  moreover have "ok_r P (seq_r fs t)" if "P t" for t
    using that Cons.prems(2) by (intro Cons.IH) simp_all
  ultimately show ?case by (auto intro: ok_r_bind)
qed

section \<open>Counted loops\<close>

text \<open>
  \<open>for_n n f s\<close> is \<open>for (i = 0; i < n; i++) s = f i s\<close>, with \<open>n\<close> the loop bound as a
  number; \<open>for_r\<close> is the same loop with a body that can fail.
\<close>

primrec for_n :: "nat \<Rightarrow> (nat \<Rightarrow> 's \<Rightarrow> 's) \<Rightarrow> 's \<Rightarrow> 's" where
  "for_n 0 f s = s"
| "for_n (Suc n) f s = f n (for_n n f s)"

primrec for_r :: "nat \<Rightarrow> (nat \<Rightarrow> 's \<Rightarrow> 's result) \<Rightarrow> 's \<Rightarrow> 's result" where
  "for_r 0 f s = Inr s"
| "for_r (Suc n) f s = bind_r (for_r n f s) (f n)"

lemma for_n_inv:
  "I 0 s \<Longrightarrow> (\<And>i t. i < n \<Longrightarrow> I i t \<Longrightarrow> I (Suc i) (f i t)) \<Longrightarrow> I n (for_n n f s)"
  by (induction n) auto

lemma for_r_inv:
  "I 0 s \<Longrightarrow> (\<And>i t. i < n \<Longrightarrow> I i t \<Longrightarrow> ok_r (I (Suc i)) (f i t)) \<Longrightarrow> ok_r (I n) (for_r n f s)"
  by (induction n) (auto intro: ok_r_bind)

lemma for_n_cong:
  "(\<And>i t. i < n \<Longrightarrow> f i t = g i t) \<Longrightarrow> for_n n f s = for_n n g s"
  by (induction n) auto

lemma for_r_cong:
  "(\<And>i t. i < n \<Longrightarrow> f i t = g i t) \<Longrightarrow> for_r n f s = for_r n g s"
  by (induction n) (auto intro: bind_r_cong)

lemma for_r_total: "(\<And>i t. i < n \<Longrightarrow> f i t = Inr (g i t)) \<Longrightarrow> for_r n f s = Inr (for_n n g s)"
  by (induction n) auto

lemma for_n_id [simp]: "for_n n (\<lambda>i t. t) s = s"
  by (induction n) auto

section \<open>Bounds-checked buffers\<close>

text \<open>A C array object as the list of its bytes; an access outside it is an error.\<close>

definition store :: "'a list \<Rightarrow> nat \<Rightarrow> 'a \<Rightarrow> 'a list result" where
  "store buf i v = (if i < length buf then Inr (buf[i := v]) else Inl Out_of_bounds)"

definition fetch :: "'a list \<Rightarrow> nat \<Rightarrow> 'a result" where
  "fetch buf i = (if i < length buf then Inr (buf ! i) else Inl Out_of_bounds)"

lemma store_ok [simp, result_simps]: "i < length buf \<Longrightarrow> store buf i v = Inr (buf[i := v])"
  by (simp add: store_def)

lemma store_first [simp, result_simps]: "buf \<noteq> [] \<Longrightarrow> store buf 0 v = Inr (buf[0 := v])"
  by (simp add: store_def)

lemma store_oob [simp, result_simps]: "length buf \<le> i \<Longrightarrow> store buf i v = Inl Out_of_bounds"
  by (simp add: store_def)

lemma fetch_ok [simp, result_simps]: "i < length buf \<Longrightarrow> fetch buf i = Inr (buf ! i)"
  by (simp add: fetch_def)

lemma fetch_oob [simp, result_simps]: "length buf \<le> i \<Longrightarrow> fetch buf i = Inl Out_of_bounds"
  by (simp add: fetch_def)

text \<open>The buffer with the bytes \<open>xs\<close> written from index \<open>i\<close>.\<close>

definition overwrite :: "'a list \<Rightarrow> nat \<Rightarrow> 'a list \<Rightarrow> 'a list" where
  "overwrite buf i xs = take i buf @ xs @ drop (i + length xs) buf"

lemma length_overwrite [simp]:
  "i + length xs \<le> length buf \<Longrightarrow> length (overwrite buf i xs) = length buf"
  by (simp add: overwrite_def)

lemma overwrite_Nil [simp]: "overwrite buf i [] = buf"
  by (simp add: overwrite_def)

lemma overwrite_Cons:
  assumes "i < length buf"
  shows "overwrite (buf[i := x]) (Suc i) xs = overwrite buf i (x # xs)"
  using assms by (simp add: overwrite_def take_Suc_conv_app_nth)

lemma overwrite_snoc:
  assumes "i + length xs < length buf"
  shows "(overwrite buf i xs)[i + length xs := x] = overwrite buf i (xs @ [x])"
  using assms
  by (simp add: overwrite_def list_update_append Cons_nth_drop_Suc [symmetric])

lemma overwrite_update_end:
  assumes "i + length xs < length buf"
  shows "overwrite (buf[i + length xs := x]) i xs = overwrite buf i (xs @ [x])"
  using assms
  by (simp add: overwrite_def drop_update_swap Cons_nth_drop_Suc [symmetric])

lemma overwrite_prefix:
  assumes "length xs + length ys \<le> length buf"
  shows "overwrite (overwrite buf 0 xs) (length xs) ys = overwrite buf 0 (xs @ ys)"
  using assms by (simp add: overwrite_def add.commute)

lemma store_append:
  assumes "length xs < length buf"
  shows "store (overwrite buf 0 xs) (length xs) x = Inr (overwrite buf 0 (xs @ [x]))"
  using assms overwrite_snoc [of 0 xs buf x] by simp

text \<open>A block of values written from index \<open>i\<close> by one string instruction.\<close>

definition store_block :: "'a list \<Rightarrow> nat \<Rightarrow> 'a list \<Rightarrow> 'a list result" where
  "store_block buf i xs =
    (if i + length xs \<le> length buf then Inr (overwrite buf i xs) else Inl Out_of_bounds)"

lemma overwrite_all: "length xs = length buf \<Longrightarrow> overwrite buf 0 xs = xs"
  by (simp add: overwrite_def)

section \<open>C strings\<close>

text \<open>
  A \<open>const char *\<close> is the list of the bytes from the pointer to the end of its object; the
  string it denotes ends before the first zero byte, and reading past the list's end is an error.
\<close>

definition lit :: "string \<Rightarrow> u8 list" where
  "lit s = map of_char s @ [0]"

definition cstr :: "u8 list \<Rightarrow> u8 list" where
  "cstr bs = takeWhile (\<lambda>b. b \<noteq> 0) bs"

definition terminated :: "u8 list \<Rightarrow> bool" where
  "terminated bs = (0 \<in> set bs)"

lemma cstr_no_nul: "0 \<notin> set (cstr bs)"
  by (auto simp: cstr_def dest: set_takeWhileD)

lemma cstr_append_nul [simp]: "0 \<notin> set s \<Longrightarrow> cstr (s @ 0 # r) = s"
  by (induction s) (auto simp: cstr_def)

lemma cstr_cut: "cstr (s @ 0 # r) = takeWhile (\<lambda>b. b \<noteq> 0) s"
  by (induction s) (auto simp: cstr_def)

lemma cstr_lit_Nil [simp]: "cstr (0 # bs) = []"
  by (simp add: cstr_def)

lemma cstr_Cons [simp]: "b \<noteq> 0 \<Longrightarrow> cstr (b # bs) = b # cstr bs"
  by (simp add: cstr_def)

lemma terminated_split:
  assumes "terminated bs"
  shows "\<exists>r. bs = cstr bs @ 0 # r"
proof -
  from assms obtain x r where "dropWhile (\<lambda>b. b \<noteq> 0) bs = x # r"
    by (cases "dropWhile (\<lambda>b. b \<noteq> 0) bs") (auto simp: terminated_def dropWhile_eq_Nil_conv)
  moreover then have "x = 0"
    using hd_dropWhile [of "\<lambda>b. b \<noteq> 0" bs] by auto
  ultimately show ?thesis
    by (metis cstr_def takeWhile_dropWhile_id)
qed

lemma terminated_lit [simp]: "terminated (lit s)"
  by (simp add: terminated_def lit_def)

lemma length_lit [simp]: "length (lit s) = length s + 1"
  by (simp add: lit_def)

lemma terminated_append_nul [simp]: "terminated (s @ 0 # r)"
  by (simp add: terminated_def)

section \<open>Signed arithmetic\<close>

text \<open>\<open>n + 1\<close> on a C \<open>int\<close>.\<close>

definition int_inc :: "s32 \<Rightarrow> s32 result" where
  "int_inc n = (if sint n = 2 ^ 31 - 1 then Inl Signed_overflow else Inr (n + 1))"

section \<open>Words as numbers\<close>

lemma unat_less_32: "unat (w :: u32) < 4294967296"
  using unsigned_less [of w, where 'a = nat] by simp

lemma unat_of_nat_u32 [simp]: "n < 4294967296 \<Longrightarrow> unat (of_nat n :: u32) = n"
  by (simp add: unat_of_nat take_bit_nat_eq_self)

lemma unat_of_nat_u64: "n < 18446744073709551616 \<Longrightarrow> unat (of_nat n :: u64) = n"
  by (simp add: unat_of_nat take_bit_nat_eq_self)

lemma sint_of_nat_s32: "n < 2 ^ 31 \<Longrightarrow> sint (of_nat n :: s32) = int n"
  by (simp add: signed_of_nat signed_take_bit_int_eq_self)

lemma unat_mult_u32:
  "unat (a :: u32) * unat b < 4294967296 \<Longrightarrow> unat (a * b) = unat a * unat b"
  by (simp add: unat_word_ariths)

lemma unat_add_u32:
  "unat (a :: u32) + unat b < 4294967296 \<Longrightarrow> unat (a + b) = unat a + unat b"
  by (simp add: unat_word_ariths)

lemma unat_inc_u32:
  assumes "i < (n :: u32)"
  shows "unat (i + 1) = unat i + 1"
proof -
  have "unat i + unat (1 :: u32) < 4294967296"
    using assms unat_less_32 [of n] unfolding word_less_nat_alt by simp
  then show ?thesis using unat_add_u32 [of i 1] by simp
qed

lemma unat_sub_u32: "b \<le> a \<Longrightarrow> unat (a - b :: u32) = unat a - unat b"
  by (simp add: unat_sub)

lemma unat_ucast_small:
  "unat w < 2 ^ LENGTH('b) \<Longrightarrow> unat (ucast w :: 'b::len word) = unat w"
  by (simp add: unsigned_ucast_eq take_bit_nat_eq_self)

lemma unat_sint_s32:
  assumes "0 \<le> sint (n :: s32)"
  shows "unat n = nat (sint n)"
proof -
  have "sint n < 2 ^ 31" using sint_lt [of n] by simp
  with assms have "uint n = sint n" by (simp add: uint_sint take_bit_int_eq_self)
  then show ?thesis by (simp add: unat_eq_nat_uint)
qed

lemma unat_uminus_s32:
  assumes "sint (n :: s32) < 0" and "sint n \<noteq> - (2 ^ 31)"
  shows "unat (- n) = nat (- sint n)"
proof -
  have "- (2 ^ 31) \<le> sint n" using sint_ge [of n] by simp
  with assms have "sint (- n) = - sint n"
    by (simp add: sint_word_minus signed_take_bit_int_eq_self)
  with assms(1) show ?thesis using unat_sint_s32 [of "- n"] by simp
qed

section \<open>Bits\<close>

lemma bit_below:
  assumes "unat (w :: 'a::len word) < 2 ^ k" and "bit w n"
  shows "n < k"
proof -
  have "unat w = take_bit k (unat w)" using assms(1) by (simp add: take_bit_nat_eq_self)
  then have "bit (unat w) n = bit (take_bit k (unat w)) n" by simp
  moreover have "bit (unat w) n" using assms(2) bit_imp_le_length by (auto simp: bit_unsigned_iff)
  ultimately show ?thesis by (simp add: bit_take_bit_iff)
qed

lemma bit_small_int:
  assumes "take_bit k (i :: int) = i" and "k \<le> n"
  shows "\<not> bit i n"
proof -
  have "bit (take_bit k i) n \<longleftrightarrow> n < k \<and> bit i n" by (simp add: bit_take_bit_iff)
  with assms show ?thesis by simp
qed

lemma unat_drop_bit: "unat (drop_bit k w) = unat (w :: 'a::len word) div 2 ^ k"
  using drop_bit_eq_div [of k "unat w"] by (simp only: unat_drop_bit_eq)

lemma unat_clear_low:
  "unat ((w :: 'a::len word) AND NOT (mask k)) = unat w div 2 ^ k * 2 ^ k"
proof -
  have "w AND NOT (mask k) = push_bit k (drop_bit k w)"
    by (rule bit_word_eqI) (auto simp: bit_simps)
  then have "w AND NOT (mask k) = of_nat (unat w div 2 ^ k * 2 ^ k)"
    by (simp add: push_bit_eq_mult unat_drop_bit [symmetric])
  moreover have "unat w div 2 ^ k * 2 ^ k < 2 ^ LENGTH('a)"
    using unsigned_less [of w, where 'a = nat] div_times_less_eq_dividend [of "unat w" "2 ^ k"]
    by (meson order.strict_trans1)
  ultimately show ?thesis by (simp only: unat_of_nat mod_less)
qed

end
