(* ===== verification/Tokens.thy ===== *)
theory Tokens
  imports Kernel_Base
begin

text \<open>
  The front end of the shell (\<open>shell_exec\<close> in \<open>shell.c\<close>): the line is copied into a static buffer of
  256 bytes and cut in place into at most sixteen words. A \<open>char *\<close> into the buffer is its index;
  the specification is a function on plain character lists.
\<close>

section \<open>Copying and cutting (shell.c)\<close>

text \<open>
  \<open>copy_line j\<close> is the copying loop at index \<open>j\<close>, its first list the line from there on. The index
  stays below 256 and is a number here; it comes back with the buffer.
\<close>

fun copy_line :: "nat \<Rightarrow> u8 list \<Rightarrow> u8 list \<Rightarrow> (nat \<times> u8 list) result" where
  "copy_line j [] buf = Inl Out_of_bounds"
| "copy_line j (a # as) buf =
    (if a \<noteq> 0 \<and> j < 255 then bind_r (store buf j a) (copy_line (j + 1) as) else Inr (j, buf))"

text \<open>\<open>while (*p == ' ') p++;\<close> and \<open>while (*p && *p != ' ') p++;\<close>\<close>

function skip_while :: "(u8 \<Rightarrow> bool) \<Rightarrow> u8 list \<Rightarrow> nat \<Rightarrow> nat result" where
  "skip_while cond buf p =
    bind_r (fetch buf p) (\<lambda>c. if cond c then skip_while cond buf (p + 1) else Inr p)"
  by pat_completeness auto
termination
  by (relation "measure (\<lambda>(cond, buf, p). length buf - p)") (auto simp: fetch_def split: if_splits)

declare skip_while.simps [simp del]

definition skip_spaces :: "u8 list \<Rightarrow> nat \<Rightarrow> nat result" where
  "skip_spaces = skip_while (\<lambda>c. c = 0x20)"

definition skip_word :: "u8 list \<Rightarrow> nat \<Rightarrow> nat result" where
  "skip_word = skip_while (\<lambda>c. c \<noteq> 0 \<and> c \<noteq> 0x20)"

text \<open>
  The word loop with the pointer \<open>p\<close>; \<open>argv\<close> holds the entries written so far, \<open>argc\<close> is its
  length. A word that ends at a space gets a terminator in its place.
\<close>

function token_loop :: "nat \<Rightarrow> nat list \<Rightarrow> u8 list \<Rightarrow> (nat list \<times> u8 list) result" where
  "token_loop p argv buf =
    bind_r (fetch buf p) (\<lambda>c.
      if c \<noteq> 0 \<and> length argv < 16
      then bind_r (skip_spaces buf p) (\<lambda>p.
        bind_r (fetch buf p) (\<lambda>c.
          if c = 0 then Inr (argv, buf)
          else bind_r (skip_word buf p) (\<lambda>q.
            bind_r (fetch buf q) (\<lambda>c.
              if c \<noteq> 0 then bind_r (store buf q 0) (token_loop (q + 1) (argv @ [p]))
              else token_loop q (argv @ [p]) buf))))
      else Inr (argv, buf))"
  by pat_completeness auto
termination
  by (relation "measure (\<lambda>(p, argv, buf). 16 - length argv)") auto

declare token_loop.simps [simp del]

definition shell_tokens :: "u8 list \<Rightarrow> u8 list \<Rightarrow> (nat list \<times> u8 list) result" where
  "shell_tokens line buf =
    bind_r (copy_line 0 line buf) (\<lambda>(j, buf). bind_r (store buf j 0) (token_loop 0 []))"

section \<open>Words of a line\<close>

text \<open>The reference: the maximal runs of characters other than the space, in order.\<close>

function words :: "u8 list \<Rightarrow> u8 list list" where
  "words s =
    (let t = dropWhile (\<lambda>c. c = 0x20) s
     in if t = [] then [] else takeWhile (\<lambda>c. c \<noteq> 0x20) t # words (dropWhile (\<lambda>c. c \<noteq> 0x20) t))"
  by pat_completeness auto
termination
proof (relation "measure length")
  fix s t :: "u8 list" assume t: "t = dropWhile (\<lambda>c. c = 0x20) s" "t \<noteq> []"
  then have "hd t \<noteq> 0x20" using hd_dropWhile by blast
  then have "length (dropWhile (\<lambda>c. c \<noteq> 0x20) t) < length t"
    using t(2) by (cases t) (auto intro: le_imp_less_Suc length_dropWhile_le)
  moreover have "length t \<le> length s" using t(1) length_dropWhile_le by blast
  ultimately show "(dropWhile (\<lambda>c. c \<noteq> 0x20) t, s) \<in> measure length" by simp
qed simp

declare words.simps [simp del]

text \<open>A line holding the given words separated by one space each.\<close>

fun spaced :: "u8 list list \<Rightarrow> u8 list" where
  "spaced [] = []"
| "spaced [w] = w"
| "spaced (w # ws) = w @ 0x20 # spaced ws"

definition plain_word :: "u8 list \<Rightarrow> bool" where
  "plain_word w \<longleftrightarrow> w \<noteq> [] \<and> 0x20 \<notin> set w \<and> 0 \<notin> set w"

lemma words_Nil [simp]: "words [] = []"
  by (simp add: words.simps)

lemma words_split:
  assumes "plain_word w" and "rest = [] \<or> hd rest = 0x20"
  shows "words (w @ rest) = w # words rest"
proof -
  have w: "w \<noteq> []" "hd w \<noteq> 0x20" "0x20 \<notin> set w"
    using assms(1) by (cases w; auto simp: plain_word_def)+
  then have "dropWhile (\<lambda>c. c = 0x20) (w @ rest) = w @ rest" by (cases w) auto
  moreover have "takeWhile (\<lambda>c. c \<noteq> 0x20) rest = []" "dropWhile (\<lambda>c. c \<noteq> 0x20) rest = rest"
    using assms(2) by (cases rest; simp)+
  moreover have "\<forall>c \<in> set w. c \<noteq> 0x20" using w(3) by auto
  ultimately have "dropWhile (\<lambda>c. c = 0x20) (w @ rest) = w @ rest"
    "takeWhile (\<lambda>c. c \<noteq> 0x20) (w @ rest) = w" "dropWhile (\<lambda>c. c \<noteq> 0x20) (w @ rest) = rest"
    by (simp_all add: takeWhile_append dropWhile_append)
  then show ?thesis using w(1) by (subst words.simps) (simp add: Let_def)
qed

lemma words_space [simp]: "words (0x20 # s) = words s"
  by (subst (1 2) words.simps) simp

lemma words_spaced:
  assumes "list_all plain_word ws"
  shows "words (spaced ws) = ws"
  using assms
proof (induction ws rule: spaced.induct)
  case (2 w)
  then show ?case using words_split [of w "[]"] by simp
next
  case (3 w v ws)
  then show ?case using words_split [of w "0x20 # spaced (v # ws)"] by simp
qed simp

lemma words_plain: "w \<in> set (words s) \<Longrightarrow> 0 \<notin> set s \<Longrightarrow> plain_word w"
proof (induction s rule: words.induct)
  case (1 s)
  define t where "t = dropWhile (\<lambda>c. c = 0x20) s"
  have nul: "0 \<notin> set t" "0 \<notin> set (dropWhile (\<lambda>c. c \<noteq> 0x20) t)"
    using "1.prems"(2) by (auto simp: t_def dest: set_dropWhileD)
  have "w = takeWhile (\<lambda>c. c \<noteq> 0x20) t \<and> t \<noteq> [] \<or> w \<in> set (words (dropWhile (\<lambda>c. c \<noteq> 0x20) t)) \<and> t \<noteq> []"
    using "1.prems"(1) by (subst (asm) words.simps) (auto simp: t_def Let_def split: if_splits)
  then show ?case
  proof (elim disjE conjE)
    assume w: "w = takeWhile (\<lambda>c. c \<noteq> 0x20) t" and t: "t \<noteq> []"
    then have "hd t \<noteq> 0x20" using hd_dropWhile t_def by blast
    with w t nul(1) show ?thesis
      by (cases t) (auto simp: plain_word_def dest: set_takeWhileD)
  next
    assume "w \<in> set (words (dropWhile (\<lambda>c. c \<noteq> 0x20) t))" and "t \<noteq> []"
    then show ?thesis using "1.IH" [OF t_def] nul(2) by simp
  qed
qed

section \<open>Correctness\<close>

lemma copy_line_ok:
  assumes "terminated line" and "length buf = 256" and "j \<le> 255"
  shows "copy_line j line buf = Inr (j + length (take (255 - j) (cstr line)), overwrite buf j (take (255 - j) (cstr line)))"
  using assms
proof (induction line arbitrary: j buf)
  case Nil
  then show ?case by (simp add: terminated_def)
next
  case (Cons a as)
  show ?case
  proof (cases "a \<noteq> 0 \<and> j < 255")
    case True
    then have "255 - j = Suc (255 - (j + 1))" by arith
    with True Cons.prems Cons.IH [of "buf[j := a]" "j + 1"] show ?thesis
      by (simp add: terminated_def overwrite_Cons)
  next
    case False
    with Cons.prems(3) show ?thesis by (cases "a = 0") auto
  qed
qed

lemma skip_while_ok:
  assumes "\<And>c. c \<in> set s \<Longrightarrow> cond c" and "\<not> cond x"
  shows "skip_while cond (pre @ s @ x # r) (length pre) = Inr (length pre + length s)"
  using assms(1)
proof (induction s arbitrary: pre)
  case Nil
  then show ?case using assms(2) by (simp add: skip_while.simps [of cond _ "length pre"] fetch_def nth_append)
next
  case (Cons c s)
  from Cons.IH [of "pre @ [c]"] Cons.prems show ?case
    by (simp add: skip_while.simps [of cond _ "length pre"] fetch_def nth_append)
qed

lemma fetch_at [simp]: "fetch (pre @ x # r) (length pre) = Inr x"
  by (simp add: fetch_def)

lemma token_loop_stop:
  "x = 0 \<or> 16 \<le> length argv \<Longrightarrow> token_loop (length pre) argv (pre @ x # r) = Inr (argv, pre @ x # r)"
  by (subst token_loop.simps) auto

lemma token_loop_spaces:
  assumes "length argv < 16" and "sp \<noteq> []" and "set sp \<subseteq> {0x20}"
  shows "token_loop (length pre) argv (pre @ sp @ 0 # r) = Inr (argv, pre @ sp @ 0 # r)"
proof -
  obtain sp' where sp: "sp = 0x20 # sp'" using assms(2,3) by (cases sp) auto
  have "skip_spaces (pre @ sp @ 0 # r) (length pre) = Inr (length (pre @ sp))"
    unfolding skip_spaces_def using skip_while_ok [of sp "\<lambda>c. c = 0x20" 0 pre r] assms(3) by auto
  moreover have "fetch (pre @ sp @ 0 # r) (length (pre @ sp)) = Inr 0"
    using fetch_at [of "pre @ sp" 0 r] by simp
  moreover have "fetch (pre @ sp @ 0 # r) (length pre) = Inr 0x20" by (simp add: sp)
  ultimately show ?thesis using assms(1) by (subst token_loop.simps) simp
qed

text \<open>One round: spaces, a word, and the space or the terminator behind it.\<close>

lemma token_loop_word:
  assumes "length argv < 16" and "set sp \<subseteq> {0x20}" and "plain_word w" and "x = 0 \<or> x = 0x20"
  shows "token_loop (length pre) argv (pre @ sp @ w @ x # r) =
    token_loop (length pre + length sp + length w + (if x = 0 then 0 else 1))
      (argv @ [length pre + length sp]) (pre @ sp @ w @ 0 # r)"
proof -
  let ?buf = "pre @ sp @ w @ x # r"
  obtain c w' where w: "w = c # w'" "c \<noteq> 0x20" "c \<noteq> 0" using assms(3) by (cases w) (auto simp: plain_word_def)
  have "skip_spaces ?buf (length pre) = Inr (length (pre @ sp))"
    unfolding skip_spaces_def using skip_while_ok [of sp "\<lambda>c. c = 0x20" c pre "w' @ x # r"] assms(2) w by auto
  moreover have "skip_word ?buf (length (pre @ sp)) = Inr (length (pre @ sp @ w))"
    unfolding skip_word_def
    using skip_while_ok [of w "\<lambda>c. c \<noteq> 0 \<and> c \<noteq> 0x20" x "pre @ sp" r] assms(3,4) by (auto simp: plain_word_def add.assoc)
  moreover have "fetch ?buf (length (pre @ sp)) = Inr c" "fetch ?buf (length (pre @ sp @ w)) = Inr x"
    using fetch_at [of "pre @ sp" c "w' @ x # r"] fetch_at [of "pre @ sp @ w" x r] w by simp_all
  moreover have "\<exists>d. fetch ?buf (length pre) = Inr d \<and> d \<noteq> 0"
    using assms(2) w by (cases sp) auto
  moreover have "store ?buf (length (pre @ sp @ w)) 0 = Inr (pre @ sp @ w @ 0 # r)"
    by (simp add: store_def list_update_append)
  ultimately show ?thesis
    using assms(1,4) w by (subst token_loop.simps) (auto simp: add.assoc)
qed

text \<open>
  The whole loop: the entries it adds point, in the final buffer, at the words of the text in
  front of the terminator, sixteen entries in all at most; nothing before the start changes.
\<close>

lemma token_loop_ok:
  assumes "0 \<notin> set s"
  shows "\<exists>new rest. token_loop (length pre) argv (pre @ s @ 0 # r) = Inr (argv @ new, pre @ rest)
    \<and> length rest = length s + 1 + length r
    \<and> (\<forall>q \<in> set new. terminated (drop q (pre @ rest)))
    \<and> map (\<lambda>q. cstr (drop q (pre @ rest))) new = take (16 - length argv) (words s)"
  using assms
proof (induction "length s" arbitrary: s pre argv rule: less_induct)
  case less
  show ?case
  proof (cases "s = [] \<or> 16 \<le> length argv")
    case True
    then have "token_loop (length pre) argv (pre @ s @ 0 # r) = Inr (argv, pre @ s @ 0 # r)"
      using token_loop_stop [of "hd (s @ [0])" argv pre "tl (s @ [0]) @ r"] by (cases s) auto
    then show ?thesis using True by (auto intro!: exI [of _ "[]"] exI [of _ "s @ 0 # r"])
  next
    case False
    define sp where "sp = takeWhile (\<lambda>c. c = 0x20) s"
    define t where "t = dropWhile (\<lambda>c. c = 0x20) s"
    have s: "s = sp @ t" and sp: "set sp \<subseteq> {0x20}" by (auto simp: sp_def t_def dest: set_takeWhileD)
    show ?thesis
    proof (cases "t = []")
      case True
      then have "words s = []" by (subst words.simps) (simp add: t_def)
      with True s sp False show ?thesis
        using token_loop_spaces [of argv sp pre r] by (auto intro!: exI [of _ "[]"] exI [of _ "s @ 0 # r"])
    next
      case word: False
      define w where "w = takeWhile (\<lambda>c. c \<noteq> 0x20) t"
      define u where "u = dropWhile (\<lambda>c. c \<noteq> 0x20) t"
      have t: "t = w @ u" and ws: "words s = w # words u"
        using word by (simp_all add: w_def u_def t_def Let_def words.simps [of s])
      then have plain: "plain_word w" using words_plain [of w s] less.prems by simp
      let ?q = "length pre + length sp"
      have at: "terminated (drop ?q (pre @ sp @ w @ 0 # m))" "cstr (drop ?q (pre @ sp @ w @ 0 # m)) = w" for m
        using plain by (simp_all add: plain_word_def)
      show ?thesis
      proof (cases u)
        case Nil
        let ?b = "pre @ sp @ w @ 0 # r"
        have "token_loop (length pre) argv (pre @ s @ 0 # r)
            = token_loop (length (pre @ sp @ w)) (argv @ [?q]) ?b"
          using token_loop_word [of argv sp w 0 pre r] False sp plain s t Nil by (simp add: add.assoc)
        also have "\<dots> = Inr (argv @ [?q], ?b)"
          using token_loop_stop [of 0 "argv @ [?q]" "pre @ sp @ w" r] by simp
        finally show ?thesis
          using False at [of r] ws Nil s t by (intro exI [of _ "[?q]"] exI [of _ "sp @ w @ 0 # r"]) (auto simp: take_Cons')
      next
        case (Cons x v)
        then have x: "x = 0x20" using hd_dropWhile [of "\<lambda>c. c \<noteq> 0x20" t] u_def by auto
        let ?pre = "pre @ sp @ w @ [0]"
        have "token_loop (length pre) argv (pre @ s @ 0 # r)
            = token_loop (length ?pre) (argv @ [?q]) (?pre @ v @ 0 # r)"
          using token_loop_word [of argv sp w x pre "v @ 0 # r"] False sp plain s t Cons x by (simp add: add.assoc)
        moreover obtain new rest where run:
          "token_loop (length ?pre) (argv @ [?q]) (?pre @ v @ 0 # r) = Inr ((argv @ [?q]) @ new, ?pre @ rest)"
          "length rest = length v + 1 + length r" "\<forall>q \<in> set new. terminated (drop q (?pre @ rest))"
          "map (\<lambda>q. cstr (drop q (?pre @ rest))) new = take (16 - length (argv @ [?q])) (words v)"
          using less.hyps [of v ?pre "argv @ [?q]"] less.prems s t Cons by auto
        moreover have "words u = words v" using Cons x by simp
        moreover have "16 - length argv = Suc (16 - length (argv @ [?q]))" using False by (simp, arith)
        ultimately show ?thesis
          using at [of rest] ws s t Cons
          by (intro exI [of _ "?q # new"] exI [of _ "sp @ w @ 0 # rest"]) (auto simp del: drop_append)
      qed
    qed
  qed
qed

lemma shell_tokens_ok:
  assumes "terminated line" and "length buf = 256"
  shows "\<exists>argv buf'. shell_tokens line buf = Inr (argv, buf') \<and> length buf' = 256
    \<and> (\<forall>q \<in> set argv. terminated (drop q buf'))
    \<and> map (\<lambda>q. cstr (drop q buf')) argv = take 16 (words (take 255 (cstr line)))"
proof -
  let ?s = "take 255 (cstr line)"
  have s: "0 \<notin> set ?s" "length ?s \<le> 255" using cstr_no_nul [of line] by (auto dest: in_set_takeD)
  have "copy_line 0 line buf = Inr (length ?s, overwrite buf 0 ?s)"
    using copy_line_ok [OF assms, of 0] by simp
  moreover have "store (overwrite buf 0 ?s) (length ?s) 0 = Inr (?s @ 0 # drop (length ?s + 1) buf)"
    using store_append [of ?s buf 0] s(2) assms(2) by (simp add: overwrite_def)
  ultimately have "shell_tokens line buf = token_loop (length []) [] ([] @ ?s @ 0 # drop (length ?s + 1) buf)"
    by (simp add: shell_tokens_def)
  with token_loop_ok [OF s(1), of "[]" "[]" "drop (length ?s + 1) buf"] s(2) assms(2) show ?thesis by auto
qed

text \<open>
  C26: The shell's word splitting is right: on any terminated line it stays inside its buffer and its
  argument vector, and the argument strings it hands on are, in order, the maximal runs of non-space
  characters of the line's first 255 characters, the first sixteen of them.
\<close>

theorem shell_tokens_correct:
  assumes "terminated line" and "length buf = 256"
  shows "\<exists>argv buf'. shell_tokens line buf = Inr (argv, buf') \<and> length buf' = 256 \<and> length argv \<le> 16
    \<and> map (\<lambda>q. cstr (drop q buf')) argv = take 16 (words (take 255 (cstr line)))"
proof -
  from shell_tokens_ok [OF assms] obtain argv buf' where run: "shell_tokens line buf = Inr (argv, buf')"
    "length buf' = 256" "map (\<lambda>q. cstr (drop q buf')) argv = take 16 (words (take 255 (cstr line)))" by blast
  from arg_cong [OF run(3), of length] have "length argv \<le> 16" by simp
  with run show ?thesis by blast
qed

theorem shell_tokens_correct_witness:
  "\<exists>argv buf'. shell_tokens (lit '' theme  rose'') (replicate 256 7) = Inr (argv, buf')
    \<and> map (\<lambda>q. cstr (drop q buf')) argv = [[116, 104, 101, 109, 101], [114, 111, 115, 101]]"
proof -
  have "take 16 (words (take 255 (cstr (lit '' theme  rose'')))) = [[116, 104, 101, 109, 101], [114, 111, 115, 101]]"
    by (simp add: lit_def words.simps)
  with shell_tokens_correct [of "lit '' theme  rose''" "replicate 256 7"] show ?thesis by auto
qed

text \<open>
  Words put into a line with single spaces come back from the shell's splitting unchanged, as long
  as there are at most sixteen and the line has at most 255 characters.
\<close>

theorem shell_tokens_roundtrip:
  assumes "list_all plain_word ws" and "length ws \<le> 16" and "length (spaced ws) \<le> 255" and "length buf = 256"
  shows "\<exists>argv buf'. shell_tokens (spaced ws @ [0]) buf = Inr (argv, buf')
    \<and> map (\<lambda>q. cstr (drop q buf')) argv = ws"
proof -
  have "0 \<notin> set (spaced ws)" using assms(1) by (induction ws rule: spaced.induct) (auto simp: plain_word_def)
  then have "cstr (spaced ws @ [0]) = spaced ws" by simp
  with shell_tokens_ok [of "spaced ws @ [0]" buf] assms words_spaced [OF assms(1)] show ?thesis by auto
qed

theorem shell_tokens_roundtrip_witness:
  "\<exists>argv buf'. shell_tokens [109, 101, 109, 32, 120, 0] (replicate 256 7) = Inr (argv, buf')
    \<and> map (\<lambda>q. cstr (drop q buf')) argv = [[109, 101, 109], [120]]"
  using shell_tokens_roundtrip [of "[[109, 101, 109], [120]]" "replicate 256 7"] by (simp add: plain_word_def)

end
