(* ===== verification/Multiboot.thy ===== *)
theory Multiboot
  imports Kernel_Base
begin

text \<open>
  The Multiboot2 information structure: the tag walk of \<open>include/multiboot.h\<close> and the memory-map
  accessors of \<open>kernel/memory.c\<close>. The boot loader's structure is a byte memory indexed by 64-bit
  addresses, read little-endian through the packed layouts of the header; the kernel only reads
  it. The tag walk has no bound in the source, so it is a partial function: \<open>None\<close> is "never
  returns".
\<close>

section \<open>Memory and layout\<close>

type_synonym memory = "u64 \<Rightarrow> u8"

definition ld32 :: "memory \<Rightarrow> u64 \<Rightarrow> u32" where
  "ld32 m a = ucast (m a) OR push_bit 8 (ucast (m (a + 1)))
     OR push_bit 16 (ucast (m (a + 2))) OR push_bit 24 (ucast (m (a + 3)))"

definition ld64 :: "memory \<Rightarrow> u64 \<Rightarrow> u64" where
  "ld64 m a = ucast (ld32 m a) OR push_bit 32 (ucast (ld32 m (a + 4)))"

definition MB2_TAG_END :: u32 where "MB2_TAG_END = 0"
definition MB2_TAG_MEM :: u32 where "MB2_TAG_MEM = 4"
definition MB2_TAG_MMAP :: u32 where "MB2_TAG_MMAP = 6"
definition MB2_TAG_FB :: u32 where "MB2_TAG_FB = 8"

text \<open>\<open>mb2_tag_t\<close>: type at offset 0, size at offset 4.\<close>

definition tag_type :: "memory \<Rightarrow> u64 \<Rightarrow> u32" where "tag_type m tag = ld32 m tag"
definition tag_size :: "memory \<Rightarrow> u64 \<Rightarrow> u32" where "tag_size m tag = ld32 m (tag + 4)"

text \<open>\<open>mb2_mem_tag_t\<close>, \<open>mb2_mmap_tag_t\<close> (16 bytes) and \<open>mb2_mmap_entry_t\<close>.\<close>

definition tag_mem_lower :: "memory \<Rightarrow> u64 \<Rightarrow> u32" where "tag_mem_lower m tag = ld32 m (tag + 8)"
definition tag_mem_upper :: "memory \<Rightarrow> u64 \<Rightarrow> u32" where "tag_mem_upper m tag = ld32 m (tag + 12)"
definition tag_entry_size :: "memory \<Rightarrow> u64 \<Rightarrow> u32" where "tag_entry_size m tag = ld32 m (tag + 8)"
definition entry_length :: "memory \<Rightarrow> u64 \<Rightarrow> u64" where "entry_length m e = ld64 m (e + 8)"
definition entry_type :: "memory \<Rightarrow> u64 \<Rightarrow> u32" where "entry_type m e = ld32 m (e + 16)"

text \<open>\<open>mb2_fb_tag_t\<close>: the fields the framebuffer driver reads.\<close>

record mb2_fb_tag =
  tag_addr :: u64
  tag_pitch :: u32
  tag_width :: u32
  tag_height :: u32
  tag_bpp :: u8

definition read_fb_tag :: "memory \<Rightarrow> u64 \<Rightarrow> mb2_fb_tag" where
  "read_fb_tag m tag = \<lparr>tag_addr = ld64 m (tag + 8), tag_pitch = ld32 m (tag + 16),
     tag_width = ld32 m (tag + 20), tag_height = ld32 m (tag + 24), tag_bpp = m (tag + 28)\<rparr>"

section \<open>The tag walk\<close>

definition mb2_next_tag :: "memory \<Rightarrow> u64 \<Rightarrow> u64" where
  "mb2_next_tag m tag = (tag + ucast (tag_size m tag) + 7) AND NOT 7"

partial_function (option) find_tag_from :: "memory \<Rightarrow> u32 \<Rightarrow> u64 \<Rightarrow> u64 option" where
  "find_tag_from m ty tag =
     (if tag_type m tag \<noteq> MB2_TAG_END then
        if tag_type m tag = ty then Some tag else find_tag_from m ty (mb2_next_tag m tag)
      else Some 0)"

definition mb2_find_tag :: "memory \<Rightarrow> u64 \<Rightarrow> u32 \<Rightarrow> u64 option" where
  "mb2_find_tag m mbi ty = find_tag_from m ty (mbi + 8)"

section \<open>The accessors of memory.c\<close>

definition mem_get_lower :: "memory \<Rightarrow> u64 \<Rightarrow> u32 option" where
  "mem_get_lower m mbi =
     map_option (\<lambda>tag. if tag \<noteq> 0 then tag_mem_lower m tag else 0) (mb2_find_tag m mbi MB2_TAG_MEM)"

definition mem_get_upper :: "memory \<Rightarrow> u64 \<Rightarrow> u32 option" where
  "mem_get_upper m mbi =
     map_option (\<lambda>tag. if tag \<noteq> 0 then tag_mem_upper m tag else 0) (mb2_find_tag m mbi MB2_TAG_MEM)"

definition mmap_first :: "memory \<Rightarrow> u64 \<Rightarrow> u64 option" where
  "mmap_first m mbi =
     map_option (\<lambda>tag. if tag = 0 then 0 else tag + 16) (mb2_find_tag m mbi MB2_TAG_MMAP)"

definition mmap_next :: "memory \<Rightarrow> u64 \<Rightarrow> u64 \<Rightarrow> u64 option" where
  "mmap_next m mbi current =
     map_option (\<lambda>tag.
       if tag = 0 then 0
       else let nxt = current + ucast (tag_entry_size m tag)
            in if nxt \<ge> tag + ucast (tag_size m tag) then 0 else nxt)
     (mb2_find_tag m mbi MB2_TAG_MMAP)"

section \<open>What the walk finds\<close>

text \<open>
  The abstract view of the structure: the list of its tags, each with its address and type,
  linked by \<open>mb2_next_tag\<close> and closed by the end tag.
\<close>

fun tags_at :: "memory \<Rightarrow> u64 \<Rightarrow> (u64 \<times> u32) list \<Rightarrow> bool" where
  "tags_at m a [] \<longleftrightarrow> tag_type m a = MB2_TAG_END"
| "tags_at m a ((p, ty) # ts) \<longleftrightarrow>
     p = a \<and> tag_type m a = ty \<and> ty \<noteq> MB2_TAG_END \<and> tags_at m (mb2_next_tag m a) ts"

text \<open>The address of the first tag of a type, or the null pointer.\<close>

fun first_tag :: "u32 \<Rightarrow> (u64 \<times> u32) list \<Rightarrow> u64" where
  "first_tag ty [] = 0"
| "first_tag ty ((p, t) # ts) = (if t = ty then p else first_tag ty ts)"

lemma find_tag_from_tags: "tags_at m a ts \<Longrightarrow> find_tag_from m ty a = Some (first_tag ty ts)"
proof (induction ts arbitrary: a)
  case Nil
  then show ?case by (simp add: find_tag_from.simps)
next
  case (Cons t ts)
  then show ?case by (cases t) (simp add: find_tag_from.simps)
qed

lemma find_tag_tags: "tags_at m (mbi + 8) ts \<Longrightarrow> mb2_find_tag m mbi ty = Some (first_tag ty ts)"
  by (simp add: mb2_find_tag_def find_tag_from_tags)

text \<open>The list of tags a memory holds at an address is unique.\<close>

lemma tags_at_unique: "tags_at m a ts \<Longrightarrow> tags_at m a us \<Longrightarrow> ts = us"
proof (induction ts arbitrary: a us)
  case Nil
  then show ?case by (cases us) auto
next
  case (Cons t ts)
  then show ?case by (cases us; cases t) auto
qed

text \<open>A tag that is its own successor: the walk never returns once it is there.\<close>

lemma find_tag_from_stuck:
  assumes "mb2_next_tag m a = a" and "tag_type m a \<noteq> MB2_TAG_END" and "tag_type m a \<noteq> ty"
  shows "find_tag_from m ty a = None"
proof (rule ccontr)
  assume "find_tag_from m ty a \<noteq> None"
  then obtain r where r: "find_tag_from m ty a = Some r" by auto
  have "\<not> (mb2_next_tag m a = a \<and> tag_type m a \<noteq> MB2_TAG_END \<and> tag_type m a \<noteq> ty)"
    by (rule find_tag_from.raw_induct [where P = "\<lambda>m ty a r.
        \<not> (mb2_next_tag m a = a \<and> tag_type m a \<noteq> MB2_TAG_END \<and> tag_type m a \<noteq> ty)", OF _ r])
      (fastforce split: if_splits)
  with assms show False by blast
qed

text \<open>
  on a well-formed structure \<open>mb2_find_tag\<close> returns, for any type but the end type, the first
  tag of that type or the null pointer; a tag of size 0 before the tag looked for makes the
  search (and so the boot) run forever.
\<close>

theorem mb2_find_tag_correct:
  assumes "ty \<noteq> MB2_TAG_END"
  shows "(\<forall>ts. tags_at m (mbi + 8) ts \<longrightarrow> mb2_find_tag m mbi ty = Some (first_tag ty ts))
    \<and> (mb2_next_tag m (mbi + 8) = mbi + 8 \<and> tag_type m (mbi + 8) \<notin> {MB2_TAG_END, ty}
        \<longrightarrow> mb2_find_tag m mbi ty = None)"
  using find_tag_from_stuck [of m "mbi + 8" ty]
  by (auto simp: find_tag_tags) (simp add: mb2_find_tag_def)

section \<open>The memory map\<close>

text \<open>
  A well-formed memory-map tag at \<open>t\<close>: \<open>k > 0\<close> entries of \<open>es > 0\<close> bytes behind the 16-byte tag
  header, not wrapping around the address space.
\<close>

definition mmap_at :: "memory \<Rightarrow> u64 \<Rightarrow> u64 \<Rightarrow> nat \<Rightarrow> nat \<Rightarrow> bool" where
  "mmap_at m mbi t es k \<longleftrightarrow>
     mb2_find_tag m mbi MB2_TAG_MMAP = Some t \<and> t \<noteq> 0
     \<and> unat (tag_entry_size m t) = es \<and> 0 < es \<and> 0 < k
     \<and> unat (tag_size m t) = 16 + k * es \<and> unat t + (16 + k * es) < 2 ^ 64"

definition entry_at :: "u64 \<Rightarrow> nat \<Rightarrow> nat \<Rightarrow> u64" where
  "entry_at t es i = t + of_nat (16 + i * es)"

lemma unat_offset:
  assumes "unat (t :: u64) + n < 2 ^ 64"
  shows "unat (t + of_nat n) = unat t + n"
  using assms by (simp add: unat_word_ariths unat_of_nat take_bit_nat_eq_self)

lemma unat_entry_at:
  assumes "mmap_at m mbi t es k" and "i \<le> k"
  shows "unat (entry_at t es i) = unat t + (16 + i * es)"
proof -
  have "i * es \<le> k * es" using assms(2) by simp
  with assms(1) have "unat t + (16 + i * es) < 2 ^ 64" unfolding mmap_at_def by linarith
  then show ?thesis unfolding entry_at_def by (rule unat_offset)
qed

lemma entry_at_nonzero: "mmap_at m mbi t es k \<Longrightarrow> i \<le> k \<Longrightarrow> entry_at t es i \<noteq> 0"
  using unat_entry_at [of m mbi t es k i] by auto

lemma mmap_first_at: "mmap_at m mbi t es k \<Longrightarrow> mmap_first m mbi = Some (entry_at t es 0)"
  by (simp add: mmap_at_def mmap_first_def entry_at_def)

lemma entry_at_Suc:
  "unat (tag_entry_size m t) = es \<Longrightarrow>
    entry_at t es i + ucast (tag_entry_size m t) = entry_at t es (Suc i)"
  by (auto simp: entry_at_def algebra_simps)

lemma mmap_next_at:
  assumes "mmap_at m mbi t es k" and "i < k"
  shows "mmap_next m mbi (entry_at t es i) = Some (if Suc i < k then entry_at t es (Suc i) else 0)"
proof -
  have size: "(ucast (tag_size m t) :: u64) = of_nat (16 + k * es)"
    using assms(1) by (metis mmap_at_def of_nat_unat)
  have nxt: "entry_at t es i + ucast (tag_entry_size m t) = entry_at t es (Suc i)"
    using assms(1) by (intro entry_at_Suc) (simp add: mmap_at_def)
  have "entry_at t es (Suc i) \<ge> t + of_nat (16 + k * es) \<longleftrightarrow> \<not> Suc i < k"
  proof -
    have "entry_at t es (Suc i) \<ge> t + of_nat (16 + k * es)
        \<longleftrightarrow> unat (entry_at t es k) \<le> unat (entry_at t es (Suc i))"
      by (simp only: word_le_nat_alt entry_at_def)
    also have "\<dots> \<longleftrightarrow> k * es \<le> Suc i * es"
      using unat_entry_at [OF assms(1), of "Suc i"] unat_entry_at [OF assms(1), of k] assms(2)
      by (simp only: Suc_leI le_refl add_le_cancel_left)
    also have "\<dots> \<longleftrightarrow> \<not> Suc i < k"
      using assms(1) by (simp only: mult_le_cancel2) (auto simp: mmap_at_def)
    finally show ?thesis .
  qed
  with assms(1) show ?thesis by (simp add: mmap_next_def mmap_at_def Let_def nxt size)
qed

text \<open>
  the two iterators visit exactly the entries of a well-formed memory-map tag: the first
  pointer is entry 0, each \<open>mmap_next\<close> is the following entry, the last is followed by the null
  pointer, and every entry visited lies inside the tag.
\<close>

theorem mmap_walk_correct:
  assumes "mmap_at m mbi t es k"
  shows "mmap_first m mbi = Some (entry_at t es 0)
    \<and> (\<forall>i < k. mmap_next m mbi (entry_at t es i)
          = Some (if Suc i < k then entry_at t es (Suc i) else 0)
        \<and> unat (entry_at t es i) + es \<le> unat t + unat (tag_size m t))"
proof (intro conjI allI impI)
  show "mmap_first m mbi = Some (entry_at t es 0)" using assms by (rule mmap_first_at)
next
  fix i assume i: "i < k"
  then show "mmap_next m mbi (entry_at t es i) = Some (if Suc i < k then entry_at t es (Suc i) else 0)"
    by (rule mmap_next_at [OF assms])
  have "Suc i * es \<le> k * es" using i by (intro mult_le_mono1) simp
  then show "unat (entry_at t es i) + es \<le> unat t + unat (tag_size m t)"
    using assms i unat_entry_at [OF assms, of i] by (simp add: mmap_at_def)
qed

section \<open>A sample structure\<close>

text \<open>
  A structure at address 0 with a basic memory tag and a memory map of two entries of 24 bytes:
  three pages of available memory and two reserved pages. The properties are applied to it.
\<close>

definition sample_mbi :: memory where
  "sample_mbi = (\<lambda>_. 0)(8 := 4, 12 := 16, 24 := 6, 28 := 64, 32 := 24,
     49 := 0x30, 56 := 1, 73 := 0x20, 80 := 2)"

lemma sample_tags: "tags_at sample_mbi 8 [(8, MB2_TAG_MEM), (24, MB2_TAG_MMAP)]"
  by (simp add: sample_mbi_def tag_type_def tag_size_def mb2_next_tag_def ld32_def
      MB2_TAG_END_def MB2_TAG_MEM_def MB2_TAG_MMAP_def)

lemma tag_types_differ:
  "MB2_TAG_MEM \<noteq> MB2_TAG_MMAP" "MB2_TAG_MMAP \<noteq> MB2_TAG_END" "MB2_TAG_FB \<noteq> MB2_TAG_END"
  by (simp_all add: MB2_TAG_MEM_def MB2_TAG_MMAP_def MB2_TAG_END_def MB2_TAG_FB_def)

lemma sample_tags_0: "tags_at sample_mbi (0 + 8) [(8, MB2_TAG_MEM), (24, MB2_TAG_MMAP)]"
  by (simp only: add_0 sample_tags)

lemma sample_find: "mb2_find_tag sample_mbi 0 MB2_TAG_MMAP = Some 24"
  using find_tag_tags [OF sample_tags_0, of MB2_TAG_MMAP] tag_types_differ by simp

lemma sample_mmap: "mmap_at sample_mbi 0 24 24 2"
proof -
  have "tag_entry_size sample_mbi 24 = 24" "tag_size sample_mbi 24 = 64"
    by (simp_all add: sample_mbi_def tag_entry_size_def tag_size_def ld32_def)
  then show ?thesis by (simp add: mmap_at_def sample_find)
qed

theorem mb2_find_tag_correct_witness:
  "mb2_find_tag sample_mbi 0 MB2_TAG_MMAP = Some 24
    \<and> mb2_find_tag ((\<lambda>_. 0)(8 := 4)) 0 MB2_TAG_MMAP = None"
proof -
  let ?bad = "(\<lambda>_. 0)(8 := 4) :: memory"
  have ne: "MB2_TAG_MMAP \<noteq> MB2_TAG_END" by (simp add: MB2_TAG_MMAP_def MB2_TAG_END_def)
  have "mb2_next_tag ?bad (0 + 8) = 0 + 8 \<and> tag_type ?bad (0 + 8) \<notin> {MB2_TAG_END, MB2_TAG_MMAP}"
    by (simp add: mb2_next_tag_def tag_type_def tag_size_def ld32_def
        MB2_TAG_MMAP_def MB2_TAG_END_def)
  then have "mb2_find_tag ?bad 0 MB2_TAG_MMAP = None"
    using mb2_find_tag_correct [OF ne, of ?bad 0] by blast
  moreover have "mb2_find_tag sample_mbi 0 MB2_TAG_MMAP = Some 24"
    using mb2_find_tag_correct [OF ne, of sample_mbi 0] sample_tags_0 tag_types_differ
    by (metis first_tag.simps(2))
  ultimately show ?thesis by simp
qed

theorem mmap_walk_correct_witness:
  "mmap_first sample_mbi 0 = Some 40 \<and> mmap_next sample_mbi 0 40 = Some 64
    \<and> mmap_next sample_mbi 0 64 = Some 0"
proof -
  note walk = mmap_walk_correct [OF sample_mmap]
  have "mmap_next sample_mbi 0 (entry_at 24 24 0) = Some (entry_at 24 24 1)"
    using walk by (auto dest: spec [of _ 0])
  moreover have "mmap_next sample_mbi 0 (entry_at 24 24 1) = Some 0"
    using walk by (auto dest: spec [of _ 1])
  ultimately show ?thesis using walk by (simp add: entry_at_def)
qed

end
