(* ===== verification/Font.thy ===== *)
theory Font
  imports Kernel_Base
begin

text \<open>
  The bitmap font of \<open>font.h\<close>: 256 glyphs of sixteen rows, one byte per row, leftmost pixel in
  bit 7. The source's one array is kept as sixteen blocks of sixteen glyphs; \<open>font_glyphs\<close> is
  their concatenation.
\<close>

section \<open>The glyph blocks\<close>

definition glyphs_0x :: "u8 list" where
  "glyphs_0x =
   [0, 0, 0, 126, 129, 153, 165, 161, 165, 153, 129, 126, 0, 0, 0, 0,
    0, 0, 0, 126, 129, 185, 165, 185, 169, 165, 129, 126, 0, 0, 0, 0,
    0, 0, 60, 66, 66, 66, 66, 126, 66, 66, 66, 66, 2, 4, 3, 0,
    0, 0, 0, 0, 0, 60, 2, 62, 66, 66, 66, 62, 2, 4, 3, 0,
    0, 0, 0, 0, 16, 56, 124, 254, 124, 56, 16, 0, 0, 0, 0, 0,
    0, 0, 2, 15, 2, 62, 66, 66, 66, 66, 66, 62, 0, 0, 0, 0,
    0, 0, 126, 64, 64, 64, 120, 64, 64, 64, 64, 126, 2, 4, 3, 0,
    0, 0, 0, 0, 0, 0, 24, 60, 60, 24, 0, 0, 0, 0, 0, 0,
    0, 0, 251, 85, 85, 81, 0, 0, 0, 0, 0, 0, 0, 0, 0, 0,
    0, 0, 0, 0, 68, 56, 68, 68, 68, 56, 68, 0, 0, 0, 0, 0,
    0, 0, 16, 16, 16, 16, 0, 0, 16, 16, 16, 16, 0, 0, 0, 0,
    36, 36, 0, 0, 0, 0, 0, 0, 0, 0, 0, 0, 0, 0, 0, 0,
    8, 16, 0, 0, 0, 0, 0, 0, 0, 0, 0, 0, 0, 0, 0, 0,
    0, 0, 0, 0, 0, 0, 0, 0, 0, 0, 0, 0, 16, 16, 32, 0,
    8, 16, 0, 60, 66, 66, 66, 126, 66, 66, 66, 66, 0, 0, 0, 0,
    24, 36, 0, 60, 66, 66, 66, 126, 66, 66, 66, 66, 0, 0, 0, 0]"

definition glyphs_1x :: "u8 list" where
  "glyphs_1x =
   [36, 36, 0, 126, 64, 64, 64, 120, 64, 64, 64, 126, 0, 0, 0, 0,
    8, 16, 0, 56, 16, 16, 16, 16, 16, 16, 16, 56, 0, 0, 0, 0,
    24, 36, 0, 56, 16, 16, 16, 16, 16, 16, 16, 56, 0, 0, 0, 0,
    8, 16, 0, 60, 66, 66, 66, 66, 66, 66, 66, 60, 0, 0, 0, 0,
    0, 0, 126, 146, 146, 146, 146, 114, 18, 18, 18, 18, 0, 0, 0, 0,
    0, 56, 68, 64, 48, 72, 68, 68, 36, 24, 4, 68, 56, 0, 0, 0,
    24, 36, 0, 60, 66, 66, 66, 66, 66, 66, 66, 60, 0, 0, 0, 0,
    0, 0, 0, 0, 0, 66, 36, 24, 24, 36, 66, 0, 0, 0, 0, 0,
    0, 0, 16, 56, 84, 16, 16, 16, 16, 16, 16, 16, 0, 0, 0, 0,
    0, 0, 16, 16, 16, 16, 16, 16, 16, 84, 56, 16, 0, 0, 0, 0,
    0, 0, 0, 0, 0, 8, 4, 254, 4, 8, 0, 0, 0, 0, 0, 0,
    0, 0, 0, 0, 0, 32, 64, 254, 64, 32, 0, 0, 0, 0, 0, 0,
    8, 16, 66, 66, 66, 66, 66, 66, 66, 66, 66, 60, 0, 0, 0, 0,
    8, 16, 130, 130, 68, 68, 40, 16, 16, 16, 16, 16, 0, 0, 0, 0,
    0, 0, 8, 16, 0, 66, 66, 66, 66, 66, 66, 62, 2, 2, 60, 0,
    36, 24, 0, 60, 66, 66, 66, 126, 66, 66, 66, 66, 0, 0, 0, 0]"

definition glyphs_2x :: "u8 list" where
  "glyphs_2x =
   [0, 0, 0, 0, 0, 0, 0, 0, 0, 0, 0, 0, 0, 0, 0, 0,
    0, 0, 16, 16, 16, 16, 16, 16, 16, 0, 16, 16, 0, 0, 0, 0,
    0, 36, 36, 36, 0, 0, 0, 0, 0, 0, 0, 0, 0, 0, 0, 0,
    0, 0, 36, 36, 36, 126, 36, 36, 126, 36, 36, 36, 0, 0, 0, 0,
    0, 16, 16, 124, 146, 144, 144, 124, 18, 18, 146, 124, 16, 16, 0, 0,
    0, 0, 100, 148, 104, 8, 16, 16, 32, 44, 82, 76, 0, 0, 0, 0,
    0, 0, 24, 36, 36, 24, 48, 74, 68, 68, 68, 58, 0, 0, 0, 0,
    0, 16, 16, 16, 0, 0, 0, 0, 0, 0, 0, 0, 0, 0, 0, 0,
    0, 0, 8, 16, 32, 32, 32, 32, 32, 32, 16, 8, 0, 0, 0, 0,
    0, 0, 32, 16, 8, 8, 8, 8, 8, 8, 16, 32, 0, 0, 0, 0,
    0, 0, 0, 0, 0, 36, 24, 126, 24, 36, 0, 0, 0, 0, 0, 0,
    0, 0, 0, 0, 0, 16, 16, 124, 16, 16, 0, 0, 0, 0, 0, 0,
    0, 0, 0, 0, 0, 0, 0, 0, 0, 0, 16, 16, 32, 0, 0, 0,
    0, 0, 0, 0, 0, 0, 0, 126, 0, 0, 0, 0, 0, 0, 0, 0,
    0, 0, 0, 0, 0, 0, 0, 0, 0, 0, 16, 16, 0, 0, 0, 0,
    0, 0, 4, 4, 8, 8, 16, 16, 32, 32, 64, 64, 0, 0, 0, 0]"

definition glyphs_3x :: "u8 list" where
  "glyphs_3x =
   [0, 0, 60, 66, 66, 70, 74, 82, 98, 66, 66, 60, 0, 0, 0, 0,
    0, 0, 8, 24, 40, 8, 8, 8, 8, 8, 8, 62, 0, 0, 0, 0,
    0, 0, 60, 66, 66, 2, 4, 8, 16, 32, 64, 126, 0, 0, 0, 0,
    0, 0, 60, 66, 66, 2, 28, 2, 2, 66, 66, 60, 0, 0, 0, 0,
    0, 0, 2, 6, 10, 18, 34, 66, 126, 2, 2, 2, 0, 0, 0, 0,
    0, 0, 126, 64, 64, 64, 124, 2, 2, 2, 66, 60, 0, 0, 0, 0,
    0, 0, 28, 32, 64, 64, 124, 66, 66, 66, 66, 60, 0, 0, 0, 0,
    0, 0, 126, 2, 2, 4, 4, 8, 8, 16, 16, 16, 0, 0, 0, 0,
    0, 0, 60, 66, 66, 66, 60, 66, 66, 66, 66, 60, 0, 0, 0, 0,
    0, 0, 60, 66, 66, 66, 66, 62, 2, 2, 4, 56, 0, 0, 0, 0,
    0, 0, 0, 0, 0, 16, 16, 0, 0, 0, 16, 16, 0, 0, 0, 0,
    0, 0, 0, 0, 0, 16, 16, 0, 0, 0, 16, 16, 32, 0, 0, 0,
    0, 0, 0, 4, 8, 16, 32, 64, 32, 16, 8, 4, 0, 0, 0, 0,
    0, 0, 0, 0, 0, 126, 0, 0, 126, 0, 0, 0, 0, 0, 0, 0,
    0, 0, 0, 64, 32, 16, 8, 4, 8, 16, 32, 64, 0, 0, 0, 0,
    0, 0, 60, 66, 66, 66, 4, 8, 8, 0, 8, 8, 0, 0, 0, 0]"

definition glyphs_4x :: "u8 list" where
  "glyphs_4x =
   [0, 0, 124, 130, 158, 162, 162, 162, 166, 154, 128, 126, 0, 0, 0, 0,
    0, 0, 60, 66, 66, 66, 66, 126, 66, 66, 66, 66, 0, 0, 0, 0,
    0, 0, 124, 66, 66, 66, 124, 66, 66, 66, 66, 124, 0, 0, 0, 0,
    0, 0, 60, 66, 66, 64, 64, 64, 64, 66, 66, 60, 0, 0, 0, 0,
    0, 0, 120, 68, 66, 66, 66, 66, 66, 66, 68, 120, 0, 0, 0, 0,
    0, 0, 126, 64, 64, 64, 120, 64, 64, 64, 64, 126, 0, 0, 0, 0,
    0, 0, 126, 64, 64, 64, 120, 64, 64, 64, 64, 64, 0, 0, 0, 0,
    0, 0, 60, 66, 66, 64, 64, 78, 66, 66, 66, 60, 0, 0, 0, 0,
    0, 0, 66, 66, 66, 66, 126, 66, 66, 66, 66, 66, 0, 0, 0, 0,
    0, 0, 56, 16, 16, 16, 16, 16, 16, 16, 16, 56, 0, 0, 0, 0,
    0, 0, 14, 4, 4, 4, 4, 4, 4, 68, 68, 56, 0, 0, 0, 0,
    0, 0, 66, 68, 72, 80, 96, 96, 80, 72, 68, 66, 0, 0, 0, 0,
    0, 0, 64, 64, 64, 64, 64, 64, 64, 64, 64, 126, 0, 0, 0, 0,
    0, 0, 130, 198, 170, 146, 146, 130, 130, 130, 130, 130, 0, 0, 0, 0,
    0, 0, 66, 66, 66, 98, 82, 74, 70, 66, 66, 66, 0, 0, 0, 0,
    0, 0, 60, 66, 66, 66, 66, 66, 66, 66, 66, 60, 0, 0, 0, 0]"

definition glyphs_5x :: "u8 list" where
  "glyphs_5x =
   [0, 0, 124, 66, 66, 66, 66, 124, 64, 64, 64, 64, 0, 0, 0, 0,
    0, 0, 60, 66, 66, 66, 66, 66, 66, 66, 74, 60, 2, 0, 0, 0,
    0, 0, 124, 66, 66, 66, 66, 124, 80, 72, 68, 66, 0, 0, 0, 0,
    0, 0, 60, 66, 64, 64, 60, 2, 2, 66, 66, 60, 0, 0, 0, 0,
    0, 0, 254, 16, 16, 16, 16, 16, 16, 16, 16, 16, 0, 0, 0, 0,
    0, 0, 66, 66, 66, 66, 66, 66, 66, 66, 66, 60, 0, 0, 0, 0,
    0, 0, 66, 66, 66, 66, 66, 36, 36, 36, 24, 24, 0, 0, 0, 0,
    0, 0, 130, 130, 130, 130, 130, 146, 146, 170, 198, 130, 0, 0, 0, 0,
    0, 0, 66, 66, 36, 36, 24, 24, 36, 36, 66, 66, 0, 0, 0, 0,
    0, 0, 130, 130, 68, 68, 40, 16, 16, 16, 16, 16, 0, 0, 0, 0,
    0, 0, 126, 2, 2, 4, 8, 16, 32, 64, 64, 126, 0, 0, 0, 0,
    0, 0, 56, 32, 32, 32, 32, 32, 32, 32, 32, 56, 0, 0, 0, 0,
    0, 0, 64, 64, 32, 32, 16, 16, 8, 8, 4, 4, 0, 0, 0, 0,
    0, 0, 56, 8, 8, 8, 8, 8, 8, 8, 8, 56, 0, 0, 0, 0,
    0, 16, 40, 68, 0, 0, 0, 0, 0, 0, 0, 0, 0, 0, 0, 0,
    0, 0, 0, 0, 0, 0, 0, 0, 0, 0, 0, 0, 0, 126, 0, 0]"

definition glyphs_6x :: "u8 list" where
  "glyphs_6x =
   [16, 8, 0, 0, 0, 0, 0, 0, 0, 0, 0, 0, 0, 0, 0, 0,
    0, 0, 0, 0, 0, 60, 2, 62, 66, 66, 66, 62, 0, 0, 0, 0,
    0, 0, 64, 64, 64, 124, 66, 66, 66, 66, 66, 124, 0, 0, 0, 0,
    0, 0, 0, 0, 0, 60, 66, 64, 64, 64, 66, 60, 0, 0, 0, 0,
    0, 0, 2, 2, 2, 62, 66, 66, 66, 66, 66, 62, 0, 0, 0, 0,
    0, 0, 0, 0, 0, 60, 66, 66, 126, 64, 64, 60, 0, 0, 0, 0,
    0, 0, 14, 16, 16, 124, 16, 16, 16, 16, 16, 16, 0, 0, 0, 0,
    0, 0, 0, 0, 0, 62, 66, 66, 66, 66, 66, 62, 2, 2, 60, 0,
    0, 0, 64, 64, 64, 124, 66, 66, 66, 66, 66, 66, 0, 0, 0, 0,
    0, 0, 16, 16, 0, 48, 16, 16, 16, 16, 16, 56, 0, 0, 0, 0,
    0, 0, 4, 4, 0, 12, 4, 4, 4, 4, 4, 4, 68, 68, 56, 0,
    0, 0, 64, 64, 64, 66, 68, 72, 112, 72, 68, 66, 0, 0, 0, 0,
    0, 0, 48, 16, 16, 16, 16, 16, 16, 16, 16, 56, 0, 0, 0, 0,
    0, 0, 0, 0, 0, 252, 146, 146, 146, 146, 146, 146, 0, 0, 0, 0,
    0, 0, 0, 0, 0, 124, 66, 66, 66, 66, 66, 66, 0, 0, 0, 0,
    0, 0, 0, 0, 0, 60, 66, 66, 66, 66, 66, 60, 0, 0, 0, 0]"

definition glyphs_7x :: "u8 list" where
  "glyphs_7x =
   [0, 0, 0, 0, 0, 124, 66, 66, 66, 66, 66, 124, 64, 64, 64, 0,
    0, 0, 0, 0, 0, 62, 66, 66, 66, 66, 66, 62, 2, 2, 2, 0,
    0, 0, 0, 0, 0, 94, 96, 64, 64, 64, 64, 64, 0, 0, 0, 0,
    0, 0, 0, 0, 0, 62, 64, 64, 60, 2, 2, 124, 0, 0, 0, 0,
    0, 0, 16, 16, 16, 124, 16, 16, 16, 16, 16, 14, 0, 0, 0, 0,
    0, 0, 0, 0, 0, 66, 66, 66, 66, 66, 66, 62, 0, 0, 0, 0,
    0, 0, 0, 0, 0, 66, 66, 66, 36, 36, 24, 24, 0, 0, 0, 0,
    0, 0, 0, 0, 0, 130, 130, 146, 146, 146, 146, 124, 0, 0, 0, 0,
    0, 0, 0, 0, 0, 66, 66, 36, 24, 36, 66, 66, 0, 0, 0, 0,
    0, 0, 0, 0, 0, 66, 66, 66, 66, 66, 66, 62, 2, 2, 60, 0,
    0, 0, 0, 0, 0, 126, 4, 8, 16, 32, 64, 126, 0, 0, 0, 0,
    0, 0, 12, 16, 16, 16, 32, 16, 16, 16, 16, 12, 0, 0, 0, 0,
    0, 0, 16, 16, 16, 16, 16, 16, 16, 16, 16, 16, 0, 0, 0, 0,
    0, 0, 48, 8, 8, 8, 4, 8, 8, 8, 8, 48, 0, 0, 0, 0,
    0, 0, 0, 0, 0, 0, 98, 146, 140, 0, 0, 0, 0, 0, 0, 0,
    0, 0, 36, 24, 0, 60, 2, 62, 66, 66, 66, 62, 0, 0, 0, 0]"

definition glyphs_8x :: "u8 list" where
  "glyphs_8x =
   [0, 0, 60, 66, 66, 64, 64, 64, 64, 66, 66, 60, 16, 16, 32, 0,
    0, 0, 36, 36, 0, 66, 66, 66, 66, 66, 66, 62, 0, 0, 0, 0,
    0, 0, 8, 16, 0, 60, 66, 66, 126, 64, 64, 60, 0, 0, 0, 0,
    0, 0, 24, 36, 0, 60, 2, 62, 66, 66, 66, 62, 0, 0, 0, 0,
    0, 0, 36, 36, 0, 60, 2, 62, 66, 66, 66, 62, 0, 0, 0, 0,
    0, 0, 16, 8, 0, 60, 2, 62, 66, 66, 66, 62, 0, 0, 0, 0,
    8, 16, 0, 60, 66, 66, 64, 64, 64, 66, 66, 60, 0, 0, 0, 0,
    0, 0, 0, 0, 0, 60, 66, 64, 64, 64, 66, 60, 16, 16, 32, 0,
    0, 0, 24, 36, 0, 60, 66, 66, 126, 64, 64, 60, 0, 0, 0, 0,
    0, 0, 36, 36, 0, 60, 66, 66, 126, 64, 64, 60, 0, 0, 0, 0,
    0, 0, 16, 8, 0, 60, 66, 66, 126, 64, 64, 60, 0, 0, 0, 0,
    0, 0, 8, 16, 0, 60, 66, 64, 64, 64, 66, 60, 0, 0, 0, 0,
    0, 0, 48, 72, 0, 48, 16, 16, 16, 16, 16, 56, 0, 0, 0, 0,
    36, 24, 0, 60, 66, 66, 64, 64, 64, 66, 66, 60, 0, 0, 0, 0,
    36, 36, 0, 60, 66, 66, 66, 126, 66, 66, 66, 66, 0, 0, 0, 0,
    0, 0, 36, 24, 0, 60, 66, 64, 64, 64, 66, 60, 0, 0, 0, 0]"

definition glyphs_9x :: "u8 list" where
  "glyphs_9x =
   [8, 16, 0, 126, 64, 64, 64, 120, 64, 64, 64, 126, 0, 0, 0, 0,
    36, 24, 0, 120, 68, 66, 66, 66, 66, 66, 68, 120, 0, 0, 0, 0,
    36, 24, 2, 2, 2, 62, 66, 66, 66, 66, 66, 62, 0, 0, 0, 0,
    0, 0, 24, 36, 0, 60, 66, 66, 66, 66, 66, 60, 0, 0, 0, 0,
    0, 0, 36, 36, 0, 60, 66, 66, 66, 66, 66, 60, 0, 0, 0, 0,
    0, 0, 120, 68, 66, 66, 242, 66, 66, 66, 68, 120, 0, 0, 0, 0,
    0, 0, 0, 0, 0, 60, 66, 66, 126, 64, 64, 60, 8, 16, 12, 0,
    36, 24, 0, 126, 64, 64, 64, 120, 64, 64, 64, 126, 0, 0, 0, 0,
    0, 0, 36, 24, 0, 60, 66, 66, 126, 64, 64, 60, 0, 0, 0, 0,
    36, 36, 0, 60, 66, 66, 66, 66, 66, 66, 66, 60, 0, 0, 0, 0,
    36, 36, 0, 66, 66, 66, 66, 66, 66, 66, 66, 60, 0, 0, 0, 0,
    32, 64, 0, 64, 64, 64, 64, 64, 64, 64, 64, 126, 0, 0, 0, 0,
    0, 0, 24, 36, 32, 32, 120, 32, 32, 32, 34, 126, 0, 0, 0, 0,
    8, 16, 0, 48, 16, 16, 16, 16, 16, 16, 16, 56, 0, 0, 0, 0,
    36, 24, 64, 64, 64, 64, 64, 64, 64, 64, 64, 126, 0, 0, 0, 0,
    72, 48, 0, 48, 16, 16, 16, 16, 16, 16, 16, 56, 0, 0, 0, 0]"

definition glyphs_Ax :: "u8 list" where
  "glyphs_Ax =
   [0, 0, 8, 16, 0, 60, 2, 62, 66, 66, 66, 62, 0, 0, 0, 0,
    0, 0, 8, 16, 0, 48, 16, 16, 16, 16, 16, 56, 0, 0, 0, 0,
    0, 0, 8, 16, 0, 60, 66, 66, 66, 66, 66, 60, 0, 0, 0, 0,
    0, 0, 8, 16, 0, 66, 66, 66, 66, 66, 66, 62, 0, 0, 0, 0,
    0, 0, 50, 76, 0, 124, 66, 66, 66, 66, 66, 66, 0, 0, 0, 0,
    50, 76, 0, 66, 66, 98, 82, 74, 70, 66, 66, 66, 0, 0, 0, 0,
    0, 0, 64, 64, 64, 64, 96, 192, 64, 64, 64, 126, 0, 0, 0, 0,
    0, 0, 48, 16, 16, 16, 24, 48, 16, 16, 16, 56, 0, 0, 0, 0,
    0, 0, 16, 16, 0, 16, 16, 32, 66, 66, 66, 60, 0, 0, 0, 0,
    8, 16, 66, 66, 66, 98, 82, 74, 70, 66, 66, 66, 0, 0, 0, 0,
    0, 0, 0, 0, 0, 126, 2, 2, 2, 0, 0, 0, 0, 0, 0, 0,
    0, 0, 8, 16, 0, 124, 66, 66, 66, 66, 66, 66, 0, 0, 0, 0,
    36, 24, 66, 66, 66, 98, 82, 74, 70, 66, 66, 66, 0, 0, 0, 0,
    0, 0, 16, 16, 0, 16, 16, 16, 16, 16, 16, 16, 0, 0, 0, 0,
    0, 0, 0, 0, 0, 18, 36, 72, 144, 72, 36, 18, 0, 0, 0, 0,
    0, 0, 0, 0, 0, 144, 72, 36, 18, 36, 72, 144, 0, 0, 0, 0]"

definition glyphs_Bx :: "u8 list" where
  "glyphs_Bx =
   [136, 34, 136, 34, 136, 34, 136, 34, 136, 34, 136, 34, 136, 34, 136, 34,
    170, 85, 170, 85, 170, 85, 170, 85, 170, 85, 170, 85, 170, 85, 170, 85,
    0, 0, 36, 24, 0, 124, 66, 66, 66, 66, 66, 66, 0, 0, 0, 0,
    16, 16, 16, 16, 16, 16, 16, 16, 16, 16, 16, 16, 16, 16, 16, 16,
    16, 16, 16, 16, 16, 16, 16, 240, 16, 16, 16, 16, 16, 16, 16, 16,
    18, 36, 0, 60, 66, 66, 66, 66, 66, 66, 66, 60, 0, 0, 0, 0,
    0, 0, 18, 36, 0, 60, 66, 66, 66, 66, 66, 60, 0, 0, 0, 0,
    8, 16, 0, 124, 66, 66, 66, 124, 80, 72, 68, 66, 0, 0, 0, 0,
    0, 0, 8, 16, 0, 94, 96, 64, 64, 64, 64, 64, 0, 0, 0, 0,
    36, 24, 0, 124, 66, 66, 66, 124, 80, 72, 68, 66, 0, 0, 0, 0,
    0, 0, 36, 24, 0, 94, 96, 64, 64, 64, 64, 64, 0, 0, 0, 0,
    8, 16, 0, 60, 66, 64, 64, 60, 2, 2, 66, 60, 0, 0, 0, 0,
    0, 0, 4, 8, 0, 62, 64, 64, 60, 2, 2, 124, 0, 0, 0, 0,
    0, 0, 60, 66, 64, 64, 60, 2, 2, 66, 66, 60, 16, 16, 32, 0,
    0, 0, 0, 0, 0, 62, 64, 64, 60, 2, 2, 124, 16, 16, 32, 0,
    0, 0, 0, 0, 0, 0, 0, 240, 16, 16, 16, 16, 16, 16, 16, 16]"

definition glyphs_Cx :: "u8 list" where
  "glyphs_Cx =
   [16, 16, 16, 16, 16, 16, 16, 31, 0, 0, 0, 0, 0, 0, 0, 0,
    16, 16, 16, 16, 16, 16, 16, 255, 0, 0, 0, 0, 0, 0, 0, 0,
    0, 0, 0, 0, 0, 0, 0, 255, 16, 16, 16, 16, 16, 16, 16, 16,
    16, 16, 16, 16, 16, 16, 16, 31, 16, 16, 16, 16, 16, 16, 16, 16,
    0, 0, 0, 0, 0, 0, 0, 255, 0, 0, 0, 0, 0, 0, 0, 0,
    16, 16, 16, 16, 16, 16, 16, 255, 16, 16, 16, 16, 16, 16, 16, 16,
    36, 24, 0, 60, 66, 64, 64, 60, 2, 2, 66, 60, 0, 0, 0, 0,
    0, 0, 36, 24, 0, 62, 64, 64, 60, 2, 2, 124, 0, 0, 0, 0,
    0, 0, 254, 16, 16, 16, 16, 16, 16, 16, 16, 16, 8, 8, 16, 0,
    0, 0, 16, 16, 16, 124, 16, 16, 16, 16, 16, 14, 4, 4, 8, 0,
    36, 24, 0, 254, 16, 16, 16, 16, 16, 16, 16, 16, 0, 0, 0, 0,
    36, 24, 0, 16, 16, 124, 16, 16, 16, 16, 16, 14, 0, 0, 0, 0,
    24, 36, 24, 66, 66, 66, 66, 66, 66, 66, 66, 60, 0, 0, 0, 0,
    0, 0, 24, 36, 24, 66, 66, 66, 66, 66, 66, 62, 0, 0, 0, 0,
    18, 36, 0, 66, 66, 66, 66, 66, 66, 66, 66, 60, 0, 0, 0, 0,
    0, 0, 18, 36, 0, 66, 66, 66, 66, 66, 66, 62, 0, 0, 0, 0]"

definition glyphs_Dx :: "u8 list" where
  "glyphs_Dx =
   [8, 16, 0, 126, 2, 4, 8, 16, 32, 64, 64, 126, 0, 0, 0, 0,
    0, 0, 8, 16, 0, 126, 4, 8, 16, 32, 64, 126, 0, 0, 0, 0,
    16, 16, 0, 126, 2, 4, 8, 16, 32, 64, 64, 126, 0, 0, 0, 0,
    0, 0, 16, 16, 0, 126, 4, 8, 16, 32, 64, 126, 0, 0, 0, 0,
    36, 24, 0, 126, 2, 4, 8, 16, 32, 64, 64, 126, 0, 0, 0, 0,
    0, 0, 36, 24, 0, 126, 4, 8, 16, 32, 64, 126, 0, 0, 0, 0,
    0, 0, 60, 66, 64, 64, 60, 2, 2, 66, 66, 60, 0, 16, 16, 32,
    0, 0, 0, 0, 0, 62, 64, 64, 60, 2, 2, 124, 0, 16, 16, 32,
    0, 0, 254, 16, 16, 16, 16, 16, 16, 16, 16, 16, 0, 16, 16, 32,
    16, 16, 16, 16, 16, 16, 16, 240, 0, 0, 0, 0, 0, 0, 0, 0,
    0, 0, 0, 0, 0, 0, 0, 31, 16, 16, 16, 16, 16, 16, 16, 16,
    255, 255, 255, 255, 255, 255, 255, 255, 255, 255, 255, 255, 255, 255, 255, 255,
    0, 0, 16, 16, 16, 124, 16, 16, 16, 16, 16, 14, 0, 4, 4, 8,
    36, 24, 0, 0, 0, 0, 0, 0, 0, 0, 0, 0, 0, 0, 0, 0,
    36, 24, 0, 0, 0, 0, 0, 0, 0, 0, 0, 0, 0, 0, 0, 0,
    16, 16, 0, 0, 0, 0, 0, 0, 0, 0, 0, 0, 0, 0, 0, 0]"

definition glyphs_Ex :: "u8 list" where
  "glyphs_Ex =
   [0, 0, 0, 0, 0, 0, 0, 0, 0, 0, 0, 0, 8, 16, 12, 0,
    0, 0, 56, 68, 68, 72, 124, 66, 66, 66, 98, 92, 0, 0, 0, 0,
    18, 36, 0, 0, 0, 0, 0, 0, 0, 0, 0, 0, 0, 0, 0, 0,
    0, 0, 0, 0, 0, 126, 66, 66, 66, 66, 66, 66, 0, 0, 0, 0,
    0, 0, 0, 0, 0, 0, 0, 254, 0, 0, 0, 0, 0, 0, 0, 0,
    0, 8, 16, 16, 0, 0, 0, 0, 0, 0, 0, 0, 0, 0, 0, 0,
    0, 0, 0, 0, 0, 66, 66, 66, 66, 66, 70, 122, 64, 64, 64, 0,
    0, 8, 8, 16, 0, 0, 0, 0, 0, 0, 0, 0, 0, 0, 0, 0,
    0, 0, 0, 0, 0, 0, 0, 0, 0, 0, 8, 8, 16, 0, 0, 0,
    0, 18, 36, 36, 0, 0, 0, 0, 0, 0, 0, 0, 0, 0, 0, 0,
    0, 18, 18, 36, 0, 0, 0, 0, 0, 0, 0, 0, 0, 0, 0, 0,
    0, 0, 0, 0, 0, 0, 0, 0, 0, 0, 36, 36, 72, 0, 0, 0,
    0, 0, 16, 16, 124, 16, 16, 16, 16, 16, 16, 16, 0, 0, 0, 0,
    0, 0, 16, 16, 124, 16, 16, 16, 16, 124, 16, 16, 0, 0, 0, 0,
    0, 0, 0, 0, 0, 0, 0, 0, 0, 0, 146, 146, 0, 0, 0, 0,
    0, 0, 72, 168, 80, 16, 32, 32, 64, 84, 170, 148, 0, 0, 0, 0]"

definition glyphs_Fx :: "u8 list" where
  "glyphs_Fx =
   [0, 0, 0, 0, 0, 4, 8, 16, 32, 16, 8, 4, 0, 0, 0, 0,
    0, 0, 0, 0, 0, 16, 16, 124, 16, 16, 0, 124, 0, 0, 0, 0,
    0, 0, 0, 32, 16, 8, 4, 8, 16, 32, 0, 124, 0, 0, 0, 0,
    0, 0, 0, 4, 8, 16, 32, 16, 8, 4, 0, 62, 0, 0, 0, 0,
    0, 0, 0, 0, 0, 32, 16, 8, 4, 8, 16, 32, 0, 0, 0, 0,
    0, 0, 0, 28, 34, 64, 248, 64, 248, 64, 34, 28, 0, 0, 0, 0,
    0, 0, 0, 0, 16, 16, 0, 124, 0, 16, 16, 0, 0, 0, 0, 0,
    0, 0, 0, 0, 0, 50, 76, 0, 50, 76, 0, 0, 0, 0, 0, 0,
    0, 24, 36, 36, 24, 0, 0, 0, 0, 0, 0, 0, 0, 0, 0, 0,
    0, 0, 0, 0, 2, 126, 8, 16, 126, 64, 0, 0, 0, 0, 0, 0,
    0, 0, 0, 0, 0, 0, 0, 16, 16, 0, 0, 0, 0, 0, 0, 0,
    0, 0, 150, 150, 150, 208, 240, 240, 176, 150, 144, 150, 0, 0, 0, 0,
    16, 8, 0, 60, 66, 66, 66, 126, 66, 66, 66, 66, 0, 0, 0, 0,
    16, 8, 0, 126, 64, 64, 64, 120, 64, 64, 64, 126, 0, 0, 0, 0,
    0, 0, 0, 0, 0, 60, 60, 60, 60, 60, 60, 0, 0, 0, 0, 0,
    24, 36, 0, 126, 64, 64, 64, 120, 64, 64, 64, 126, 0, 0, 0, 0]"

definition font_glyphs :: "u8 list" where
  "font_glyphs = concat [glyphs_0x, glyphs_1x, glyphs_2x, glyphs_3x, glyphs_4x, glyphs_5x, glyphs_6x, glyphs_7x,
     glyphs_8x, glyphs_9x, glyphs_Ax, glyphs_Bx, glyphs_Cx, glyphs_Dx, glyphs_Ex, glyphs_Fx]"

section \<open>Shape of the table\<close>

lemma length_glyphs_0x [simp]: "length glyphs_0x = 256"
  by (simp add: glyphs_0x_def)

lemma length_glyphs_1x [simp]: "length glyphs_1x = 256"
  by (simp add: glyphs_1x_def)

lemma length_glyphs_2x [simp]: "length glyphs_2x = 256"
  by (simp add: glyphs_2x_def)

lemma length_glyphs_3x [simp]: "length glyphs_3x = 256"
  by (simp add: glyphs_3x_def)

lemma length_glyphs_4x [simp]: "length glyphs_4x = 256"
  by (simp add: glyphs_4x_def)

lemma length_glyphs_5x [simp]: "length glyphs_5x = 256"
  by (simp add: glyphs_5x_def)

lemma length_glyphs_6x [simp]: "length glyphs_6x = 256"
  by (simp add: glyphs_6x_def)

lemma length_glyphs_7x [simp]: "length glyphs_7x = 256"
  by (simp add: glyphs_7x_def)

lemma length_glyphs_8x [simp]: "length glyphs_8x = 256"
  by (simp add: glyphs_8x_def)

lemma length_glyphs_9x [simp]: "length glyphs_9x = 256"
  by (simp add: glyphs_9x_def)

lemma length_glyphs_Ax [simp]: "length glyphs_Ax = 256"
  by (simp add: glyphs_Ax_def)

lemma length_glyphs_Bx [simp]: "length glyphs_Bx = 256"
  by (simp add: glyphs_Bx_def)

lemma length_glyphs_Cx [simp]: "length glyphs_Cx = 256"
  by (simp add: glyphs_Cx_def)

lemma length_glyphs_Dx [simp]: "length glyphs_Dx = 256"
  by (simp add: glyphs_Dx_def)

lemma length_glyphs_Ex [simp]: "length glyphs_Ex = 256"
  by (simp add: glyphs_Ex_def)

lemma length_glyphs_Fx [simp]: "length glyphs_Fx = 256"
  by (simp add: glyphs_Fx_def)

lemma length_font_glyphs [simp]: "length font_glyphs = 4096"
  by (simp add: font_glyphs_def)

end
