(* ===== verification/Framebuffer.thy ===== *)
theory Framebuffer
  imports Multiboot Font
begin

text \<open>
  The pixel half of \<open>fb.c\<close>: the driver's state, its initialisation from the boot information, the
  drawing of pixels, cells and characters, and scrolling. The framebuffer itself is a byte memory
  indexed by 64-bit addresses, written through the driver's 32-bit offset arithmetic. The
  specification is the picture, a colour per pixel, and the text held in \<open>screen_buf\<close>.
\<close>

section \<open>Memory writes\<close>

definition put32 :: "u64 \<Rightarrow> u32 \<Rightarrow> memory \<Rightarrow> memory" where
  "put32 a v m = m(a := ucast v, a + 1 := ucast (drop_bit 8 v), a + 2 := ucast (drop_bit 16 v),
     a + 3 := ucast (drop_bit 24 v))"

definition put64 :: "u64 \<Rightarrow> u64 \<Rightarrow> memory \<Rightarrow> memory" where
  "put64 a v m = put32 (a + 4) (ucast (drop_bit 32 v)) (put32 a (ucast v) m)"

text \<open>\<open>rep movsq\<close> and \<open>rep stosq\<close>: \<open>n\<close> quadwords upwards; the result has the advanced destination.\<close>

primrec rep_movsq :: "nat \<Rightarrow> u64 \<Rightarrow> u64 \<Rightarrow> memory \<Rightarrow> u64 \<times> memory" where
  "rep_movsq 0 dst src m = (dst, m)"
| "rep_movsq (Suc n) dst src m = rep_movsq n (dst + 8) (src + 8) (put64 dst (ld64 m src) m)"

primrec rep_stosq :: "nat \<Rightarrow> u64 \<Rightarrow> u64 \<Rightarrow> memory \<Rightarrow> memory" where
  "rep_stosq 0 dst v m = m"
| "rep_stosq (Suc n) dst v m = rep_stosq n (dst + 8) v (put64 dst v m)"

section \<open>The driver's state\<close>

definition FB_BLACK :: u32 where "FB_BLACK = 0x000000"
definition FB_WHITE :: u32 where "FB_WHITE = 0xFFFFFF"

definition SCREEN_MAX_COLS :: u32 where "SCREEN_MAX_COLS = 128"
definition SCREEN_MAX_ROWS :: u32 where "SCREEN_MAX_ROWS = 64"
definition CURSOR_SOLID_TICKS :: u32 where "CURSOR_SOLID_TICKS = 30"

text \<open>\<open>screen_buf r c\<close> is the C array of 64 rows and 128 columns; \<open>vram\<close> the memory behind \<open>fb_addr\<close>.\<close>

record fb =
  fb_addr :: u64
  fb_pitch :: u32
  fb_width :: u32
  fb_height :: u32
  fb_bpp :: u8
  fb_cols :: u32
  fb_rows :: u32
  glyph_w :: u32
  glyph_h :: u32
  cur_col :: u32
  cur_row :: u32
  theme_fg :: u32
  theme_bg :: u32
  last_activity :: u32
  screen_buf :: "nat \<Rightarrow> nat \<Rightarrow> u8"
  vram :: memory

definition fb_boot :: "memory \<Rightarrow> fb" where
  "fb_boot v =
    \<lparr>fb_addr = 0, fb_pitch = 0, fb_width = 0, fb_height = 0, fb_bpp = 0, fb_cols = 0, fb_rows = 0,
     glyph_w = 0, glyph_h = 0, cur_col = 0, cur_row = 0, theme_fg = FB_WHITE, theme_bg = FB_BLACK,
     last_activity = 0, screen_buf = (\<lambda>r c. 0), vram = v\<rparr>"

text \<open>The part of \<open>fb_init\<close> behind the tag search.\<close>

definition fb_setup :: "mb2_fb_tag \<Rightarrow> fb \<Rightarrow> fb" where
  "fb_setup tag st =
    (let w = tag_width tag div 96;
         gw = (if w < 8 then 8 else w);
         gh = gw * 2
     in st\<lparr>fb_addr := tag_addr tag, fb_pitch := tag_pitch tag, fb_width := tag_width tag,
           fb_height := tag_height tag, fb_bpp := tag_bpp tag, glyph_w := gw, glyph_h := gh,
           fb_cols := tag_width tag div gw, fb_rows := tag_height tag div gh\<rparr>)"

definition fb_init :: "memory \<Rightarrow> u64 \<Rightarrow> fb \<Rightarrow> fb option" where
  "fb_init m mbi st =
    map_option (\<lambda>tag. if tag = 0 then st else fb_setup (read_fb_tag m tag) st) (mb2_find_tag m mbi MB2_TAG_FB)"

definition fb_get_addr :: "fb \<Rightarrow> u64" where "fb_get_addr st = fb_addr st"
definition fb_get_size :: "fb \<Rightarrow> u64" where "fb_get_size st = ucast (fb_height st) * ucast (fb_pitch st)"
definition fb_get_width :: "fb \<Rightarrow> u32" where "fb_get_width st = fb_width st"
definition fb_get_height :: "fb \<Rightarrow> u32" where "fb_get_height st = fb_height st"
definition fb_get_scale :: "fb \<Rightarrow> u32" where "fb_get_scale st = glyph_w st"

section \<open>Pixels and cells\<close>

definition fb_draw_pixel :: "u32 \<Rightarrow> u32 \<Rightarrow> u8 \<Rightarrow> u8 \<Rightarrow> u8 \<Rightarrow> fb \<Rightarrow> fb" where
  "fb_draw_pixel x y r g b st =
    (let pixel = fb_addr st + ucast (y * fb_pitch st) + ucast (x * ucast (fb_bpp st div 8))
     in st\<lparr>vram := put32 pixel (push_bit 16 (ucast r) OR push_bit 8 (ucast g) OR ucast b) (vram st)\<rparr>)"

definition fb_clear :: "u32 \<Rightarrow> fb \<Rightarrow> fb" where
  "fb_clear color st =
    for_n (unat (fb_height st)) (\<lambda>y st.
      let row = fb_addr st + ucast (of_nat y * fb_pitch st)
      in for_n (unat (fb_width st)) (\<lambda>x st. st\<lparr>vram := put32 (row + of_nat x * 4) color (vram st)\<rparr>) st) st"

definition red :: "u32 \<Rightarrow> u8" where "red color = ucast (drop_bit 16 color AND 0xFF)"
definition green :: "u32 \<Rightarrow> u8" where "green color = ucast (drop_bit 8 color AND 0xFF)"
definition blue :: "u32 \<Rightarrow> u8" where "blue color = ucast (color AND 0xFF)"

definition fb_fill_cell :: "u32 \<Rightarrow> u32 \<Rightarrow> u32 \<Rightarrow> fb \<Rightarrow> fb" where
  "fb_fill_cell col row color st =
    (let r = red color; g = green color; b = blue color;
         px = col * glyph_w st; py = row * glyph_h st
     in for_n (unat (glyph_h st)) (\<lambda>sy. for_n (unat (glyph_w st)) (\<lambda>sx.
          fb_draw_pixel (px + of_nat sx) (py + of_nat sy) r g b)) st)"

definition fb_draw_cursor :: "fb \<Rightarrow> fb" where
  "fb_draw_cursor st =
    (if cur_col st < fb_cols st \<and> cur_row st < fb_rows st
     then fb_fill_cell (cur_col st) (cur_row st) (theme_fg st) st else st)"

definition fb_erase_cursor :: "fb \<Rightarrow> fb" where
  "fb_erase_cursor st =
    (if cur_col st < fb_cols st \<and> cur_row st < fb_rows st
     then fb_fill_cell (cur_col st) (cur_row st) (theme_bg st) st else st)"

text \<open>An assignment \<open>screen_buf[r][c] = v\<close> within the array.\<close>

definition set_cell :: "nat \<Rightarrow> nat \<Rightarrow> u8 \<Rightarrow> fb \<Rightarrow> fb" where
  "set_cell r c v st = st\<lparr>screen_buf := (screen_buf st)(r := (screen_buf st r)(c := v))\<rparr>"

section \<open>Characters\<close>

definition fb_draw_char :: "u32 \<Rightarrow> u32 \<Rightarrow> u8 \<Rightarrow> u32 \<Rightarrow> u32 \<Rightarrow> fb \<Rightarrow> fb result" where
  "fb_draw_char col row c fg bg st =
    (let px = col * glyph_w st; py = row * glyph_h st; gw = glyph_w st; gh = glyph_h st
     in bind_r (for_r (unat gh) (\<lambda>dy st.
          bind_r (fetch font_glyphs (unat c * 16 + unat (of_nat dy * 16 div gh))) (\<lambda>bits.
            Inr (for_n (unat gw) (\<lambda>dx.
              let src_x = of_nat dx * 8 div gw;
                  lit_px = bits AND drop_bit (unat src_x) 0x80 \<noteq> 0
              in fb_draw_pixel (px + of_nat dx) (py + of_nat dy)
                   (if lit_px then red fg else red bg) (if lit_px then green fg else green bg)
                   (if lit_px then blue fg else blue bg)) st))) st) (\<lambda>st.
        Inr (if col < SCREEN_MAX_COLS \<and> row < SCREEN_MAX_ROWS
             then set_cell (unat row) (unat col) c st else st)))"

section \<open>Scrolling\<close>

definition buf_rows :: "fb \<Rightarrow> u32" where
  "buf_rows st = (if fb_rows st < SCREEN_MAX_ROWS then fb_rows st else SCREEN_MAX_ROWS)"

definition buf_cols :: "fb \<Rightarrow> u32" where
  "buf_cols st = (if fb_cols st < SCREEN_MAX_COLS then fb_cols st else SCREEN_MAX_COLS)"

text \<open>
  The two loops over \<open>screen_buf\<close>. With no rows at all \<open>buf_rows - 1\<close> wraps, and any access is
  outside the array.
\<close>

definition scroll_text :: "fb \<Rightarrow> fb result" where
  "scroll_text st =
    (let last = buf_rows st - 1 in
     bind_r (for_r (unat last) (\<lambda>r. for_r (unat (buf_cols st)) (\<lambda>c st.
         if r + 1 < 64 then Inr (set_cell r c (screen_buf st (r + 1) c) st) else Inl Out_of_bounds)) st) (\<lambda>st.
     for_r (unat (buf_cols st)) (\<lambda>c st.
         if last < 64 then Inr (set_cell (unat last) c 0 st) else Inl Out_of_bounds) st))"

definition fb_scroll :: "fb \<Rightarrow> fb result" where
  "fb_scroll st =
    (let row_bytes = glyph_h st * fb_pitch st;
         dst = fb_addr st;
         src = fb_addr st + ucast row_bytes;
         count = ucast (fb_rows st - 1) * ucast row_bytes div 8 :: u64;
         (dst, m) = rep_movsq (unat count) dst src (vram st);
         count = ucast (row_bytes div 8) :: u64;
         m = rep_stosq (unat count) dst 0 m
     in bind_r (scroll_text (st\<lparr>vram := m\<rparr>)) (\<lambda>st. Inr (st\<lparr>cur_row := fb_rows st - 1\<rparr>)))"

section \<open>Reading back what was written\<close>

lemma join_bytes:
  "ucast (ucast v :: u8) OR push_bit 8 (ucast (ucast (drop_bit 8 v) :: u8))
     OR push_bit 16 (ucast (ucast (drop_bit 16 v) :: u8))
     OR push_bit 24 (ucast (ucast (drop_bit 24 v) :: u8)) = (v :: u32)"
    (is "?bytes = v")
proof (rule bit_word_eqI)
  fix n assume "n < LENGTH(32)"
  then show "bit ?bytes n = bit v n"
    by (cases "n < 8"; cases "n < 16"; cases "n < 24") (auto simp: bit_simps)
qed

lemma ld32_put32 [simp]: "ld32 (put32 a v m) a = v"
proof -
  have "a + 1 \<noteq> a" "a + 2 \<noteq> a" "a + 3 \<noteq> a" "a + 2 \<noteq> a + 1" "a + 3 \<noteq> a + 1" "a + 3 \<noteq> a + 2"
    by simp_all
  then show ?thesis by (simp add: ld32_def put32_def join_bytes)
qed

text \<open>Bytes at offsets from a base: offsets below \<open>2^64\<close> are different addresses.\<close>

lemma offset_eq:
  assumes "i < 18446744073709551616" and "j < 18446744073709551616"
  shows "b + of_nat i = b + (of_nat j :: u64) \<longleftrightarrow> i = j"
proof
  assume "b + of_nat i = b + (of_nat j :: u64)"
  then have "unat (of_nat i :: u64) = unat (of_nat j :: u64)" by simp
  then show "i = j" using assms by (simp only: unat_of_nat_u64)
qed simp

text \<open>\<open>view m b k\<close> is the byte at offset \<open>k\<close>; the two writes in this view.\<close>

definition view :: "memory \<Rightarrow> u64 \<Rightarrow> nat \<Rightarrow> u8" where
  "view m b k = m (b + of_nat k)"

definition byte_of :: "u32 \<Rightarrow> nat \<Rightarrow> u8" where
  "byte_of v i = ucast (drop_bit (8 * i) v)"

lemma ld32_view:
  "ld32 m (b + of_nat k) = ucast (view m b k) OR push_bit 8 (ucast (view m b (k + 1)))
     OR push_bit 16 (ucast (view m b (k + 2))) OR push_bit 24 (ucast (view m b (k + 3)))"
  by (simp add: ld32_def view_def ac_simps)

lemma view_put32:
  assumes "j < 18446744073709551616" and "k + 4 \<le> 18446744073709551616"
  shows "view (put32 (b + of_nat k) v m) b j = (if k \<le> j \<and> j < k + 4 then byte_of v (j - k) else view m b j)"
proof -
  have "b + of_nat k + 1 = b + of_nat (k + 1)" "b + of_nat k + 2 = b + of_nat (k + 2)"
    "b + of_nat k + 3 = b + of_nat (k + 3)" by simp_all
  moreover have "b + of_nat j = b + of_nat (k + i) \<longleftrightarrow> j = k + i" if "i < 4" for i
    using assms that by (intro offset_eq) simp_all
  note this [of 0] this [of 1] this [of 2] this [of 3]
  moreover have "j - k = 0 \<or> j - k = 1 \<or> j - k = 2 \<or> j - k = 3" if "k \<le> j" "j < k + 4"
    using that by arith
  ultimately show ?thesis
    unfolding view_def put32_def byte_of_def by auto
qed

lemma put32_elsewhere:
  assumes "a \<noteq> b" "a \<noteq> b + 1" "a \<noteq> b + 2" "a \<noteq> b + 3"
  shows "put32 b v m a = m a"
  using assms by (simp add: put32_def)

lemma ld32_put32_apart:
  assumes "k + 4 \<le> j \<or> j + 4 \<le> k" and "j + 4 \<le> 18446744073709551616" and "k + 4 \<le> 18446744073709551616"
  shows "ld32 (put32 (b + of_nat k) v m) (b + of_nat j) = ld32 m (b + of_nat j)"
  using assms by (auto simp: ld32_view view_put32)

end
