(* ===== verification/Picture.thy ===== *)
theory Picture
  imports Framebuffer
begin

text \<open>
  The picture on the screen: the colour of every pixel of a well-formed 32-bit framebuffer, the
  effect of the drawing operations of \<open>Framebuffer\<close> on it, and the proof that none of them
  writes outside the framebuffer. \<open>paint\<close> is the contract all of them are shown to meet, and it
  composes over the drawing loops.
\<close>

section \<open>Well-formed framebuffers\<close>

text \<open>
  32 bits a pixel, rows of whole pixels that fit the pitch, an image below 4 GiB inside the
  address space, and the text geometry that \<open>fb_init\<close> derives, with at least one cell.
\<close>

definition fb_wf :: "fb \<Rightarrow> bool" where
  "fb_wf st \<longleftrightarrow> fb_bpp st = 32 \<and> unat (fb_pitch st) mod 4 = 0
    \<and> 4 * unat (fb_width st) \<le> unat (fb_pitch st)
    \<and> unat (fb_height st) * unat (fb_pitch st) < 4294967296
    \<and> unat (glyph_w st) \<ge> 8 \<and> unat (glyph_h st) = 2 * unat (glyph_w st)
    \<and> unat (fb_cols st) = unat (fb_width st) div unat (glyph_w st)
    \<and> unat (fb_rows st) = unat (fb_height st) div unat (glyph_h st)
    \<and> 0 < fb_cols st \<and> fb_cols st \<le> 128 \<and> 0 < fb_rows st"

definition region :: "fb \<Rightarrow> u64 set" where
  "region st = {fb_addr st + of_nat k | k. k < unat (fb_height st) * unat (fb_pitch st)}"

definition off :: "fb \<Rightarrow> nat \<Rightarrow> nat \<Rightarrow> nat" where
  "off st x y = y * unat (fb_pitch st) + 4 * x"

definition pic :: "fb \<Rightarrow> nat \<Rightarrow> nat \<Rightarrow> u32" where
  "pic st x y = ld32 (vram st) (fb_addr st + of_nat (off st x y))"

definition on_screen :: "fb \<Rightarrow> (nat \<times> nat) set" where
  "on_screen st = {(x, y). x < unat (fb_width st) \<and> y < unat (fb_height st)}"

lemma shape_vram [simp]:
  "fb_wf (st\<lparr>vram := m\<rparr>) = fb_wf st" "region (st\<lparr>vram := m\<rparr>) = region st"
  "off (st\<lparr>vram := m\<rparr>) = off st" "on_screen (st\<lparr>vram := m\<rparr>) = on_screen st"
  by (simp_all add: fb_wf_def region_def off_def on_screen_def fun_eq_iff)

lemma shape_set_cell [simp]:
  "fb_wf (set_cell r c v st) = fb_wf st" "region (set_cell r c v st) = region st"
  "off (set_cell r c v st) = off st" "on_screen (set_cell r c v st) = on_screen st"
  "pic (set_cell r c v st) = pic st"
  by (simp_all add: set_cell_def fb_wf_def region_def off_def on_screen_def pic_def fun_eq_iff)

lemma off_bound:
  assumes "fb_wf st" and "(x, y) \<in> on_screen st"
  shows "off st x y + 4 \<le> unat (fb_height st) * unat (fb_pitch st)"
proof -
  have "4 * x + 4 \<le> 4 * unat (fb_width st)" using assms(2) by (simp add: on_screen_def)
  then have "off st x y + 4 \<le> (y + 1) * unat (fb_pitch st)"
    using assms(1) by (simp add: off_def fb_wf_def)
  also have "\<dots> \<le> unat (fb_height st) * unat (fb_pitch st)"
    using assms(2) by (intro mult_le_mono1) (simp add: on_screen_def)
  finally show ?thesis .
qed

lemma off_apart:
  assumes "fb_wf st" and "(x, y) \<in> on_screen st" and "(x', y') \<in> on_screen st" and "(x, y) \<noteq> (x', y')"
  shows "off st x y + 4 \<le> off st x' y' \<or> off st x' y' + 4 \<le> off st x y"
proof -
  let ?P = "unat (fb_pitch st)"
  have w: "4 * x + 4 \<le> ?P" "4 * x' + 4 \<le> ?P"
    using assms(1-3) by (auto simp: fb_wf_def on_screen_def)
  consider "y < y'" | "y' < y" | "y = y'" "x \<noteq> x'" using assms(4) by force
  then show ?thesis
  proof cases
    case 1
    then have "(y + 1) * ?P \<le> y' * ?P" by (intro mult_le_mono1) simp
    with w show ?thesis by (simp add: off_def)
  next
    case 2
    then have "(y' + 1) * ?P \<le> y * ?P" by (intro mult_le_mono1) simp
    with w show ?thesis by (simp add: off_def)
  qed (auto simp: off_def)
qed

section \<open>The painting contract\<close>

text \<open>
  \<open>paint c S st st'\<close>: nothing but the framebuffer memory changed, no byte outside the framebuffer
  changed, every pixel of \<open>S\<close> has its colour \<open>c\<close> now and every other pixel is as before.
\<close>

definition paint :: "(nat \<Rightarrow> nat \<Rightarrow> u32) \<Rightarrow> (nat \<times> nat) set \<Rightarrow> fb \<Rightarrow> fb \<Rightarrow> bool" where
  "paint c S st st' \<longleftrightarrow> st' = st\<lparr>vram := vram st'\<rparr>
    \<and> (\<forall>a. a \<notin> region st \<longrightarrow> vram st' a = vram st a)
    \<and> (\<forall>x y. (x, y) \<in> on_screen st \<longrightarrow> pic st' x y = (if (x, y) \<in> S then c x y else pic st x y))"

lemma paint_refl: "paint c {} st st"
  by (simp add: paint_def)

lemma paint_shape:
  assumes "paint c S st st'"
  shows "st' = st\<lparr>vram := vram st'\<rparr>" "fb_wf st' = fb_wf st" "region st' = region st"
    "on_screen st' = on_screen st"
proof -
  show eq: "st' = st\<lparr>vram := vram st'\<rparr>" using assms unfolding paint_def by blast
  show "fb_wf st' = fb_wf st" "region st' = region st" "on_screen st' = on_screen st"
    by (subst eq, simp)+
qed

lemma paint_trans:
  assumes "paint c S st st1" and "paint c T st1 st2"
  shows "paint c (S \<union> T) st st2"
proof -
  have "st2 = st\<lparr>vram := vram st2\<rparr>"
    using paint_shape(1) [OF assms(1)] paint_shape(1) [OF assms(2)]
    by (metis fb.select_convs(16) fb.surjective fb.update_convs(16))
  with assms paint_shape(3,4) [OF assms(1)] show ?thesis
    unfolding paint_def by simp
qed

lemma paint_loop:
  assumes "\<And>i t. i < n \<Longrightarrow> t = st\<lparr>vram := vram t\<rparr> \<Longrightarrow> paint c (S i) t (f i t)"
  shows "paint c (\<Union>i<n. S i) st (for_n n f st)"
  using assms
proof (induction n)
  case 0
  then show ?case by (simp add: paint_refl)
next
  case (Suc n)
  then have prev: "paint c (\<Union>i<n. S i) st (for_n n f st)" by simp
  have "paint c (S n) (for_n n f st) (f n (for_n n f st))"
    using paint_shape(1) [OF prev] by (intro Suc.prems) simp_all
  from paint_trans [OF prev this] show ?case by (simp add: lessThan_Suc Un_commute)
qed

lemma paint_cong:
  assumes "paint c S st st'" and "S = T" and "\<And>x y. (x, y) \<in> T \<Longrightarrow> c x y = d x y"
  shows "paint d T st st'"
  using assms unfolding paint_def by auto

section \<open>Pixels\<close>

definition rgb :: "u8 \<Rightarrow> u8 \<Rightarrow> u8 \<Rightarrow> u32" where
  "rgb r g b = push_bit 16 (ucast r) OR push_bit 8 (ucast g) OR ucast b"

lemma unat_fb_mult:
  assumes "fb_wf st" and "y < unat (fb_height st)"
  shows "unat (of_nat y * fb_pitch st) = y * unat (fb_pitch st)"
proof -
  have "y * unat (fb_pitch st) \<le> unat (fb_height st) * unat (fb_pitch st)"
    using assms(2) by (intro mult_le_mono1) simp
  also have "\<dots> < 4294967296" using assms(1) by (simp add: fb_wf_def)
  finally have small: "y * unat (fb_pitch st) < 4294967296" .
  have "y < 4294967296" using assms(2) unat_less_32 [of "fb_height st"] by linarith
  with small show ?thesis using unat_mult_u32 [of "of_nat y" "fb_pitch st"] by simp
qed

lemma put_pixel_paints:
  assumes "fb_wf st" and "(x, y) \<in> on_screen st" and "c x y = v"
    and "a = fb_addr st + of_nat (off st x y)"
  shows "paint c {(x, y)} st (st\<lparr>vram := put32 a v (vram st)\<rparr>)"
proof -
  let ?size = "unat (fb_height st) * unat (fb_pitch st)"
  have size: "?size < 4294967296" using assms(1) by (simp add: fb_wf_def)
  note bound = off_bound [OF assms(1,2)]
  have inside: "a + of_nat i \<in> region st" if "i < 4" for i
    using that bound unfolding assms(4) region_def by (auto intro!: exI [of _ "off st x y + i"])
  have "put32 a v (vram st) b = vram st b" if "b \<notin> region st" for b
    using that inside [of 0] inside [of 1] inside [of 2] inside [of 3] by (intro put32_elsewhere) auto
  moreover have "ld32 (put32 a v (vram st)) (fb_addr st + of_nat (off st x' y'))
      = (if (x', y') \<in> {(x, y)} then c x' y' else pic st x' y')" if "(x', y') \<in> on_screen st" for x' y'
  proof (cases "(x', y') = (x, y)")
    case True
    then show ?thesis using assms(3,4) by simp
  next
    case False
    have "ld32 (put32 (fb_addr st + of_nat (off st x y)) v (vram st)) (fb_addr st + of_nat (off st x' y'))
        = ld32 (vram st) (fb_addr st + of_nat (off st x' y'))"
      using off_apart [OF assms(1,2) that] False bound off_bound [OF assms(1) that] size
      by (intro ld32_put32_apart) auto
    with False show ?thesis by (auto simp: assms(4) pic_def)
  qed
  ultimately show ?thesis by (simp add: paint_def pic_def)
qed

lemma draw_pixel_paints:
  assumes "fb_wf st" and "(unat x, unat y) \<in> on_screen st" and "c (unat x) (unat y) = rgb r g b"
  shows "paint c {(unat x, unat y)} st (fb_draw_pixel x y r g b st)"
proof -
  have y: "unat (y * fb_pitch st) = unat y * unat (fb_pitch st)"
    using unat_fb_mult [OF assms(1), of "unat y"] assms(2) by (simp add: on_screen_def)
  have bpp: "fb_bpp st = 32" using assms(1) by (simp add: fb_wf_def)
  have "unat x * 4 < 4294967296"
    using off_bound [OF assms(1,2)] assms(1) by (simp add: off_def fb_wf_def)
  then have x: "unat (x * 4) = 4 * unat x" using unat_mult_u32 [of x 4] by simp
  have "fb_addr st + ucast (y * fb_pitch st) + ucast (x * ucast (fb_bpp st div 8))
      = fb_addr st + of_nat (unat (y * fb_pitch st)) + of_nat (unat (x * 4))"
    by (simp add: bpp)
  also have "\<dots> = fb_addr st + of_nat (off st (unat x) (unat y))"
    by (simp only: x y off_def of_nat_add add.assoc)
  finally have addr: "fb_addr st + ucast (y * fb_pitch st) + ucast (x * ucast (fb_bpp st div 8))
      = fb_addr st + of_nat (off st (unat x) (unat y))" .
  show ?thesis
    unfolding fb_draw_pixel_def Let_def rgb_def [symmetric]
    by (rule put_pixel_paints [where c = c and v = "rgb r g b", OF assms addr])
qed

section \<open>Clearing\<close>

lemma clear_row_paints:
  assumes "fb_wf st" and "y < unat (fb_height st)"
  shows "paint (\<lambda>_ _. color) (\<Union>x<unat (fb_width st). {(x, y)}) st
    (for_n (unat (fb_width st))
      (\<lambda>x t. t\<lparr>vram := put32 (fb_addr st + ucast (of_nat y * fb_pitch st) + of_nat x * 4) color (vram t)\<rparr>) st)"
proof (rule paint_loop)
  fix x t assume x: "x < unat (fb_width st)" and t: "t = st\<lparr>vram := vram t\<rparr>"
  have wf: "fb_wf t" "off t = off st" "fb_pitch t = fb_pitch st" "fb_height t = fb_height st"
    using assms(1) by (subst t, simp)+
  have on: "(x, y) \<in> on_screen t" using x assms(2) by (subst t) (simp add: on_screen_def)
  have "fb_addr t + ucast (of_nat y * fb_pitch t) + of_nat x * 4
      = fb_addr t + of_nat (unat (of_nat y * fb_pitch t)) + of_nat (4 * x)" by simp
  also have "\<dots> = fb_addr t + of_nat (off t x y)"
    using unat_fb_mult [OF wf(1), of y] assms(2) wf(4) by (simp only: off_def of_nat_add add.assoc)
  finally have addr: "fb_addr t + ucast (of_nat y * fb_pitch t) + of_nat x * 4
      = fb_addr t + of_nat (off t x y)" .
  have "fb_addr t = fb_addr st" by (subst t) simp
  with wf(3) addr have "fb_addr st + ucast (of_nat y * fb_pitch st) + of_nat x * 4
      = fb_addr t + of_nat (off t x y)" by simp
  then show "paint (\<lambda>_ _. color) {(x, y)} t
      (t\<lparr>vram := put32 (fb_addr st + ucast (of_nat y * fb_pitch st) + of_nat x * 4) color (vram t)\<rparr>)"
    by (rule put_pixel_paints [where c = "\<lambda>_ _. color", OF wf(1) on refl])
qed

lemma clear_paints:
  assumes "fb_wf st"
  shows "paint (\<lambda>_ _. color) (on_screen st) st (fb_clear color st)"
proof -
  let ?row = "\<lambda>y st. for_n (unat (fb_width st))
    (\<lambda>x t. t\<lparr>vram := put32 (fb_addr st + ucast (of_nat y * fb_pitch st) + of_nat x * 4) color (vram t)\<rparr>) st"
  have "paint (\<lambda>_ _. color) (\<Union>y<unat (fb_height st). \<Union>x<unat (fb_width st). {(x, y)}) st
      (for_n (unat (fb_height st)) ?row st)"
  proof (rule paint_loop)
    fix y t assume y: "y < unat (fb_height st)" and t: "t = st\<lparr>vram := vram t\<rparr>"
    have eqs: "fb_height t = fb_height st" "fb_width t = fb_width st" "fb_addr t = fb_addr st"
      "fb_pitch t = fb_pitch st" by (subst t, simp)+
    have "fb_wf t" using assms by (subst t) simp
    from clear_row_paints [OF this, of y color] y
    show "paint (\<lambda>_ _. color) (\<Union>x<unat (fb_width st). {(x, y)}) t (?row y t)"
      by (simp only: eqs)
  qed
  moreover have "(\<Union>y<unat (fb_height st). \<Union>x<unat (fb_width st). {(x, y)}) = on_screen st"
    by (auto simp: on_screen_def)
  ultimately show ?thesis by (simp add: fb_clear_def Let_def)
qed

section \<open>Cells\<close>

definition cell :: "fb \<Rightarrow> nat \<Rightarrow> nat \<Rightarrow> (nat \<times> nat) set" where
  "cell st c r = {(x, y). c * unat (glyph_w st) \<le> x \<and> x < (c + 1) * unat (glyph_w st)
    \<and> r * unat (glyph_h st) \<le> y \<and> y < (r + 1) * unat (glyph_h st)}"

lemma cell_shape [simp]: "cell (st\<lparr>vram := m\<rparr>) = cell st" "cell (set_cell r c v st) = cell st"
  by (simp_all add: cell_def set_cell_def fun_eq_iff)

text \<open>The cells tile the screen: they are inside it and do not overlap.\<close>

lemma cell_on_screen:
  assumes "fb_wf st" and "c < unat (fb_cols st)" and "r < unat (fb_rows st)"
  shows "cell st c r \<subseteq> on_screen st"
proof -
  have "(c + 1) * unat (glyph_w st) \<le> unat (fb_cols st) * unat (glyph_w st)"
    using assms(2) by (intro mult_le_mono1) simp
  also have "\<dots> \<le> unat (fb_width st)" using assms(1) by (simp add: fb_wf_def)
  finally have w: "(c + 1) * unat (glyph_w st) \<le> unat (fb_width st)" .
  have "(r + 1) * unat (glyph_h st) \<le> unat (fb_rows st) * unat (glyph_h st)"
    using assms(3) by (intro mult_le_mono1) simp
  also have "\<dots> \<le> unat (fb_height st)" using assms(1) unfolding fb_wf_def by simp
  finally show ?thesis using w by (auto simp: cell_def on_screen_def)
qed

lemma cell_member:
  assumes "fb_wf st"
  shows "(x, y) \<in> cell st c r \<longleftrightarrow> x div unat (glyph_w st) = c \<and> y div unat (glyph_h st) = r"
proof -
  have gt: "0 < unat (glyph_w st)" "0 < unat (glyph_h st)" using assms by (auto simp: fb_wf_def)
  have "n div g = k \<longleftrightarrow> k * g \<le> n \<and> n < (k + 1) * g" if "0 < g" for n g k :: nat
  proof
    assume "n div g = k"
    then show "k * g \<le> n \<and> n < (k + 1) * g" using dividend_less_div_times [OF that, of n] by auto
  next
    assume "k * g \<le> n \<and> n < (k + 1) * g"
    then show "n div g = k" using that by (intro div_nat_eqI) (simp_all add: mult.commute)
  qed
  with gt show ?thesis unfolding cell_def by simp
qed

lemma cells_disjoint:
  assumes "fb_wf st" and "(c, r) \<noteq> (c', r')"
  shows "cell st c r \<inter> cell st c' r' = {}"
  using assms(2) cell_member [OF assms(1)] by auto

text \<open>The rectangle the two nested loops of a cell visit.\<close>

lemma cell_loops:
  "(\<Union>sy<unat (glyph_h st). \<Union>sx<unat (glyph_w st). {(c * unat (glyph_w st) + sx, r * unat (glyph_h st) + sy)})
    = cell st c r" (is "?loops = _")
proof
  show "cell st c r \<subseteq> ?loops"
  proof
    fix p assume "p \<in> cell st c r"
    then obtain x y where p: "p = (x, y)" and x: "c * unat (glyph_w st) \<le> x" "x < (c + 1) * unat (glyph_w st)"
      and y: "r * unat (glyph_h st) \<le> y" "y < (r + 1) * unat (glyph_h st)" by (auto simp: cell_def)
    then have "p = (c * unat (glyph_w st) + (x - c * unat (glyph_w st)),
        r * unat (glyph_h st) + (y - r * unat (glyph_h st)))"
      "x - c * unat (glyph_w st) < unat (glyph_w st)" "y - r * unat (glyph_h st) < unat (glyph_h st)" by auto
    then show "p \<in> ?loops" by blast
  qed
qed (auto simp: cell_def)

definition shown :: "u32 \<Rightarrow> u32" where "shown color = color AND 0xFFFFFF"

lemma rgb_shown: "rgb (red color) (green color) (blue color) = shown color"
proof (rule bit_word_eqI)
  have m: "(0xFFFFFF :: u32) = mask 24" "(0xFF :: u32) = mask 8" by (simp_all add: mask_eq_exp_minus_1)
  fix n assume "n < LENGTH(32)"
  then show "bit (rgb (red color) (green color) (blue color)) n = bit (shown color) n"
    unfolding rgb_def red_def green_def blue_def shown_def m
    by (cases "n < 8"; cases "n < 16"; cases "n < 24") (auto simp: bit_simps)
qed

lemma cell_pixel:
  assumes "fb_wf st" and "unat col < unat (fb_cols st)" and "unat row < unat (fb_rows st)"
    and "sx < unat (glyph_w st)" and "sy < unat (glyph_h st)"
  shows "unat (col * glyph_w st + of_nat sx) = unat col * unat (glyph_w st) + sx"
    and "unat (row * glyph_h st + of_nat sy) = unat row * unat (glyph_h st) + sy"
    and "(unat col * unat (glyph_w st) + sx, unat row * unat (glyph_h st) + sy) \<in> on_screen st"
proof -
  have "(unat col * unat (glyph_w st) + sx, unat row * unat (glyph_h st) + sy) \<in> cell st (unat col) (unat row)"
    using assms(4,5) by (simp add: cell_def)
  then show on: "(unat col * unat (glyph_w st) + sx, unat row * unat (glyph_h st) + sy) \<in> on_screen st"
    using cell_on_screen [OF assms(1-3)] by blast
  then have lt: "unat col * unat (glyph_w st) + sx < 4294967296"
    "unat row * unat (glyph_h st) + sy < 4294967296"
    using unat_less_32 [of "fb_width st"] unat_less_32 [of "fb_height st"] by (auto simp: on_screen_def)
  then show "unat (col * glyph_w st + of_nat sx) = unat col * unat (glyph_w st) + sx"
    "unat (row * glyph_h st + of_nat sy) = unat row * unat (glyph_h st) + sy"
    using unat_mult_u32 [of col "glyph_w st"] unat_add_u32 [of "col * glyph_w st" "of_nat sx"]
      unat_mult_u32 [of row "glyph_h st"] unat_add_u32 [of "row * glyph_h st" "of_nat sy"] by simp_all
qed

lemma cell_paints:
  assumes "fb_wf st" and "unat col < unat (fb_cols st)" and "unat row < unat (fb_rows st)"
    and "\<And>sx sy. sx < unat (glyph_w st) \<Longrightarrow> sy < unat (glyph_h st) \<Longrightarrow>
      c (unat col * unat (glyph_w st) + sx) (unat row * unat (glyph_h st) + sy) = rgb (R sy sx) (G sy sx) (B sy sx)"
  shows "paint c (cell st (unat col) (unat row)) st
    (for_n (unat (glyph_h st)) (\<lambda>sy. for_n (unat (glyph_w st)) (\<lambda>sx.
      fb_draw_pixel (col * glyph_w st + of_nat sx) (row * glyph_h st + of_nat sy) (R sy sx) (G sy sx) (B sy sx))) st)"
  unfolding cell_loops [symmetric]
proof (rule paint_loop)
  fix sy t assume sy: "sy < unat (glyph_h st)" and t: "t = st\<lparr>vram := vram t\<rparr>"
  show "paint c (\<Union>sx<unat (glyph_w st). {(unat col * unat (glyph_w st) + sx, unat row * unat (glyph_h st) + sy)}) t
    (for_n (unat (glyph_w st)) (\<lambda>sx. fb_draw_pixel (col * glyph_w st + of_nat sx) (row * glyph_h st + of_nat sy)
      (R sy sx) (G sy sx) (B sy sx)) t)"
  proof (rule paint_loop)
    fix sx u assume sx: "sx < unat (glyph_w st)" and u: "u = t\<lparr>vram := vram u\<rparr>"
    have "u = st\<lparr>vram := vram u\<rparr>" by (subst u, subst t) simp
    then have "fb_wf u" "on_screen u = on_screen st" using assms(1) by (metis shape_vram(1)) (metis shape_vram(4) \<open>u = st\<lparr>vram := vram u\<rparr>\<close>)
    with draw_pixel_paints [of u "col * glyph_w st + of_nat sx" "row * glyph_h st + of_nat sy" c]
    show "paint c {(unat col * unat (glyph_w st) + sx, unat row * unat (glyph_h st) + sy)} u
      (fb_draw_pixel (col * glyph_w st + of_nat sx) (row * glyph_h st + of_nat sy) (R sy sx) (G sy sx) (B sy sx) u)"
      using cell_pixel [OF assms(1-3) sx sy] assms(4) [OF sx sy] by simp
  qed
qed

lemma fill_cell_paints:
  assumes "fb_wf st" and "unat col < unat (fb_cols st)" and "unat row < unat (fb_rows st)"
  shows "paint (\<lambda>_ _. shown color) (cell st (unat col) (unat row)) st (fb_fill_cell col row color st)"
  using cell_paints [OF assms, of "\<lambda>_ _. shown color" "\<lambda>_ _. red color" "\<lambda>_ _. green color" "\<lambda>_ _. blue color"]
  by (simp add: fb_fill_cell_def Let_def rgb_shown)

section \<open>Glyphs\<close>

text \<open>
  The colour of a pixel in a cell that shows character \<open>ch\<close>: the 8 by 16 glyph scaled to the cell,
  bit 7 leftmost.
\<close>

definition glyph_color :: "fb \<Rightarrow> u8 \<Rightarrow> u32 \<Rightarrow> u32 \<Rightarrow> nat \<Rightarrow> nat \<Rightarrow> u32" where
  "glyph_color st ch fg bg x y =
    (let dx = x mod unat (glyph_w st); dy = y mod unat (glyph_h st)
     in if bit (font_glyphs ! (unat ch * 16 + dy * 16 div unat (glyph_h st))) (7 - dx * 8 div unat (glyph_w st))
        then shown fg else shown bg)"

lemma glyph_color_shape [simp]:
  "glyph_color (st\<lparr>vram := m\<rparr>) = glyph_color st" "glyph_color (set_cell r c v st) = glyph_color st"
  by (simp_all add: glyph_color_def set_cell_def fun_eq_iff)

lemma glyph_bit:
  assumes "k < 8"
  shows "(bits AND drop_bit k (0x80 :: u8) \<noteq> 0) = bit bits (7 - k)"
proof -
  have "k = 0 \<or> k = 1 \<or> k = 2 \<or> k = 3 \<or> k = 4 \<or> k = 5 \<or> k = 6 \<or> k = 7" using assms by arith
  then have "drop_bit k (0x80 :: u8) = 2 ^ (7 - k)" by (elim disjE) simp_all
  then show ?thesis by (simp only: and_exp_eq_0_iff_not_bit not_not)
qed

lemma word_div_small:
  assumes "n * k < 4294967296" and "n < 4294967296" and "k < 4294967296"
  shows "unat (of_nat n * of_nat k div (g :: u32)) = n * k div unat g"
  using assms unat_mult_u32 [of "of_nat n" "of_nat k"] by (simp add: unat_div)

lemma scaled_below:
  assumes "d < (g :: nat)"
  shows "d * k div g < k \<or> k = 0"
proof (cases "k = 0")
  case False
  with assms have "d * k < k * g" by (simp add: mult.commute)
  then show ?thesis by (simp add: less_mult_imp_div_less)
qed simp

lemma cell_size_bound:
  assumes "fb_wf st"
  shows "unat (glyph_h st) * 16 < 4294967296" "unat (glyph_w st) * 8 < 4294967296"
proof -
  have "fb_rows st \<noteq> 0" using assms by (auto simp: fb_wf_def)
  then have "0 < unat (fb_rows st)" by (simp add: unat_gt_0)
  then have h: "unat (glyph_h st) \<le> unat (fb_height st)"
    using assms unfolding fb_wf_def by (metis div_less not_less less_irrefl)
  have w: "16 * unat (glyph_w st) \<le> unat (fb_pitch st) * 4"
  proof -
    have "fb_cols st \<noteq> 0" using assms by (auto simp: fb_wf_def)
    then have "0 < unat (fb_cols st)" by (simp add: unat_gt_0)
    then have "unat (glyph_w st) \<le> unat (fb_width st)"
      using assms unfolding fb_wf_def by (metis div_less not_less less_irrefl)
    then show ?thesis using assms unfolding fb_wf_def by linarith
  qed
  have "unat (glyph_h st) * (4 * unat (glyph_w st)) \<le> unat (fb_height st) * unat (fb_pitch st)"
    using h w by (intro mult_le_mono) simp_all
  moreover have "unat (glyph_h st) * 32 \<le> unat (glyph_h st) * (4 * unat (glyph_w st))"
    using assms by (intro mult_le_mono) (simp_all add: fb_wf_def)
  ultimately show "unat (glyph_h st) * 16 < 4294967296" "unat (glyph_w st) * 8 < 4294967296"
    using assms unfolding fb_wf_def by linarith+
qed

lemma draw_char_paints:
  assumes "fb_wf st" and "unat col < unat (fb_cols st)" and "unat row < unat (fb_rows st)"
  shows "\<exists>st1. paint (glyph_color st ch fg bg) (cell st (unat col) (unat row)) st st1
    \<and> fb_draw_char col row ch fg bg st = Inr (if unat row < 64 then set_cell (unat row) (unat col) ch st1 else st1)"
proof -
  define gw where "gw = unat (glyph_w st)"
  define gh where "gh = unat (glyph_h st)"
  note size = cell_size_bound [OF assms(1), folded gw_def gh_def]
  have gt: "0 < gw" "0 < gh" using assms(1) by (auto simp: gw_def gh_def fb_wf_def)
  define bits where "bits dy = font_glyphs ! (unat ch * 16 + dy * 16 div gh)" for dy
  define lit_px where "lit_px dy dx = bit (bits dy) (7 - dx * 8 div gw)" for dy dx
  let ?pick = "\<lambda>f dy dx. if lit_px dy dx then f fg else f bg"
  have row_index: "unat (of_nat dy * 16 div glyph_h st) = dy * 16 div gh" if "dy < gh" for dy
    using word_div_small [of dy 16 "glyph_h st"] that size by (simp add: gh_def)
  have col_index: "unat (of_nat dx * 8 div glyph_w st) = dx * 8 div gw" if "dx < gw" for dx
    using word_div_small [of dx 8 "glyph_w st"] that size by (simp add: gw_def)
  have fetched: "fetch font_glyphs (unat ch * 16 + unat (of_nat dy * 16 div glyph_h st)) = Inr (bits dy)"
    if "dy < gh" for dy
  proof -
    have "unat ch < 256" using unsigned_less [of ch, where 'a = nat] by simp
    then show ?thesis using scaled_below [OF that, of 16] row_index [OF that] by (simp add: bits_def)
  qed
  have lit: "(bits dy AND drop_bit (unat (of_nat dx * 8 div glyph_w st)) 0x80 \<noteq> 0) = lit_px dy dx"
    if "dx < gw" for dy dx
    using glyph_bit [of "dx * 8 div gw" "bits dy"] scaled_below [OF that, of 8] col_index [OF that]
    by (simp add: lit_px_def)
  let ?line = "\<lambda>dy. for_n gw (\<lambda>dx. fb_draw_pixel (col * glyph_w st + of_nat dx) (row * glyph_h st + of_nat dy)
      (?pick red dy dx) (?pick green dy dx) (?pick blue dy dx))"
  have "for_r gh (\<lambda>dy st'.
          bind_r (fetch font_glyphs (unat ch * 16 + unat (of_nat dy * 16 div glyph_h st))) (\<lambda>bits.
            Inr (for_n gw (\<lambda>dx.
              let src_x = of_nat dx * 8 div glyph_w st; lit_px = bits AND drop_bit (unat src_x) 0x80 \<noteq> 0
              in fb_draw_pixel (col * glyph_w st + of_nat dx) (row * glyph_h st + of_nat dy)
                   (if lit_px then red fg else red bg) (if lit_px then green fg else green bg)
                   (if lit_px then blue fg else blue bg)) st'))) st
      = Inr (for_n gh ?line st)"
    by (rule for_r_total) (simp add: fetched Let_def lit cong: for_n_cong)
  moreover have "paint (glyph_color st ch fg bg) (cell st (unat col) (unat row)) st (for_n gh ?line st)"
    unfolding gw_def gh_def
  proof (rule cell_paints [OF assms])
    fix sx sy assume "sx < unat (glyph_w st)" "sy < unat (glyph_h st)"
    then show "glyph_color st ch fg bg (unat col * unat (glyph_w st) + sx) (unat row * unat (glyph_h st) + sy)
        = rgb (?pick red sy sx) (?pick green sy sx) (?pick blue sy sx)"
      by (simp add: glyph_color_def Let_def lit_px_def bits_def gw_def gh_def rgb_shown)
  qed
  moreover have "unat col < 128" using assms(1,2) by (simp add: fb_wf_def word_le_nat_alt)
  ultimately show ?thesis
    by (intro exI [of _ "for_n gh ?line st"])
      (simp add: fb_draw_char_def Let_def gw_def gh_def SCREEN_MAX_COLS_def SCREEN_MAX_ROWS_def word_less_nat_alt)
qed

section \<open>The text geometry\<close>

text \<open>
  A mode the drawing code can serve: 32 bits a pixel, whole pixels to a row, less than 4 GiB, and
  room for at least one cell.
\<close>

definition mode_ok :: "mb2_fb_tag \<Rightarrow> bool" where
  "mode_ok tag \<longleftrightarrow> tag_bpp tag = 32 \<and> unat (tag_pitch tag) mod 4 = 0
    \<and> 4 * unat (tag_width tag) \<le> unat (tag_pitch tag)
    \<and> unat (tag_height tag) * unat (tag_pitch tag) < 4294967296
    \<and> 8 \<le> unat (tag_width tag) \<and> 16 \<le> unat (tag_height tag)
    \<and> unat (tag_width tag) \<le> 48 * unat (tag_height tag)"

lemma fb_setup_cell:
  shows "unat (glyph_w (fb_setup tag st)) = max 8 (unat (tag_width tag) div 96)"
    and "unat (glyph_h (fb_setup tag st)) = 2 * max 8 (unat (tag_width tag) div 96)"
proof -
  let ?w = "tag_width tag div 96"
  have w: "unat ?w = unat (tag_width tag) div 96" by (simp add: unat_div)
  let ?gw = "if ?w < 8 then 8 else ?w"
  have gw: "unat ?gw = max 8 (unat (tag_width tag) div 96)"
    using w by (auto simp: word_less_nat_alt max_def)
  then show "unat (glyph_w (fb_setup tag st)) = max 8 (unat (tag_width tag) div 96)"
    by (simp add: fb_setup_def Let_def)
  have "unat ?gw * unat (2 :: u32) < 4294967296"
    using gw unat_less_32 [of "tag_width tag"] by (simp add: max_def div_less_iff_less_mult)
  from unat_mult_u32 [OF this] gw show "unat (glyph_h (fb_setup tag st)) = 2 * max 8 (unat (tag_width tag) div 96)"
    by (simp add: fb_setup_def Let_def)
qed

lemma fb_setup_grid:
  shows "unat (fb_cols (fb_setup tag st)) = unat (tag_width tag) div unat (glyph_w (fb_setup tag st))"
    and "unat (fb_rows (fb_setup tag st)) = unat (tag_height tag) div unat (glyph_h (fb_setup tag st))"
  by (simp_all add: fb_setup_def Let_def unat_div)

lemma columns_bound: "w div max 8 (w div 96) \<le> (107 :: nat)"
proof (cases "w div 96 < 8")
  case True
  then have "w < 768" by simp
  with True show ?thesis by (simp add: max_def)
next
  case False
  have "w < 96 + w div 96 * 96" by (rule dividend_less_div_times) simp
  also have "\<dots> \<le> 108 * (w div 96)" using False by simp
  finally have "w div (w div 96) < 108" by (rule less_mult_imp_div_less)
  with False show ?thesis by (simp add: max_def)
qed

lemma fb_setup_wf:
  assumes "mode_ok tag"
  shows "fb_wf (fb_setup tag st)"
proof -
  let ?g = "max 8 (unat (tag_width tag) div 96)"
  have fields: "fb_bpp (fb_setup tag st) = tag_bpp tag" "fb_pitch (fb_setup tag st) = tag_pitch tag"
    "fb_width (fb_setup tag st) = tag_width tag" "fb_height (fb_setup tag st) = tag_height tag"
    by (simp_all add: fb_setup_def Let_def)
  have "0 < unat (tag_width tag) div ?g"
    using assms by (auto simp: mode_ok_def max_def div_greater_zero_iff)
  then have cols: "fb_cols (fb_setup tag st) \<noteq> 0" "fb_cols (fb_setup tag st) \<le> 128"
    using columns_bound [of "unat (tag_width tag)"] fb_setup_grid(1) [of tag st]
    by (auto simp: fb_setup_cell word_le_nat_alt)
  have "0 < unat (tag_height tag) div (2 * ?g)"
    using assms by (auto simp: mode_ok_def max_def div_greater_zero_iff)
  then have rows: "fb_rows (fb_setup tag st) \<noteq> 0"
    using fb_setup_grid(2) [of tag st] by (auto simp: fb_setup_cell)
  show ?thesis
    unfolding fb_wf_def fields fb_setup_grid
    using assms cols rows by (auto simp: mode_ok_def fb_setup_cell fb_setup_grid word_gt_0)
qed

text \<open>
  whatever mode the boot loader reports, \<open>fb_init\<close> picks cells of at least 8 by 16 pixels and
  a grid that lies inside the image and has at most 107 columns, fewer than the 128 that
  \<open>screen_buf\<close> holds; in a mode the drawing code can serve the framebuffer is well formed.
\<close>

theorem fb_setup_geometry:
  "let st' = fb_setup tag st in 8 \<le> unat (glyph_w st') \<and> unat (glyph_h st') = 2 * unat (glyph_w st')
    \<and> unat (fb_cols st') * unat (glyph_w st') \<le> unat (tag_width tag)
    \<and> unat (fb_rows st') * unat (glyph_h st') \<le> unat (tag_height tag)
    \<and> unat (fb_cols st') \<le> 107 \<and> (mode_ok tag \<longrightarrow> fb_wf st')"
  using fb_setup_wf [of tag st] columns_bound [of "unat (tag_width tag)"]
  by (simp add: Let_def fb_setup_cell fb_setup_grid)

definition sample_tag :: mb2_fb_tag where
  "sample_tag = \<lparr>tag_addr = 0xFD000000, tag_pitch = 4096, tag_width = 1024, tag_height = 768, tag_bpp = 32\<rparr>"

theorem fb_setup_geometry_witness:
  "fb_wf (fb_setup sample_tag (fb_boot (\<lambda>a. 0))) \<and> unat (fb_cols (fb_setup sample_tag (fb_boot (\<lambda>a. 0)))) \<le> 107"
  using fb_setup_geometry [of sample_tag "fb_boot (\<lambda>a. 0)"] by (simp add: Let_def sample_tag_def mode_ok_def)

text \<open>The 1024 by 768 screen used in the examples: cells of 10 by 20, 102 columns, 38 rows.\<close>

definition sample_fb :: fb where
  "sample_fb = fb_setup sample_tag (fb_boot (\<lambda>a. 0))"

lemma sample_fb_wf: "fb_wf sample_fb"
  unfolding sample_fb_def by (rule fb_setup_wf) (simp add: sample_tag_def mode_ok_def)

lemma sample_fb_geometry:
  "glyph_w sample_fb = 10" "glyph_h sample_fb = 20" "fb_cols sample_fb = 102" "fb_rows sample_fb = 38"
  "cur_col sample_fb = 0" "cur_row sample_fb = 0" "theme_fg sample_fb = 0xFFFFFF" "theme_bg sample_fb = 0"
  "screen_buf sample_fb = (\<lambda>r c. 0)" "fb_width sample_fb = 1024" "fb_height sample_fb = 768"
  by (simp_all add: sample_fb_def sample_tag_def fb_setup_def Let_def fb_boot_def FB_WHITE_def FB_BLACK_def)

section \<open>Drawing a character\<close>

text \<open>
  C29: on a well-formed framebuffer, drawing a character into a cell of the grid returns; every
  pixel of the cell then has the foreground or background colour (its low 24 bits) as the scaled
  glyph says, every other pixel and every byte outside the framebuffer is as before, and the
  character is recorded in the text buffer, when its row is among the 64 the buffer holds.
\<close>

theorem fb_draw_char_correct:
  assumes "fb_wf st" and "unat col < unat (fb_cols st)" and "unat row < unat (fb_rows st)"
  shows "\<exists>st'. fb_draw_char col row ch fg bg st = Inr st'
    \<and> (\<forall>x y. (x, y) \<in> on_screen st \<longrightarrow> pic st' x y =
        (if (x, y) \<in> cell st (unat col) (unat row) then glyph_color st ch fg bg x y else pic st x y))
    \<and> (\<forall>a. a \<notin> region st \<longrightarrow> vram st' a = vram st a)
    \<and> screen_buf st' = (if unat row < 64 then (screen_buf st)(unat row := (screen_buf st (unat row))(unat col := ch))
        else screen_buf st)"
proof -
  obtain st1 where p: "paint (glyph_color st ch fg bg) (cell st (unat col) (unat row)) st st1"
    and run: "fb_draw_char col row ch fg bg st = Inr (if unat row < 64 then set_cell (unat row) (unat col) ch st1 else st1)"
    using draw_char_paints [OF assms, of ch fg bg] by blast
  have "screen_buf st1 = screen_buf st"
    using paint_shape(1) [OF p] by (metis fb.select_convs(15) fb.surjective fb.update_convs(16))
  moreover have "vram (set_cell r c v t) = vram t" "screen_buf (set_cell r c v t) = (screen_buf t)(r := (screen_buf t r)(c := v))"
    for r c v t by (simp_all add: set_cell_def)
  ultimately show ?thesis using p run by (auto simp: paint_def)
qed

theorem fb_draw_char_correct_witness:
  "\<exists>st'. fb_draw_char 101 37 65 0xFFFFFF 0 sample_fb = Inr st' \<and> screen_buf st' 37 101 = 65"
proof -
  have "unat (101 :: u32) < unat (fb_cols sample_fb)" "unat (37 :: u32) < unat (fb_rows sample_fb)"
    by (simp_all add: sample_fb_geometry)
  from fb_draw_char_correct [OF sample_fb_wf this, of 65 "0xFFFFFF" 0] show ?thesis by auto
qed

end
