(* ===== verification/Scroll.thy ===== *)
theory Scroll
  imports Picture
begin

text \<open>
  Scrolling by one text row: the two string instructions of \<open>fb_scroll\<close> move the picture up by one
  cell height and black out the last text row, and the two loops move the text held in
  \<open>screen_buf\<close> along.
\<close>

section \<open>Quadwords\<close>

lemma low_ld64: "ucast (ld64 m a) = ld32 m a"
  by (rule bit_word_eqI) (auto simp: ld64_def bit_simps dest: bit_imp_le_length)

lemma high_ld64: "ucast (drop_bit 32 (ld64 m a)) = ld32 m (a + 4)"
  by (rule bit_word_eqI) (auto simp: ld64_def bit_simps dest: bit_imp_le_length)

lemma byte_of_ld32:
  assumes "i < 4"
  shows "byte_of (ld32 m (b + of_nat k)) i = view m b (k + i)"
proof -
  have "i = 0 \<or> i = 1 \<or> i = 2 \<or> i = 3" using assms by arith
  then show ?thesis
    by (elim disjE; intro bit_word_eqI; auto simp: byte_of_def ld32_view bit_simps dest: bit_imp_le_length)
qed

lemma byte_of_0 [simp]: "byte_of 0 i = 0"
  by (simp add: byte_of_def)

lemma view_copy64:
  assumes "j < 18446744073709551616" and "d + 8 \<le> 18446744073709551616" and "d + 8 \<le> s"
  shows "view (put64 (b + of_nat d) (ld64 m (b + of_nat s)) m) b j
    = (if d \<le> j \<and> j < d + 8 then view m b (j + (s - d)) else view m b j)"
proof -
  have a: "b + of_nat d + 4 = b + of_nat (d + 4)" "b + of_nat s + 4 = b + of_nat (s + 4)" by simp_all
  have "view (put64 (b + of_nat d) (ld64 m (b + of_nat s)) m) b j
      = (if d + 4 \<le> j \<and> j < d + 8 then byte_of (ld32 m (b + of_nat (s + 4))) (j - (d + 4))
         else if d \<le> j \<and> j < d + 4 then byte_of (ld32 m (b + of_nat s)) (j - d) else view m b j)"
    using assms unfolding put64_def low_ld64 high_ld64 a by (simp add: view_put32 del: of_nat_add)
  also have "\<dots> = (if d \<le> j \<and> j < d + 8 then view m b (j + (s - d)) else view m b j)"
  proof -
    have "byte_of (ld32 m (b + of_nat (s + 4))) (j - (d + 4)) = view m b (j + (s - d))" if "d + 4 \<le> j" "j < d + 8"
      using byte_of_ld32 [of "j - (d + 4)" m b "s + 4"] that assms(3) by (simp add: add.commute)
    moreover have "byte_of (ld32 m (b + of_nat s)) (j - d) = view m b (j + (s - d))" if "d \<le> j" "j < d + 4"
      using byte_of_ld32 [of "j - d" m b s] that assms(3) by (simp add: add.commute)
    ultimately show ?thesis by auto
  qed
  finally show ?thesis .
qed

lemma view_zero64:
  assumes "j < 18446744073709551616" and "d + 8 \<le> 18446744073709551616"
  shows "view (put64 (b + of_nat d) 0 m) b j = (if d \<le> j \<and> j < d + 8 then 0 else view m b j)"
proof -
  have a: "b + of_nat d + 4 = b + of_nat (d + 4)" by simp
  show ?thesis using assms unfolding put64_def a by (simp add: view_put32 del: of_nat_add)
qed

lemma rep_movsq_view:
  assumes "s + 8 * n \<le> 18446744073709551616" and "d + 8 \<le> s"
  shows "fst (rep_movsq n (b + of_nat d) (b + of_nat s) m) = b + of_nat (d + 8 * n)
    \<and> (\<forall>j<18446744073709551616. view (snd (rep_movsq n (b + of_nat d) (b + of_nat s) m)) b j
        = (if d \<le> j \<and> j < d + 8 * n then view m b (j + (s - d)) else view m b j))"
  using assms
proof (induction n arbitrary: d s m)
  case 0
  then show ?case by simp
next
  case (Suc n)
  let ?m = "put64 (b + of_nat d) (ld64 m (b + of_nat s)) m"
  have a: "b + of_nat d + 8 = b + of_nat (d + 8)" "b + of_nat s + 8 = b + of_nat (s + 8)" by simp_all
  have first: "view ?m b j = (if d \<le> j \<and> j < d + 8 then view m b (j + (s - d)) else view m b j)"
    if "j < 18446744073709551616" for j
    using Suc.prems that by (intro view_copy64) simp_all
  have run: "rep_movsq (Suc n) (b + of_nat d) (b + of_nat s) m
      = rep_movsq n (b + of_nat (d + 8)) (b + of_nat (s + 8)) ?m"
    by (simp only: rep_movsq.simps a)
  have ih: "fst (rep_movsq n (b + of_nat (d + 8)) (b + of_nat (s + 8)) ?m) = b + of_nat (d + 8 + 8 * n)"
    "\<And>j. j < 18446744073709551616 \<Longrightarrow> view (snd (rep_movsq n (b + of_nat (d + 8)) (b + of_nat (s + 8)) ?m)) b j
        = (if d + 8 \<le> j \<and> j < d + 8 + 8 * n then view ?m b (j + (s - d)) else view ?m b j)"
    using Suc.IH [of "s + 8" "d + 8" ?m] Suc.prems by auto
  show ?case unfolding run
  proof (intro conjI allI impI)
    show "fst (rep_movsq n (b + of_nat (d + 8)) (b + of_nat (s + 8)) ?m) = b + of_nat (d + 8 * Suc n)"
      using ih(1) by (simp add: add.assoc)
    fix j :: nat assume j: "j < 18446744073709551616"
    show "view (snd (rep_movsq n (b + of_nat (d + 8)) (b + of_nat (s + 8)) ?m)) b j
        = (if d \<le> j \<and> j < d + 8 * Suc n then view m b (j + (s - d)) else view m b j)"
    proof (cases "d + 8 \<le> j \<and> j < d + 8 + 8 * n")
      case True
      then have "j + (s - d) < 18446744073709551616" "\<not> j + (s - d) < d + 8" using Suc.prems by auto
      then have "view ?m b (j + (s - d)) = view m b (j + (s - d))" by (simp add: first)
      with True show ?thesis using ih(2) [OF j] by simp
    next
      case False
      then show ?thesis using ih(2) [OF j] first [OF j] by auto
    qed
  qed
qed

lemma rep_stosq_view:
  assumes "d + 8 * n \<le> 18446744073709551616" and "j < 18446744073709551616"
  shows "view (rep_stosq n (b + of_nat d) 0 m) b j = (if d \<le> j \<and> j < d + 8 * n then 0 else view m b j)"
  using assms
proof (induction n arbitrary: d m)
  case 0
  then show ?case by auto
next
  case (Suc n)
  have a: "b + of_nat d + 8 = b + of_nat (d + 8)" by simp
  have "view (rep_stosq (Suc n) (b + of_nat d) 0 m) b j
      = (if d + 8 \<le> j \<and> j < d + 8 + 8 * n then 0 else view (put64 (b + of_nat d) 0 m) b j)"
    unfolding rep_stosq.simps a using Suc.prems by (intro Suc.IH) simp_all
  then show ?case using view_zero64 [of j d b m] Suc.prems by auto
qed

section \<open>The picture after a scroll\<close>

text \<open>The memory \<open>fb_scroll\<close> leaves behind.\<close>

definition scroll_vram :: "fb \<Rightarrow> memory" where
  "scroll_vram st =
    (let row_bytes = glyph_h st * fb_pitch st;
         count = ucast (fb_rows st - 1) * ucast row_bytes div 8 :: u64;
         (dst, m) = rep_movsq (unat count) (fb_addr st) (fb_addr st + ucast row_bytes) (vram st)
     in rep_stosq (unat (ucast (row_bytes div 8) :: u64)) dst 0 m)"

lemma fb_scroll_split:
  "fb_scroll st = bind_r (scroll_text (st\<lparr>vram := scroll_vram st\<rparr>)) (\<lambda>st. Inr (st\<lparr>cur_row := fb_rows st - 1\<rparr>))"
  by (simp add: fb_scroll_def scroll_vram_def Let_def split: prod.splits)

lemma row_bytes_fit:
  assumes "fb_wf st"
  shows "unat (glyph_h st * fb_pitch st) = unat (glyph_h st) * unat (fb_pitch st)"
    and "unat (fb_rows st) * (unat (glyph_h st) * unat (fb_pitch st)) \<le> unat (fb_height st) * unat (fb_pitch st)"
    and "8 dvd unat (glyph_h st) * unat (fb_pitch st)"
    and "0 < unat (fb_rows st)" and "8 \<le> unat (glyph_h st) * unat (fb_pitch st)"
proof -
  have rows: "fb_rows st \<noteq> 0" using assms by (auto simp: fb_wf_def)
  then show pos: "0 < unat (fb_rows st)" by (simp add: unat_gt_0)
  have "unat (fb_rows st) * unat (glyph_h st) \<le> unat (fb_height st)"
    using assms unfolding fb_wf_def by simp
  then show le: "unat (fb_rows st) * (unat (glyph_h st) * unat (fb_pitch st)) \<le> unat (fb_height st) * unat (fb_pitch st)"
    unfolding mult.assoc [symmetric] by (rule mult_le_mono1)
  have "unat (glyph_h st) * unat (fb_pitch st) \<le> unat (fb_rows st) * (unat (glyph_h st) * unat (fb_pitch st))"
    using pos by simp
  with le have "unat (glyph_h st) * unat (fb_pitch st) < 4294967296"
    using assms unfolding fb_wf_def by linarith
  then show "unat (glyph_h st * fb_pitch st) = unat (glyph_h st) * unat (fb_pitch st)"
    by (rule unat_mult_u32)
  have h: "unat (glyph_h st) = 2 * unat (glyph_w st)" "8 \<le> unat (glyph_w st)" "4 dvd unat (fb_pitch st)"
    using assms by (auto simp: fb_wf_def)
  have "2 * 4 dvd 2 * unat (glyph_w st) * unat (fb_pitch st)" using h(3) by (intro mult_dvd_mono) simp_all
  then show "8 dvd unat (glyph_h st) * unat (fb_pitch st)" by (simp add: h(1))
  have "0 < unat (fb_width st)"
  proof -
    have "fb_cols st \<noteq> 0" using assms by (auto simp: fb_wf_def)
    then have "0 < unat (fb_cols st)" by (simp add: unat_gt_0)
    then show ?thesis using assms unfolding fb_wf_def by (metis div_0 gr0I less_irrefl)
  qed
  then have "1 \<le> unat (fb_pitch st)" using assms unfolding fb_wf_def by linarith
  then have "16 * 1 \<le> unat (glyph_h st) * unat (fb_pitch st)" using h by (intro mult_le_mono) simp_all
  then show "8 \<le> unat (glyph_h st) * unat (fb_pitch st)" by simp
qed

lemma scroll_vram_view:
  assumes "fb_wf st" and "j < 18446744073709551616"
  shows "view (scroll_vram st) (fb_addr st) j =
    (let rb = unat (glyph_h st) * unat (fb_pitch st); n = (unat (fb_rows st) - 1) * rb
     in if j < n then view (vram st) (fb_addr st) (j + rb) else if j < n + rb then 0 else view (vram st) (fb_addr st) j)"
proof -
  define rb where "rb = unat (glyph_h st) * unat (fb_pitch st)"
  define n where "n = (unat (fb_rows st) - 1) * rb"
  note fit = row_bytes_fit [OF assms(1), folded rb_def]
  have small: "n + rb < 4294967296"
  proof -
    have "n + rb = unat (fb_rows st) * rb" using fit(4) by (simp add: n_def algebra_simps)
    also have "\<dots> < 4294967296" using fit(2) assms(1) unfolding fb_wf_def by linarith
    finally show ?thesis .
  qed
  have dvd: "8 dvd n" using fit(3) by (simp add: n_def)
  have rows: "unat (fb_rows st - 1) = unat (fb_rows st) - 1"
    using unat_sub_u32 [of 1 "fb_rows st"] fit(4) by (simp add: word_le_nat_alt)
  have "unat (ucast (fb_rows st - 1) * ucast (glyph_h st * fb_pitch st) :: u64) = n"
  proof -
    have "(ucast (fb_rows st - 1) * ucast (glyph_h st * fb_pitch st) :: u64)
        = of_nat (unat (fb_rows st - 1)) * of_nat (unat (glyph_h st * fb_pitch st))" by simp
    also have "\<dots> = of_nat n" by (simp only: n_def rb_def fit(1) rows of_nat_mult)
    finally have "(ucast (fb_rows st - 1) * ucast (glyph_h st * fb_pitch st) :: u64) = of_nat n" .
    then show ?thesis using small by (simp only: unat_of_nat_u64)
  qed
  then have count: "unat (ucast (fb_rows st - 1) * ucast (glyph_h st * fb_pitch st) div 8 :: u64) = n div 8"
    by (simp add: unat_div)
  have count2: "unat (ucast (glyph_h st * fb_pitch st div 8) :: u64) = rb div 8"
    using fit(1) unat_less_32 [of "glyph_h st * fb_pitch st div 8"]
    by (simp add: unat_ucast_small unat_div)
  have "ucast (glyph_h st * fb_pitch st) = (of_nat (unat (glyph_h st * fb_pitch st)) :: u64)" by simp
  then have src: "fb_addr st + ucast (glyph_h st * fb_pitch st) = fb_addr st + of_nat rb"
    by (simp only: fit(1) rb_def)
  obtain dst m where mv: "rep_movsq (n div 8) (fb_addr st + of_nat 0) (fb_addr st + of_nat rb) (vram st) = (dst, m)"
    by (cases "rep_movsq (n div 8) (fb_addr st + of_nat 0) (fb_addr st + of_nat rb) (vram st)")
  have "dst = fb_addr st + of_nat n"
    "\<And>j. j < 18446744073709551616 \<Longrightarrow> view m (fb_addr st) j
      = (if j < n then view (vram st) (fb_addr st) (j + rb) else view (vram st) (fb_addr st) j)"
    using rep_movsq_view [of rb "n div 8" 0 "fb_addr st" "vram st"] mv small fit(5) dvd by auto
  moreover have "scroll_vram st = rep_stosq (rb div 8) dst 0 m"
    using mv by (simp add: scroll_vram_def Let_def count count2 src del: of_nat_add)
  ultimately show ?thesis
    using rep_stosq_view [of n "rb div 8" j "fb_addr st" m] assms(2) small fit(3)
    unfolding Let_def rb_def [symmetric] n_def [symmetric] by auto
qed

lemma scroll_vram_outside:
  assumes "fb_wf st" and "a \<notin> region st"
  shows "scroll_vram st a = vram st a"
proof -
  let ?j = "unat (a - fb_addr st)"
  have a: "a = fb_addr st + of_nat ?j" by simp
  with assms(2) have "\<not> ?j < unat (fb_height st) * unat (fb_pitch st)" unfolding region_def by blast
  moreover have "(unat (fb_rows st) - 1) * (unat (glyph_h st) * unat (fb_pitch st)) + unat (glyph_h st) * unat (fb_pitch st)
      = unat (fb_rows st) * (unat (glyph_h st) * unat (fb_pitch st))"
    using row_bytes_fit(4) [OF assms(1)] by (simp add: algebra_simps)
  moreover have "?j < 18446744073709551616" using unsigned_less [of "a - fb_addr st", where 'a = nat] by simp
  ultimately have "view (scroll_vram st) (fb_addr st) ?j = view (vram st) (fb_addr st) ?j"
    using scroll_vram_view [OF assms(1), of ?j] row_bytes_fit(2) [OF assms(1)] by (simp add: Let_def)
  then show ?thesis by (simp add: view_def)
qed

lemma scroll_pic:
  assumes "fb_wf st" and "(x, y) \<in> on_screen st"
  shows "pic (st\<lparr>vram := scroll_vram st\<rparr>) x y =
    (if y < (unat (fb_rows st) - 1) * unat (glyph_h st) then pic st x (y + unat (glyph_h st))
     else if y < unat (fb_rows st) * unat (glyph_h st) then 0 else pic st x y)"
proof -
  define P where "P = unat (fb_pitch st)"
  define gh where "gh = unat (glyph_h st)"
  define R where "R = unat (fb_rows st)"
  define p0 where "p0 = off st x y"
  have x: "4 * x + 4 \<le> P" using assms by (auto simp: fb_wf_def on_screen_def P_def)
  have p0: "p0 = y * P + 4 * x" by (simp add: p0_def off_def P_def)
  have small: "p0 + 4 < 4294967296"
    using off_bound [OF assms] assms(1) unfolding fb_wf_def p0_def by linarith
  have R: "(R - 1) * (gh * P) + gh * P = R * (gh * P)"
    using row_bytes_fit(4) [OF assms(1)] by (simp add: R_def algebra_simps)
  have bytes: "view (scroll_vram st) (fb_addr st) (p0 + i) =
      (if p0 + i < (R - 1) * (gh * P) then view (vram st) (fb_addr st) (p0 + i + gh * P)
       else if p0 + i < R * (gh * P) then 0 else view (vram st) (fb_addr st) (p0 + i))" if "i < 4" for i
    using scroll_vram_view [OF assms(1), of "p0 + i"] that small R
    by (simp add: Let_def P_def gh_def R_def)
  have inside: "p0 + i < k * (gh * P)" if "y < k * gh" "i < 4" for i k
  proof -
    have "(y + 1) * P \<le> k * gh * P" using that(1) by (intro mult_le_mono1) simp
    with x that(2) show ?thesis by (simp add: p0 mult.assoc)
  qed
  have outside: "\<not> p0 + i < k * (gh * P)" if "\<not> y < k * gh" for i k
  proof -
    have "k * gh * P \<le> y * P" using that by (intro mult_le_mono1) simp
    then show ?thesis unfolding p0 mult.assoc by linarith
  qed
  have up: "off st x (y + gh) = p0 + gh * P" by (simp add: p0 off_def P_def add_mult_distrib)
  have ld: "pic (st\<lparr>vram := m\<rparr>) x' y' = ucast (view m (fb_addr st) (off st x' y' + 0)) OR push_bit 8 (ucast (view m (fb_addr st) (off st x' y' + 1)))
      OR push_bit 16 (ucast (view m (fb_addr st) (off st x' y' + 2))) OR push_bit 24 (ucast (view m (fb_addr st) (off st x' y' + 3)))" for m x' y'
    by (simp add: pic_def ld32_view)
  have self: "pic st = pic (st\<lparr>vram := vram st\<rparr>)" by simp
  have fold: "unat (glyph_h st) = gh" "unat (fb_rows st) = R" by (simp_all add: gh_def R_def)
  show ?thesis unfolding fold
  proof (cases "y < (R - 1) * gh")
    case True
    have b: "view (scroll_vram st) (fb_addr st) (p0 + i) = view (vram st) (fb_addr st) (p0 + gh * P + i)" if "i < 4" for i
      using bytes [OF that] inside [OF True that] by (simp add: add.assoc add.left_commute add.commute [of i])
    show "pic (st\<lparr>vram := scroll_vram st\<rparr>) x y = (if y < (R - 1) * gh then pic st x (y + gh)
        else if y < R * gh then 0 else pic st x y)"
      using True unfolding ld [of "scroll_vram st"] self ld [of "vram st"] up p0_def [symmetric]
      by (simp only: b [of 0] b [of 1] b [of 2] b [of 3] if_True)
  next
    case no: False
    show "pic (st\<lparr>vram := scroll_vram st\<rparr>) x y = (if y < (R - 1) * gh then pic st x (y + gh)
        else if y < R * gh then 0 else pic st x y)"
    proof (cases "y < R * gh")
      case True
      have b: "view (scroll_vram st) (fb_addr st) (p0 + i) = 0" if "i < 4" for i
        using bytes [OF that] inside [OF True that] outside [OF no, of i] by simp
      show ?thesis
        using True no b [of 0] b [of 1] b [of 2] b [of 3] unfolding ld [of "scroll_vram st"] p0_def [symmetric] by simp
    next
      case False
      have b: "view (scroll_vram st) (fb_addr st) (p0 + i) = view (vram st) (fb_addr st) (p0 + i)" if "i < 4" for i
        using bytes [OF that] outside [OF False, of i] outside [OF no, of i] by simp
      show ?thesis
        using False no unfolding ld [of "scroll_vram st"] self ld [of "vram st"] p0_def [symmetric]
        by (simp only: b [of 0] b [of 1] b [of 2] b [of 3] if_False)
    qed
  qed
qed

section \<open>The text after a scroll\<close>

definition scrolled :: "nat \<Rightarrow> nat \<Rightarrow> (nat \<Rightarrow> nat \<Rightarrow> u8) \<Rightarrow> nat \<Rightarrow> nat \<Rightarrow> u8" where
  "scrolled rows cols buf r c =
    (if r < rows \<and> c < cols then (if r + 1 < rows then buf (r + 1) c else 0) else buf r c)"

lemma shift_line:
  "for_n k (\<lambda>c st. set_cell r c (screen_buf st (Suc r) c) st) st
    = st\<lparr>screen_buf := \<lambda>r' c. if r' = r \<and> c < k then screen_buf st (Suc r) c else screen_buf st r' c\<rparr>"
  by (induction k) (auto simp: set_cell_def fun_eq_iff less_Suc_eq)

lemma shift_lines:
  "for_n n (\<lambda>r. for_n k (\<lambda>c st. set_cell r c (screen_buf st (Suc r) c) st)) st
    = st\<lparr>screen_buf := \<lambda>r c. if r < n \<and> c < k then screen_buf st (Suc r) c else screen_buf st r c\<rparr>"
  by (induction n) (auto simp: shift_line fun_eq_iff less_Suc_eq)

lemma clear_line:
  "for_n k (\<lambda>c. set_cell r c 0) st
    = st\<lparr>screen_buf := \<lambda>r' c. if r' = r \<and> c < k then 0 else screen_buf st r' c\<rparr>"
  by (induction k) (auto simp: set_cell_def fun_eq_iff less_Suc_eq)

lemma scroll_text_runs:
  assumes "fb_rows st \<noteq> 0"
  shows "scroll_text st = Inr (st\<lparr>screen_buf :=
    scrolled (unat (buf_rows st)) (unat (buf_cols st)) (screen_buf st)\<rparr>)"
proof -
  define last where "last = buf_rows st - 1"
  define n where "n = unat (buf_rows st)"
  have n: "0 < n" "n \<le> 64"
    using assms by (auto simp: n_def buf_rows_def SCREEN_MAX_ROWS_def unat_gt_0 word_less_nat_alt)
  then have "1 \<le> buf_rows st" by (simp add: n_def word_le_nat_alt)
  then have last: "unat last = n - 1" using unat_sub_u32 by (simp add: last_def n_def)
  have lt: "last < 64" using last n by (simp add: word_less_nat_alt)
  let ?k = "unat (buf_cols st)"
  have first: "for_r (n - 1) (\<lambda>r. for_r ?k (\<lambda>c st. if r + 1 < 64
        then Inr (set_cell r c (screen_buf st (r + 1) c) st) else Inl Out_of_bounds)) st
      = Inr (for_n (n - 1) (\<lambda>r. for_n ?k (\<lambda>c st. set_cell r c (screen_buf st (r + 1) c) st)) st)"
    using n by (intro for_r_total) (auto intro!: for_r_total)
  have cols: "buf_cols (st\<lparr>screen_buf := f\<rparr>) = buf_cols st" for f by (simp add: buf_cols_def)
  have second: "for_r ?k (\<lambda>c st. Inr (set_cell q c 0 st)) t = Inr (for_n ?k (\<lambda>c. set_cell q c 0) t)" for q t
    by (intro for_r_total) simp
  have "scroll_text st = Inr (st\<lparr>screen_buf := \<lambda>r c. if r = n - 1 \<and> c < ?k then 0
      else if r < n - 1 \<and> c < ?k then screen_buf st (r + 1) c else screen_buf st r c\<rparr>)"
    unfolding scroll_text_def Let_def last_def [symmetric] last
    using first by (simp add: lt second shift_lines clear_line cols cong: if_cong)
  moreover have "(\<lambda>r c. if r = n - 1 \<and> c < ?k then 0
      else if r < n - 1 \<and> c < ?k then screen_buf st (r + 1) c else screen_buf st r c) = scrolled n ?k (screen_buf st)"
    using n by (auto simp: scrolled_def fun_eq_iff)
  ultimately show ?thesis by (simp add: n_def)
qed

definition after_scroll :: "fb \<Rightarrow> fb" where
  "after_scroll st = st\<lparr>vram := scroll_vram st,
     screen_buf := scrolled (unat (buf_rows st)) (unat (buf_cols st)) (screen_buf st),
     cur_row := fb_rows st - 1\<rparr>"

lemma fb_scroll_runs:
  assumes "fb_wf st"
  shows "fb_scroll st = Inr (after_scroll st)"
proof -
  have "fb_rows st \<noteq> 0" using assms by (auto simp: fb_wf_def)
  then show ?thesis
    by (simp add: fb_scroll_split scroll_text_runs after_scroll_def buf_rows_def buf_cols_def)
qed

lemma after_scroll_shape [simp]:
  "fb_wf (after_scroll st) = fb_wf st" "region (after_scroll st) = region st"
  "on_screen (after_scroll st) = on_screen st" "cell (after_scroll st) = cell st"
  "pic (after_scroll st) = pic (st\<lparr>vram := scroll_vram st\<rparr>)"
  by (simp_all add: after_scroll_def fb_wf_def region_def on_screen_def cell_def pic_def off_def fun_eq_iff)

text \<open>
  C28: on every well-formed framebuffer \<open>fb_scroll\<close> returns; the picture moves up by one cell
  height, the last text row turns black (whatever the theme), the pixel lines below the text rows
  stay, and no byte outside the framebuffer changes; the text rows held in the buffer (64 at most)
  move up with it, an empty one entering at the bottom, and the cursor is on the last text row.
\<close>

theorem fb_scroll_correct:
  assumes "fb_wf st"
  shows "\<exists>st'. fb_scroll st = Inr st'
    \<and> (\<forall>x y. (x, y) \<in> on_screen st \<longrightarrow> pic st' x y =
        (if y < (unat (fb_rows st) - 1) * unat (glyph_h st) then pic st x (y + unat (glyph_h st))
         else if y < unat (fb_rows st) * unat (glyph_h st) then 0 else pic st x y))
    \<and> (\<forall>a. a \<notin> region st \<longrightarrow> vram st' a = vram st a)
    \<and> screen_buf st' = scrolled (min (unat (fb_rows st)) 64) (unat (fb_cols st)) (screen_buf st)
    \<and> unat (cur_row st') = unat (fb_rows st) - 1"
proof -
  have "unat (buf_rows st) = min (unat (fb_rows st)) 64"
    by (auto simp: buf_rows_def SCREEN_MAX_ROWS_def word_less_nat_alt)
  moreover have "unat (buf_cols st) = unat (fb_cols st)"
    using assms by (auto simp: buf_cols_def SCREEN_MAX_COLS_def fb_wf_def)
  moreover have "unat (fb_rows st - 1) = unat (fb_rows st) - 1"
    using unat_sub_u32 [of 1 "fb_rows st"] row_bytes_fit(4) [OF assms] by (simp add: word_le_nat_alt)
  ultimately show ?thesis
    using scroll_pic [OF assms] scroll_vram_outside [OF assms]
    by (intro exI [of _ "after_scroll st"]) (auto simp: fb_scroll_runs [OF assms] after_scroll_def pic_def off_def)
qed

theorem fb_scroll_correct_witness:
  "\<exists>st'. fb_scroll sample_fb = Inr st' \<and> unat (cur_row st') = 37"
  using fb_scroll_correct [OF sample_fb_wf] by (auto simp: sample_fb_geometry)

end
