(* ===== verification/CString.thy ===== *)
theory CString
  imports Kernel_Base
begin

text \<open>
  \<open>kernel/string.c\<close>: the five string routines. A \<open>char\<close> is signed on x86-64, so the
  differences are taken on \<open>sint\<close>. Arguments are the bytes from the pointer to the end of
  its object, so a string without a terminator runs into \<^const>\<open>Out_of_bounds\<close>; source and
  destination of the copies are distinct objects, as their callers use them.
\<close>

section \<open>Definitions\<close>

fun strcmp :: "u8 list \<Rightarrow> u8 list \<Rightarrow> int result" where
  "strcmp (a # as) (b # bs) =
     (if a \<noteq> 0 \<and> a = b then strcmp as bs else Inr (sint a - sint b))"
| "strcmp _ _ = Inl Out_of_bounds"

fun strncmp :: "u8 list \<Rightarrow> u8 list \<Rightarrow> int \<Rightarrow> int result" where
  "strncmp (a # as) (b # bs) n =
     (if a \<noteq> 0 \<and> a = b \<and> n > 0 then strncmp as bs (n - 1) else Inr (sint a - sint b))"
| "strncmp _ _ _ = Inl Out_of_bounds"

text \<open>The counter is an \<open>int\<close>; the result is converted to \<open>size_t\<close>.\<close>

fun strlen_loop :: "s32 \<Rightarrow> u8 list \<Rightarrow> s32 result" where
  "strlen_loop count [] = Inl Out_of_bounds"
| "strlen_loop count (a # as) =
     (if a \<noteq> 0 then bind_r (int_inc count) (\<lambda>count. strlen_loop count as) else Inr count)"

definition strlen :: "u8 list \<Rightarrow> u64 result" where
  "strlen a = bind_r (strlen_loop 0 a) (\<lambda>count. Inr (scast count))"

fun strcpy_loop :: "u8 list \<Rightarrow> nat \<Rightarrow> u8 list \<Rightarrow> u8 list result" where
  "strcpy_loop buf i [] = Inl Out_of_bounds"
| "strcpy_loop buf i (a # as) =
     (if a \<noteq> 0 then bind_r (store buf i a) (\<lambda>buf. strcpy_loop buf (Suc i) as)
      else store buf i 0)"

definition strcpy :: "u8 list \<Rightarrow> u8 list \<Rightarrow> u8 list result" where
  "strcpy buf a = strcpy_loop buf 0 a"

fun strncpy_loop :: "u8 list \<Rightarrow> nat \<Rightarrow> u8 list \<Rightarrow> int \<Rightarrow> u8 list result" where
  "strncpy_loop buf i [] n = Inl Out_of_bounds"
| "strncpy_loop buf i (a # as) n =
     (if a \<noteq> 0 \<and> n > 0 then bind_r (store buf i a) (\<lambda>buf. strncpy_loop buf (Suc i) as (n - 1))
      else store buf i 0)"

definition strncpy :: "u8 list \<Rightarrow> u8 list \<Rightarrow> int \<Rightarrow> u8 list result" where
  "strncpy buf a n = strncpy_loop buf 0 a n"

section \<open>Comparison\<close>

lemma terminated_Cons_iff: "terminated (a # as) \<longleftrightarrow> a = 0 \<or> terminated as"
  by (auto simp: terminated_def)

lemma not_terminated_Nil [simp]: "\<not> terminated []"
  by (simp add: terminated_def)

lemma sint_eq_iff: "sint (a :: u8) = sint b \<longleftrightarrow> a = b"
  by (metis signed_word_eqI)

lemma sint_eq_0 [simp]: "sint (a :: u8) = 0 \<longleftrightarrow> a = 0"
  using sint_eq_iff [of a 0] by simp

text \<open>The order of \<open>strcmp\<close>: lexicographic on signed characters, the terminator included.\<close>

definition char_lex :: "u8 list \<Rightarrow> u8 list \<Rightarrow> bool" where
  "char_lex xs ys = ord.lexordp (\<lambda>x y. sint x < sint y) xs ys"

lemma char_lex_Cons [simp]:
  "char_lex (x # xs) (y # ys) \<longleftrightarrow> sint x < sint y \<or> x = y \<and> char_lex xs ys"
  by (auto simp: char_lex_def ord.lexordp_simps sint_eq_iff [symmetric] not_less_iff_gr_or_eq)

lemma char_lex_Nil [simp]: "\<not> char_lex xs []"
  by (simp add: char_lex_def ord.lexordp_simps)

lemma strcmp_runs:
  assumes "terminated a" and "terminated b"
  shows "\<exists>r. strcmp a b = Inr r \<and> (r = 0 \<longleftrightarrow> cstr a = cstr b)
    \<and> (r < 0 \<longleftrightarrow> char_lex (cstr a @ [0]) (cstr b @ [0]))"
  using assms
proof (induction a b rule: strcmp.induct)
  case (1 a as b bs)
  show ?case
  proof (cases "a \<noteq> 0 \<and> a = b")
    case True
    with 1 show ?thesis by (auto simp: terminated_Cons_iff)
  next
    case False
    then consider "a = 0" "b = 0" | "a = 0" "b \<noteq> 0" | "a \<noteq> 0" "a \<noteq> b" by auto
    then show ?thesis
      by cases (auto simp: sint_eq_iff cstr_def)
  qed
qed auto

text \<open>
  \<open>strcmp\<close> on two terminated strings returns, its result is 0 exactly on equal strings
  and negative exactly when the first is smaller in the signed lexicographic order.
\<close>

theorem strcmp_correct:
  assumes "terminated a" and "terminated b"
  shows "\<exists>r. strcmp a b = Inr r \<and> (r = 0 \<longleftrightarrow> cstr a = cstr b)
    \<and> (r < 0 \<longleftrightarrow> char_lex (cstr a @ [0]) (cstr b @ [0]))"
  using strcmp_runs [OF assms] .

theorem strcmp_correct_witness:
  "\<exists>r. strcmp (lit ''mem'') (lit ''help'') = Inr r \<and> r \<noteq> 0 \<and> \<not> r < 0"
  using strcmp_correct [of "lit ''mem''" "lit ''help''"]
  by (simp add: lit_def terminated_def cstr_def)

text \<open>
  C40: \<open>strncmp\<close> with bound \<open>n\<close> looks at the first \<open>n + 1\<close> characters, not at the first
  \<open>n\<close>: it returns 0 exactly when those \<open>n + 1\<close> characters (terminator included) agree. The
  loop stops after \<open>n\<close> equal characters and the final difference is that of the next pair.
\<close>

theorem strncmp_compares_n_plus_1:
  assumes "terminated a" and "terminated b"
  shows "\<exists>r. strncmp a b (int n) = Inr r
    \<and> (r = 0 \<longleftrightarrow> take (Suc n) (cstr a @ [0]) = take (Suc n) (cstr b @ [0]))"
  using assms
proof (induction n arbitrary: a b)
  case 0
  then show ?case
    by (cases a; cases b) (auto simp: terminated_Cons_iff cstr_def sint_eq_iff)
next
  case (Suc n)
  from Suc.prems obtain x as y bs where ab: "a = x # as" "b = y # bs"
    by (cases a; cases b) auto
  show ?case
  proof (cases "x \<noteq> 0 \<and> x = y")
    case True
    with Suc.prems ab have "terminated as" "terminated bs" by (auto simp: terminated_Cons_iff)
    from Suc.IH [OF this] True ab show ?thesis by auto
  next
    case False
    with ab show ?thesis by (auto simp: cstr_def sint_eq_iff)
  qed
qed

theorem strncmp_compares_n_plus_1_witness:
  "\<exists>r. strncmp (lit ''abc'') (lit ''abd'') 2 = Inr r \<and> r \<noteq> 0"
  using strncmp_compares_n_plus_1 [of "lit ''abc''" "lit ''abd''" 2]
  by (simp add: lit_def terminated_def cstr_def)

section \<open>Length\<close>

lemma int_inc_of_nat:
  "n < 2 ^ 31 - 1 \<Longrightarrow> int_inc (of_nat n) = Inr (of_nat (Suc n))"
  by (simp add: int_inc_def sint_of_nat_s32)

lemma strlen_loop_correct:
  "terminated a \<Longrightarrow> m + length (cstr a) < 2 ^ 31 \<Longrightarrow>
    strlen_loop (of_nat m) a = Inr (of_nat (m + length (cstr a)))"
proof (induction a arbitrary: m)
  case Nil
  then show ?case by simp
next
  case (Cons x as)
  show ?case
  proof (cases "x = 0")
    case True
    then show ?thesis by simp
  next
    case False
    with Cons.prems have "terminated as" "Suc m + length (cstr as) < 2 ^ 31"
      by (auto simp: terminated_Cons_iff)
    from Cons.IH [OF this] False Cons.prems show ?thesis by (simp add: int_inc_of_nat)
  qed
qed

text \<open>
  \<open>strlen\<close> returns the length of a terminated string of less than 2 GiB; the \<open>int\<close>
  counter does not overflow and its conversion to \<open>size_t\<close> keeps the value.
\<close>

theorem strlen_correct:
  assumes "terminated a" and "length (cstr a) < 2 ^ 31"
  shows "strlen a = Inr (of_nat (length (cstr a)))"
proof -
  have "strlen_loop (of_nat 0) a = Inr (of_nat (0 + length (cstr a)))"
    using assms by (intro strlen_loop_correct) simp_all
  then have "strlen_loop 0 a = Inr (of_nat (length (cstr a)))"
    by (simp only: semiring_1_class.of_nat_0 add_0)
  moreover have "scast (of_nat (length (cstr a)) :: s32) = (of_nat (length (cstr a)) :: u64)"
    using assms(2) by (simp only: scast_eq sint_of_nat_s32 of_int_of_nat_eq)
  ultimately show ?thesis by (simp add: strlen_def)
qed

theorem strlen_correct_witness:
  "terminated (lit ''theme'') \<and> strlen (lit ''theme'') = Inr 5"
  using strlen_correct [of "lit ''theme''"] by (simp add: lit_def terminated_def cstr_def)

section \<open>Copies\<close>

lemma strcpy_loop_correct:
  "terminated a \<Longrightarrow> i \<le> length buf \<Longrightarrow>
    strcpy_loop buf i a = (if i + length (cstr a) < length buf
      then Inr (overwrite buf i (cstr a @ [0])) else Inl Out_of_bounds)"
proof (induction a arbitrary: i buf)
  case Nil
  then show ?case by simp
next
  case (Cons x as)
  show ?case
  proof (cases "x \<noteq> 0 \<and> i < length buf")
    case True
    with Cons show ?thesis by (simp add: terminated_Cons_iff overwrite_Cons)
  next
    case False
    then show ?thesis
      by (cases "i < length buf") (auto simp: overwrite_Cons [symmetric])
  qed
qed

text \<open>
  \<open>strcpy\<close> writes the string and its terminator at the start of the destination and
  nothing else, and it overruns the destination exactly when the terminated string does not fit.
\<close>

theorem strcpy_correct:
  assumes "terminated a"
  shows "strcpy buf a = (if length (cstr a) < length buf
      then Inr (overwrite buf 0 (cstr a @ [0])) else Inl Out_of_bounds)"
  using strcpy_loop_correct [OF assms, of 0 buf] by (simp add: strcpy_def)

theorem strcpy_correct_witness:
  "strcpy [9, 9, 9, 9] (lit ''hi'') = Inr [104, 105, 0, 9]
    \<and> strcpy [9, 9] (lit ''hi'') = Inl Out_of_bounds"
  using strcpy_correct [of "lit ''hi''" "[9, 9, 9, 9]"] strcpy_correct [of "lit ''hi''" "[9, 9]"]
  by (simp add: lit_def terminated_def cstr_def overwrite_def)

lemma strncpy_loop_correct:
  "terminated a \<Longrightarrow> i \<le> length buf \<Longrightarrow>
    strncpy_loop buf i a (int n) = (if i + length (take n (cstr a)) < length buf
      then Inr (overwrite buf i (take n (cstr a) @ [0])) else Inl Out_of_bounds)"
proof (induction a arbitrary: i buf n)
  case Nil
  then show ?case by simp
next
  case (Cons x as)
  show ?case
  proof (cases "x \<noteq> 0 \<and> 0 < n \<and> i < length buf")
    case True
    then obtain m where n: "n = Suc m" by (cases n) auto
    with Cons.prems True have "terminated as" "Suc i \<le> length (buf[i := x])"
      by (auto simp: terminated_Cons_iff)
    from Cons.IH [OF this, of m] True n show ?thesis by (simp add: overwrite_Cons)
  next
    case False
    then show ?thesis
      by (cases "i < length buf") (auto simp: overwrite_Cons [symmetric])
  qed
qed

text \<open>
  \<open>strncpy\<close> writes the first \<open>n\<close> characters (fewer if the string is shorter) and always
  a terminator after them, so it needs room for \<open>n + 1\<close> bytes; it does not pad with zeros.
\<close>

theorem strncpy_correct:
  assumes "terminated a"
  shows "strncpy buf a (int n) = (if min n (length (cstr a)) < length buf
      then Inr (overwrite buf 0 (take n (cstr a) @ [0])) else Inl Out_of_bounds)"
  using strncpy_loop_correct [OF assms, of 0 buf n] by (simp add: strncpy_def min.commute)

theorem strncpy_correct_witness:
  "strncpy [9, 9, 9, 9] (lit ''hello'') 2 = Inr [104, 101, 0, 9]
    \<and> strncpy [9, 9] (lit ''hello'') 2 = Inl Out_of_bounds"
  using strncpy_correct [of "lit ''hello''" "[9, 9, 9, 9]" 2]
    strncpy_correct [of "lit ''hello''" "[9, 9]" 2]
  by (simp add: lit_def terminated_def cstr_def overwrite_def)

end
