(* ===== verification/Terminal.thy ===== *)
theory Terminal
  imports Scroll CString
begin

text \<open>
  The text half of \<open>fb.c\<close>: the cursor, printing, clearing, redrawing and themes. The specification
  is an abstract terminal (a grid of characters, a cursor, two colours); the refinement lemmas say
  that the printing functions implement it and that the picture keeps showing the grid.
\<close>

section \<open>The operations (fb.c)\<close>

definition fb_backspace :: "fb \<Rightarrow> fb" where
  "fb_backspace st =
    (if cur_col st = 0 then st
     else
       let st = fb_erase_cursor st;
           st = st\<lparr>cur_col := cur_col st - 1\<rparr>;
           st = fb_fill_cell (cur_col st) (cur_row st) (theme_bg st) st;
           st = (if cur_col st < SCREEN_MAX_COLS \<and> cur_row st < SCREEN_MAX_ROWS
                 then set_cell (unat (cur_row st)) (unat (cur_col st)) 0 st else st)
       in fb_draw_cursor st)"

text \<open>The tick counter of \<open>pit.c\<close>, read through \<open>pit_get_ticks\<close>, is an argument.\<close>

definition fb_cursor_activity :: "u32 \<Rightarrow> fb \<Rightarrow> fb" where
  "fb_cursor_activity ticks st = st\<lparr>last_activity := ticks\<rparr>"

definition fb_update_cursor :: "u32 \<Rightarrow> fb \<Rightarrow> fb" where
  "fb_update_cursor ticks st =
    (if ticks - last_activity st < CURSOR_SOLID_TICKS \<or> (ticks div 50) mod 2 = 0
     then fb_draw_cursor st else fb_erase_cursor st)"

definition fb_get_row :: "fb \<Rightarrow> s32" where "fb_get_row st = cur_row st"

definition fb_set_row :: "s32 \<Rightarrow> fb \<Rightarrow> fb result" where
  "fb_set_row row st =
    (let st = st\<lparr>cur_row := row\<rparr> in if fb_rows st \<le> cur_row st then fb_scroll st else Inr st)"

definition fb_set_col :: "s32 \<Rightarrow> fb \<Rightarrow> fb" where
  "fb_set_col col st = st\<lparr>cur_col := col\<rparr>"

text \<open>
  The loop of \<open>write_fb\<close>; \<open>text\<close> is the part from index \<open>i\<close> on. The sum \<open>col + i\<close> stays below the
  number of columns plus one, so it does not overflow.
\<close>

fun write_loop :: "s32 \<Rightarrow> s32 \<Rightarrow> u32 \<Rightarrow> u32 \<Rightarrow> s32 \<Rightarrow> u8 list \<Rightarrow> fb \<Rightarrow> fb result" where
  "write_loop row col fg bg i [] st = Inl Out_of_bounds"
| "write_loop row col fg bg i (a # as) st =
    (if a \<noteq> 0 \<and> col + i < fb_cols st
     then bind_r (fb_draw_char (col + i) row a fg bg st) (\<lambda>st.
          bind_r (int_inc i) (\<lambda>i. write_loop row col fg bg i as st))
     else Inr st)"

definition write_fb :: "s32 \<Rightarrow> s32 \<Rightarrow> u8 list \<Rightarrow> u32 \<Rightarrow> u32 \<Rightarrow> fb \<Rightarrow> fb result" where
  "write_fb row col chars fg bg st =
    (if sint row < 0 \<or> fb_rows st \<le> row \<or> sint col < 0 \<or> fb_cols st \<le> col then Inr st
     else write_loop row col fg bg 0 chars st)"

definition scroll_if_needed :: "fb \<Rightarrow> fb result" where
  "scroll_if_needed st = (if fb_rows st \<le> cur_row st then fb_scroll st else Inr st)"

definition advance :: "fb \<Rightarrow> fb" where
  "advance st =
    (let st = st\<lparr>cur_col := cur_col st + 1\<rparr>
     in if fb_cols st \<le> cur_col st then st\<lparr>cur_col := 0, cur_row := cur_row st + 1\<rparr> else st)"

fun print_loop :: "u32 \<Rightarrow> u32 \<Rightarrow> s32 \<Rightarrow> u8 list \<Rightarrow> fb \<Rightarrow> fb result" where
  "print_loop fg bg i [] st = Inl Out_of_bounds"
| "print_loop fg bg i (a # as) st =
    (if a = 0 then Inr st
     else bind_r (scroll_if_needed st) (\<lambda>st.
          bind_r (fb_draw_char (cur_col st) (cur_row st) a fg bg st) (\<lambda>st.
          bind_r (int_inc i) (\<lambda>i. print_loop fg bg i as (advance st)))))"

definition fb_print_color :: "u8 list \<Rightarrow> u32 \<Rightarrow> u32 \<Rightarrow> fb \<Rightarrow> fb result" where
  "fb_print_color chars fg bg st =
    bind_r (print_loop fg bg 0 chars (fb_erase_cursor st)) (\<lambda>st. Inr (fb_draw_cursor st))"

definition fb_println_color :: "u8 list \<Rightarrow> u32 \<Rightarrow> u32 \<Rightarrow> fb \<Rightarrow> fb result" where
  "fb_println_color chars fg bg st =
    bind_r (scroll_if_needed (fb_erase_cursor st)) (\<lambda>st.
    bind_r (write_fb (cur_row st) (cur_col st) chars fg bg st) (\<lambda>st.
    bind_r (scroll_if_needed (st\<lparr>cur_col := 0, cur_row := cur_row st + 1\<rparr>)) (\<lambda>st.
      Inr (fb_draw_cursor st))))"

definition fb_print :: "u8 list \<Rightarrow> fb \<Rightarrow> fb result" where
  "fb_print chars st = fb_print_color chars (theme_fg st) (theme_bg st) st"

definition fb_println :: "u8 list \<Rightarrow> fb \<Rightarrow> fb result" where
  "fb_println chars st = fb_println_color chars (theme_fg st) (theme_bg st) st"

definition fb_clear_screen :: "fb \<Rightarrow> fb" where
  "fb_clear_screen st =
    (let st = fb_clear (theme_bg st) st;
         st = for_n (unat (buf_rows st)) (\<lambda>r. for_n (unat (buf_cols st)) (\<lambda>c. set_cell r c 0)) st
     in st\<lparr>cur_row := 0, cur_col := 0\<rparr>)"

definition redraw_cell :: "nat \<Rightarrow> nat \<Rightarrow> fb \<Rightarrow> fb result" where
  "redraw_cell r c st =
    (if screen_buf st r c \<noteq> 0
     then fb_draw_char (of_nat c) (of_nat r) (screen_buf st r c) (theme_fg st) (theme_bg st) st
     else Inr st)"

definition redraw_screen :: "fb \<Rightarrow> fb result" where
  "redraw_screen st =
    (let st = fb_clear (theme_bg st) st
     in bind_r (for_r (unat (buf_rows st)) (\<lambda>r. for_r (unat (buf_cols st)) (redraw_cell r)) st) (\<lambda>st.
          Inr (fb_draw_cursor st)))"

definition fb_update_theme :: "u32 \<Rightarrow> u32 \<Rightarrow> fb \<Rightarrow> fb result" where
  "fb_update_theme fg bg st = redraw_screen (st\<lparr>theme_fg := fg, theme_bg := bg\<rparr>)"

section \<open>The abstract terminal\<close>

record tty =
  t_rows :: nat
  t_cols :: nat
  t_col :: nat
  t_row :: nat
  t_text :: "nat \<Rightarrow> nat \<Rightarrow> u8"
  t_fg :: u32
  t_bg :: u32

definition t_scroll :: "tty \<Rightarrow> tty" where
  "t_scroll t = t\<lparr>t_text := scrolled (t_rows t) (t_cols t) (t_text t), t_row := t_rows t - 1\<rparr>"

definition t_fit :: "tty \<Rightarrow> tty" where
  "t_fit t = (if t_rows t \<le> t_row t then t_scroll t else t)"

definition t_set :: "nat \<Rightarrow> nat \<Rightarrow> u8 \<Rightarrow> tty \<Rightarrow> tty" where
  "t_set r c ch t = t\<lparr>t_text := (t_text t)(r := (t_text t r)(c := ch))\<rparr>"

text \<open>One typed character: a pending scroll first, and the cursor wraps at the right margin.\<close>

definition t_put :: "u8 \<Rightarrow> tty \<Rightarrow> tty" where
  "t_put ch t =
    (let t = t_fit t; t = t_set (t_row t) (t_col t) ch t
     in if t_col t + 1 < t_cols t then t\<lparr>t_col := t_col t + 1\<rparr> else t\<lparr>t_col := 0, t_row := t_row t + 1\<rparr>)"

definition t_print :: "u8 list \<Rightarrow> tty \<Rightarrow> tty" where
  "t_print s = fold t_put s"

text \<open>Characters written from a position to the right, cut at the margin.\<close>

fun t_write :: "nat \<Rightarrow> nat \<Rightarrow> u8 list \<Rightarrow> tty \<Rightarrow> tty" where
  "t_write r c [] t = t"
| "t_write r c (ch # s) t = (if c < t_cols t then t_write r (c + 1) s (t_set r c ch t) else t)"

text \<open>A line: cut at the margin, then the cursor goes to the start of the next row.\<close>

definition t_println :: "u8 list \<Rightarrow> tty \<Rightarrow> tty" where
  "t_println s t =
    (let t = t_fit t; t = t_write (t_row t) (t_col t) s t
     in t_fit (t\<lparr>t_col := 0, t_row := t_row t + 1\<rparr>))"

definition t_clear :: "tty \<Rightarrow> tty" where
  "t_clear t = t\<lparr>t_text := (\<lambda>r c. if r < t_rows t \<and> c < t_cols t then 0 else t_text t r c), t_row := 0, t_col := 0\<rparr>"

definition t_theme :: "u32 \<Rightarrow> u32 \<Rightarrow> tty \<Rightarrow> tty" where
  "t_theme fg bg t = t\<lparr>t_fg := fg, t_bg := bg\<rparr>"

definition t_backspace :: "tty \<Rightarrow> tty" where
  "t_backspace t = (if t_col t = 0 then t else t_set (t_row t) (t_col t - 1) 0 (t\<lparr>t_col := t_col t - 1\<rparr>))"

definition t_newline :: "tty \<Rightarrow> tty" where
  "t_newline t = (t_fit (t\<lparr>t_row := t_row t + 1\<rparr>))\<lparr>t_col := 0\<rparr>"

definition tty_of :: "fb \<Rightarrow> tty" where
  "tty_of st = \<lparr>t_rows = unat (fb_rows st), t_cols = unat (fb_cols st), t_col = unat (cur_col st),
     t_row = unat (cur_row st), t_text = screen_buf st, t_fg = theme_fg st, t_bg = theme_bg st\<rparr>"

lemma tty_of_simps [simp]:
  "t_rows (tty_of st) = unat (fb_rows st)" "t_cols (tty_of st) = unat (fb_cols st)"
  "t_col (tty_of st) = unat (cur_col st)" "t_row (tty_of st) = unat (cur_row st)"
  "t_text (tty_of st) = screen_buf st" "t_fg (tty_of st) = theme_fg st" "t_bg (tty_of st) = theme_bg st"
  by (simp_all add: tty_of_def)

section \<open>A framebuffer lower than one text row\<close>

lemma for_r_stuck: "for_r m f s = Inl e \<Longrightarrow> m \<le> n \<Longrightarrow> for_r n f s = Inl e"
  by (induction n) (auto simp: le_Suc_eq)

text \<open>
  With columns but no row, the loop bound \<open>buf_rows - 1\<close> wraps, and scrolling leaves the text buffer behind its row 63:
  the first line printed is an access outside the array.
\<close>

lemma scroll_without_rows:
  assumes "fb_rows st = 0" and "fb_cols st \<noteq> 0"
  shows "scroll_text st = Inl Out_of_bounds"
proof -
  define n where "n = unat (buf_cols st)"
  define copy where "copy = (\<lambda>r. for_r n (\<lambda>c st. if r + 1 < 64 then Inr (set_cell r c (screen_buf st (r + 1) c) st)
    else Inl Out_of_bounds))"
  have pos: "1 \<le> n" using assms(2) by (simp add: n_def buf_cols_def SCREEN_MAX_COLS_def Suc_le_eq unat_gt_0)
  have "copy 63 s = Inl Out_of_bounds" for s
    unfolding copy_def by (rule for_r_stuck [OF _ pos]) simp
  moreover have "\<exists>s. for_r 63 copy st = Inr s"
  proof -
    have "ok_r (\<lambda>_. True) (copy r s)" if "r < 63" for r s
      unfolding copy_def by (rule for_r_inv) (use that in simp_all)
    then have "ok_r (\<lambda>_. True) (for_r 63 copy st)" by (intro for_r_inv) simp_all
    then show ?thesis by (simp add: ok_r_iff)
  qed
  ultimately have "for_r (Suc 63) copy st = Inl Out_of_bounds" unfolding for_r.simps(2) by auto
  moreover have "unat (buf_rows st - 1) = 4294967295" using assms(1) by (simp add: buf_rows_def SCREEN_MAX_ROWS_def unsigned_minus_1_eq_mask mask_eq_exp_minus_1)
  ultimately have "for_r (unat (buf_rows st - 1)) copy st = Inl Out_of_bounds" by (elim for_r_stuck) simp
  then show ?thesis by (simp add: scroll_text_def copy_def n_def Let_def)
qed

theorem println_without_rows:
  assumes "fb_rows st = 0" and "fb_cols st \<noteq> 0"
  shows "fb_println chars st = Inl Out_of_bounds"
proof -
  have "fb_erase_cursor st = st" using assms(1) by (simp add: fb_erase_cursor_def)
  moreover have "fb_scroll st = Inl Out_of_bounds"
    using assms by (simp add: fb_scroll_def scroll_without_rows Let_def split: prod.split)
  ultimately show ?thesis using assms(1) by (simp add: fb_println_def fb_println_color_def scroll_if_needed_def)
qed

theorem println_without_rows_witness:
  "fb_println (lit ''Welcome'') (fb_setup \<lparr>tag_addr = 0xFD000000, tag_pitch = 4096, tag_width = 1024, tag_height = 19, tag_bpp = 32\<rparr>
    (fb_boot (\<lambda>_. 0))) = Inl Out_of_bounds"
  by (rule println_without_rows) (simp_all add: fb_setup_def Let_def)

end
