(* ===== verification/Render.thy ===== *)
theory Render
  imports Terminal
begin

text \<open>
  What the screen shows: \<open>look\<close> ties the pixels of one cell to its character, and \<open>screen_ok\<close> is
  the invariant of the console: the picture shows the text buffer in the theme's colours and
  everything behind the cursor is empty. Each cursor and text operation is shown to keep it and to
  implement its step of the abstract terminal.
\<close>

section \<open>Unchanged mode\<close>

text \<open>The fields that only \<open>fb_init\<close> sets.\<close>

definition same_mode :: "fb \<Rightarrow> fb \<Rightarrow> bool" where
  "same_mode st st' \<longleftrightarrow> fb_addr st' = fb_addr st \<and> fb_pitch st' = fb_pitch st \<and> fb_width st' = fb_width st
    \<and> fb_height st' = fb_height st \<and> fb_bpp st' = fb_bpp st \<and> fb_cols st' = fb_cols st
    \<and> fb_rows st' = fb_rows st \<and> glyph_w st' = glyph_w st \<and> glyph_h st' = glyph_h st"

definition evolves :: "fb \<Rightarrow> fb \<Rightarrow> bool" where
  "evolves st st' \<longleftrightarrow> same_mode st st' \<and> (\<forall>a. a \<notin> region st \<longrightarrow> vram st' a = vram st a)"

lemma same_mode_shape:
  assumes "same_mode st st'"
  shows "fb_wf st' = fb_wf st" "region st' = region st" "on_screen st' = on_screen st" "cell st' = cell st"
    "glyph_color st' = glyph_color st" "off st' = off st" "fb_cols st' = fb_cols st" "fb_rows st' = fb_rows st"
  using assms
  by (simp_all add: same_mode_def fb_wf_def region_def on_screen_def cell_def glyph_color_def off_def fun_eq_iff)

lemma evolves_refl [simp, intro]: "evolves st st"
  by (simp add: evolves_def same_mode_def)

lemma evolves_trans [trans]: "evolves st st1 \<Longrightarrow> evolves st1 st2 \<Longrightarrow> evolves st st2"
  using same_mode_shape(2) [of st st1] by (simp add: evolves_def same_mode_def)

lemma paint_evolves:
  assumes "paint c S st st'"
  shows "evolves st st'" "tty_of st' = tty_of st" "last_activity st' = last_activity st"
proof -
  have eq: "st' = st\<lparr>vram := vram st'\<rparr>" by (rule paint_shape [OF assms])
  have "same_mode st st'" by (subst eq) (simp add: same_mode_def)
  then show "evolves st st'" using assms unfolding evolves_def paint_def by simp
  show "tty_of st' = tty_of st" "last_activity st' = last_activity st"
    by (subst eq, simp add: tty_of_def)+
qed

lemma set_cell_evolves [simp]: "evolves st (set_cell r c v st')  = evolves st st'"
  by (simp add: evolves_def same_mode_def set_cell_def)

lemma after_scroll_evolves:
  assumes "fb_wf st"
  shows "evolves st (after_scroll st)"
  using scroll_vram_outside [OF assms] by (simp add: evolves_def same_mode_def after_scroll_def)

section \<open>What a cell looks like\<close>

text \<open>
  An empty cell is uniform, in the background colour (clearing writes all 32 bits of it, drawing
  the low 24) or in the black that scrolling leaves; another cell shows its glyph.
\<close>

definition look :: "fb \<Rightarrow> u32 \<Rightarrow> u32 \<Rightarrow> u8 \<Rightarrow> nat \<Rightarrow> nat \<Rightarrow> bool" where
  "look st fg bg ch c r =
    (if ch = 0
     then \<exists>v \<in> {shown bg, bg, 0}. \<forall>x y. (x, y) \<in> cell st c r \<longrightarrow> pic st x y = v
     else \<forall>x y. (x, y) \<in> cell st c r \<longrightarrow> pic st x y = glyph_color st ch fg bg x y)"

lemma look_cong:
  assumes "same_mode st st'" and "\<And>x y. (x, y) \<in> cell st c r \<Longrightarrow> pic st' x y = pic st x y"
  shows "look st' fg bg ch c r = look st fg bg ch c r"
  using assms(2) by (simp add: look_def same_mode_shape [OF assms(1)])

lemma look_paint_other:
  assumes "fb_wf st" and "paint f (cell st c' r') st st'" and "(c, r) \<noteq> (c', r')"
    and "c < unat (fb_cols st)" and "r < unat (fb_rows st)"
  shows "look st' fg bg ch c r = look st fg bg ch c r"
proof (rule look_cong)
  show "same_mode st st'" using paint_evolves(1) [OF assms(2)] by (simp add: evolves_def)
  fix x y assume xy: "(x, y) \<in> cell st c r"
  then have "(x, y) \<notin> cell st c' r'" using cells_disjoint [OF assms(1,3)] by auto
  moreover have "(x, y) \<in> on_screen st" using cell_on_screen [OF assms(1,4,5)] xy by blast
  ultimately show "pic st' x y = pic st x y" using assms(2) by (simp add: paint_def)
qed

lemma look_painted:
  assumes "fb_wf st" and "paint f (cell st c r) st st'" and "c < unat (fb_cols st)" and "r < unat (fb_rows st)"
    and "(x, y) \<in> cell st c r"
  shows "pic st' x y = f x y"
  using cell_on_screen [OF assms(1,3,4)] assms(2,5) by (auto simp: paint_def)

lemma look_filled:
  assumes "fb_wf st" and "paint (\<lambda>_ _. shown bg) (cell st c r) st st'"
    and "c < unat (fb_cols st)" and "r < unat (fb_rows st)"
  shows "look st' fg bg 0 c r"
proof -
  have "same_mode st st'" using paint_evolves(1) [OF assms(2)] by (simp add: evolves_def)
  then show ?thesis using look_painted [OF assms] by (auto simp: look_def same_mode_shape)
qed

lemma look_drawn:
  assumes "fb_wf st" and "paint (glyph_color st ch fg bg) (cell st c r) st st'" and "ch \<noteq> 0"
    and "c < unat (fb_cols st)" and "r < unat (fb_rows st)"
  shows "look st' fg bg ch c r"
proof -
  have "same_mode st st'" using paint_evolves(1) [OF assms(2)] by (simp add: evolves_def)
  then show ?thesis using look_painted [OF assms(1,2,4,5)] assms(3) by (auto simp: look_def same_mode_shape)
qed

text \<open>Scrolling carries the look of a row to the row above; the last row turns black.\<close>

lemma cell_below:
  assumes "(x, y) \<in> cell st c r"
  shows "(x, y + unat (glyph_h st)) \<in> cell st c (r + 1)"
    and "glyph_color st ch fg bg x (y + unat (glyph_h st)) = glyph_color st ch fg bg x y"
  using assms by (auto simp: cell_def glyph_color_def Let_def algebra_simps)

lemma look_scrolled:
  assumes "fb_wf st" and "c < unat (fb_cols st)" and "r < unat (fb_rows st)"
    and "r + 1 < unat (fb_rows st) \<Longrightarrow> look st fg bg ch c (r + 1)"
    and "r + 1 = unat (fb_rows st) \<Longrightarrow> ch = 0"
  shows "look (after_scroll st) fg bg ch c r"
proof -
  let ?gh = "unat (glyph_h st)"
  note on = cell_on_screen [OF assms(1-3)]
  have mode: "same_mode st (after_scroll st)" using after_scroll_evolves [OF assms(1)] by (simp add: evolves_def)
  have px: "pic (after_scroll st) x y = (if r + 1 < unat (fb_rows st) then pic st x (y + ?gh) else 0)"
    if "(x, y) \<in> cell st c r" for x y
  proof -
    have y: "r * ?gh \<le> y" "y < (r + 1) * ?gh" using that by (auto simp: cell_def)
    have "y < (unat (fb_rows st) - 1) * ?gh" if "r + 1 < unat (fb_rows st)"
    proof -
      have "(r + 1) * ?gh \<le> (unat (fb_rows st) - 1) * ?gh" using that by (intro mult_le_mono1) simp
      with y show ?thesis by linarith
    qed
    moreover have "\<not> y < (unat (fb_rows st) - 1) * ?gh" if "\<not> r + 1 < unat (fb_rows st)"
    proof -
      have "unat (fb_rows st) - 1 = r" using that assms(3) by simp
      with y show ?thesis by simp
    qed
    moreover have "y < unat (fb_rows st) * ?gh"
    proof -
      have "(r + 1) * ?gh \<le> unat (fb_rows st) * ?gh" using assms(3) by (intro mult_le_mono1) simp
      with y show ?thesis by linarith
    qed
    ultimately show ?thesis using scroll_pic [OF assms(1)] on that by auto
  qed
  show ?thesis
  proof (cases "r + 1 < unat (fb_rows st)")
    case True
    then have "look st fg bg ch c (r + 1)" by (rule assms(4))
    with True show ?thesis
      using px cell_below [of _ _ st c r] unfolding look_def
      by (auto simp: same_mode_shape [OF mode] split: if_splits)
  next
    case False
    then have "ch = 0" using assms(3,5) by simp
    with False show ?thesis using px by (auto simp: look_def)
  qed
qed

section \<open>The console invariant\<close>

text \<open>
  \<open>screen_ok X st\<close>: a well-formed framebuffer of at most 64 text rows, the cursor in the grid or
  at the start of the row below it, empty cells from the cursor on, and every cell outside \<open>X\<close> showing its
  character. \<open>X\<close> is empty while the cursor is hidden and the cursor's own cell otherwise.
\<close>

definition screen_mode :: "fb \<Rightarrow> bool" where
  "screen_mode st \<longleftrightarrow> fb_wf st \<and> unat (fb_rows st) \<le> 64"

definition grid_ok :: "fb \<Rightarrow> bool" where
  "grid_ok st \<longleftrightarrow> screen_mode st \<and> cur_col st < fb_cols st
    \<and> (cur_row st < fb_rows st \<or> cur_row st = fb_rows st \<and> cur_col st = 0)"

definition blank_behind :: "nat \<Rightarrow> nat \<Rightarrow> fb \<Rightarrow> bool" where
  "blank_behind c0 r0 st \<longleftrightarrow> (\<forall>c r. c < unat (fb_cols st) \<and> r < unat (fb_rows st)
    \<and> (r0 < r \<or> r0 = r \<and> c0 \<le> c) \<longrightarrow> screen_buf st r c = 0)"

definition renders :: "(nat \<times> nat) set \<Rightarrow> fb \<Rightarrow> bool" where
  "renders X st \<longleftrightarrow> (\<forall>c r. c < unat (fb_cols st) \<and> r < unat (fb_rows st) \<and> (c, r) \<notin> X \<longrightarrow>
    look st (theme_fg st) (theme_bg st) (screen_buf st r c) c r)"

definition cursor :: "fb \<Rightarrow> nat \<times> nat" where
  "cursor st = (unat (cur_col st), unat (cur_row st))"

definition screen_ok :: "(nat \<times> nat) set \<Rightarrow> fb \<Rightarrow> bool" where
  "screen_ok X st \<longleftrightarrow> grid_ok st \<and> blank_behind (unat (cur_col st)) (unat (cur_row st)) st \<and> renders X st"

lemma renders_mono: "renders X st \<Longrightarrow> X \<subseteq> Y \<Longrightarrow> renders Y st"
  by (auto simp: renders_def)

lemma renders_UNIV [simp]: "renders UNIV st"
  by (simp add: renders_def)

lemma screen_ok_mono: "screen_ok X st \<Longrightarrow> X \<subseteq> Y \<Longrightarrow> screen_ok Y st"
  by (auto simp: screen_ok_def intro: renders_mono)

lemma tty_of_fields:
  assumes "tty_of st' = tty_of st"
  shows "cur_col st' = cur_col st" "cur_row st' = cur_row st" "screen_buf st' = screen_buf st"
    "theme_fg st' = theme_fg st" "theme_bg st' = theme_bg st" "cursor st' = cursor st"
  using assms by (simp_all add: tty_of_def cursor_def word_unat_eq_iff)

lemma look_vram:
  assumes "same_mode st st'" and "vram st' = vram st"
  shows "look st' fg bg ch c r = look st fg bg ch c r"
  using assms(2) same_mode_shape(6) [OF assms(1)] assms(1)
  by (intro look_cong [OF assms(1)]) (simp add: pic_def same_mode_def)

lemma renders_vram:
  assumes "same_mode st st'" and "vram st' = vram st" and "screen_buf st' = screen_buf st"
    and "theme_fg st' = theme_fg st" and "theme_bg st' = theme_bg st"
  shows "renders X st' = renders X st"
  using assms(3-5) by (simp add: renders_def look_vram [OF assms(1,2)] same_mode_shape [OF assms(1)])

lemma same_mode_fields [simp]:
  "same_mode st (st'\<lparr>cur_col := a\<rparr>) = same_mode st st'" "same_mode st (st'\<lparr>cur_row := a\<rparr>) = same_mode st st'"
  "same_mode st (st'\<lparr>theme_fg := a\<rparr>) = same_mode st st'" "same_mode st (st'\<lparr>theme_bg := a\<rparr>) = same_mode st st'"
  "same_mode st (st'\<lparr>last_activity := a\<rparr>) = same_mode st st'" "same_mode st (set_cell r c v st') = same_mode st st'"
  "same_mode st st"
  by (simp_all add: same_mode_def set_cell_def)

lemma evolves_fields [simp]:
  "evolves st (st'\<lparr>cur_col := a\<rparr>) = evolves st st'" "evolves st (st'\<lparr>cur_row := a\<rparr>) = evolves st st'"
  "evolves st (st'\<lparr>theme_fg := a\<rparr>) = evolves st st'" "evolves st (st'\<lparr>theme_bg := a\<rparr>) = evolves st st'"
  "evolves st (st'\<lparr>last_activity := a\<rparr>) = evolves st st'"
  by (simp_all add: evolves_def)

subsection \<open>The cursor\<close>

text \<open>Filling the cursor's cell (which holds no character) hides or shows the cursor.\<close>

lemma erase_cursor_ok:
  assumes "screen_ok {cursor st} st"
  shows "screen_ok {} (fb_erase_cursor st) \<and> evolves st (fb_erase_cursor st)
    \<and> tty_of (fb_erase_cursor st) = tty_of st \<and> last_activity (fb_erase_cursor st) = last_activity st"
proof (cases "cur_row st < fb_rows st")
  case True
  have wf: "fb_wf st" and col: "cur_col st < fb_cols st" using assms by (auto simp: screen_ok_def grid_ok_def screen_mode_def)
  let ?st = "fb_fill_cell (cur_col st) (cur_row st) (theme_bg st) st"
  have on: "unat (cur_col st) < unat (fb_cols st)" "unat (cur_row st) < unat (fb_rows st)"
    using True col by (simp_all add: word_less_nat_alt)
  note p = fill_cell_paints [OF wf on, of "theme_bg st"]
  note ev = paint_evolves [OF p] and fields = tty_of_fields [OF paint_evolves(2) [OF p]]
  have mode: "same_mode st ?st" using ev(1) by (simp add: evolves_def)
  have blank: "screen_buf st (unat (cur_row st)) (unat (cur_col st)) = 0"
    using assms on by (auto simp: screen_ok_def blank_behind_def)
  have "look ?st (theme_fg st) (theme_bg st) (screen_buf st r c) c r"
    if "c < unat (fb_cols st)" "r < unat (fb_rows st)" for c r
  proof (cases "(c, r) = cursor st")
    case True
    then show ?thesis using look_filled [OF wf p on] blank by (simp add: cursor_def)
  next
    case False
    then show ?thesis
      using look_paint_other [OF wf p _ that] assms that by (auto simp: cursor_def screen_ok_def renders_def)
  qed
  then have "screen_ok {} ?st"
    using assms fields same_mode_shape [OF mode]
    by (simp add: screen_ok_def grid_ok_def screen_mode_def blank_behind_def renders_def)
  moreover have "fb_erase_cursor st = ?st" using True col by (simp add: fb_erase_cursor_def)
  ultimately show ?thesis using ev by simp
next
  case False
  then have "(c, r) \<noteq> cursor st" if "r < unat (fb_rows st)" for c r
    using that by (auto simp: cursor_def word_less_nat_alt)
  with False assms show ?thesis by (auto simp: fb_erase_cursor_def screen_ok_def renders_def)
qed

lemma draw_cursor_ok:
  assumes "screen_ok {cursor st} st"
  shows "screen_ok {cursor st} (fb_draw_cursor st) \<and> evolves st (fb_draw_cursor st)
    \<and> tty_of (fb_draw_cursor st) = tty_of st \<and> last_activity (fb_draw_cursor st) = last_activity st"
proof (cases "cur_row st < fb_rows st")
  case True
  have wf: "fb_wf st" and col: "cur_col st < fb_cols st" using assms by (auto simp: screen_ok_def grid_ok_def screen_mode_def)
  let ?st = "fb_fill_cell (cur_col st) (cur_row st) (theme_fg st) st"
  have on: "unat (cur_col st) < unat (fb_cols st)" "unat (cur_row st) < unat (fb_rows st)"
    using True col by (simp_all add: word_less_nat_alt)
  note p = fill_cell_paints [OF wf on, of "theme_fg st"]
  note ev = paint_evolves [OF p] and fields = tty_of_fields [OF paint_evolves(2) [OF p]]
  have mode: "same_mode st ?st" using ev(1) by (simp add: evolves_def)
  have "look ?st (theme_fg st) (theme_bg st) (screen_buf st r c) c r"
    if "c < unat (fb_cols st)" "r < unat (fb_rows st)" "(c, r) \<noteq> cursor st" for c r
    using look_paint_other [OF wf p _ that(1,2)] assms that by (auto simp: cursor_def screen_ok_def renders_def)
  then have "screen_ok {cursor st} ?st"
    using assms fields same_mode_shape [OF mode]
    by (simp add: screen_ok_def grid_ok_def screen_mode_def blank_behind_def renders_def)
  moreover have "fb_draw_cursor st = ?st" using True col by (simp add: fb_draw_cursor_def)
  ultimately show ?thesis using ev by simp
next
  case False
  with assms show ?thesis by (auto simp: fb_draw_cursor_def)
qed

subsection \<open>Scrolling and typing\<close>

lemma grid_mode: "grid_ok st \<Longrightarrow> screen_mode st"
  by (simp add: grid_ok_def)

lemma grid_numbers:
  assumes "screen_mode st"
  shows "unat (buf_rows st) = unat (fb_rows st)" "unat (buf_cols st) = unat (fb_cols st)"
    "unat (fb_rows st - 1) = unat (fb_rows st) - 1" "0 < unat (fb_rows st)" "0 < unat (fb_cols st)"
proof -
  have wf: "fb_wf st" "unat (fb_rows st) \<le> 64" using assms by (simp_all add: screen_mode_def)
  show "unat (buf_rows st) = unat (fb_rows st)"
    using wf(2) by (auto simp: buf_rows_def SCREEN_MAX_ROWS_def word_less_nat_alt)
  show "unat (buf_cols st) = unat (fb_cols st)"
    using wf(1) by (auto simp: buf_cols_def SCREEN_MAX_COLS_def fb_wf_def)
  show pos: "0 < unat (fb_rows st)" by (rule row_bytes_fit(4) [OF wf(1)])
  then show "unat (fb_rows st - 1) = unat (fb_rows st) - 1"
    using unat_sub_u32 [of 1 "fb_rows st"] by (simp add: word_le_nat_alt)
  have "fb_cols st \<noteq> 0" using wf(1) by (auto simp: fb_wf_def)
  then show "0 < unat (fb_cols st)" by (simp add: unat_gt_0)
qed

text \<open>
  The lemmas on scrolling and moving hold for two sets \<open>X\<close> of cells without a known look: the empty one, and the set of all
  cells, where they only speak of the text.
\<close>

lemma scroll_any:
  assumes "screen_mode st" and "cur_col st < fb_cols st" and "renders X st" and "X \<in> {{}, UNIV}"
  shows "fb_scroll st = Inr (after_scroll st) \<and> screen_ok X (after_scroll st) \<and> evolves st (after_scroll st)
    \<and> tty_of (after_scroll st) = t_scroll (tty_of st) \<and> cur_row (after_scroll st) < fb_rows (after_scroll st)
    \<and> last_activity (after_scroll st) = last_activity st"
proof -
  let ?s = "after_scroll st"
  have wf: "fb_wf st" using assms(1) by (simp add: screen_mode_def)
  note ev = after_scroll_evolves [OF wf]
  have mode: "same_mode st ?s" using ev by (simp add: evolves_def)
  note num = grid_numbers [OF assms(1)]
  have fields: "cur_col ?s = cur_col st" "cur_row ?s = fb_rows st - 1" "theme_fg ?s = theme_fg st"
    "theme_bg ?s = theme_bg st" "fb_cols ?s = fb_cols st" "fb_rows ?s = fb_rows st"
    "screen_buf ?s = scrolled (unat (fb_rows st)) (unat (fb_cols st)) (screen_buf st)"
    "last_activity ?s = last_activity st"
    by (simp_all add: after_scroll_def num)
  have below: "fb_rows st - 1 < fb_rows st" "fb_rows st - 1 \<le> fb_rows st"
    using num by (simp_all add: word_less_nat_alt word_le_nat_alt)
  have "look ?s (theme_fg st) (theme_bg st) (screen_buf ?s r c) c r"
    if "renders {} st" "c < unat (fb_cols st)" "r < unat (fb_rows st)" for c r
    using that by (intro look_scrolled [OF wf]) (auto simp: fields renders_def scrolled_def)
  then have "renders X ?s" using assms(3,4) by (auto simp: renders_def fields)
  moreover have "grid_ok ?s" using assms(1,2) fields below by (simp add: grid_ok_def screen_mode_def)
  moreover have "blank_behind (unat (cur_col ?s)) (unat (cur_row ?s)) ?s"
    by (auto simp: blank_behind_def fields num scrolled_def)
  moreover have "tty_of ?s = t_scroll (tty_of st)"
    by (simp add: tty_of_def t_scroll_def fields num)
  ultimately show ?thesis using ev fb_scroll_runs [OF wf] fields below by (simp add: screen_ok_def)
qed

lemmas scroll_ok = scroll_any [where X = "{}", OF _ _ _ insertI1]

lemma scroll_if_needed_any:
  assumes "screen_ok X st" and "X \<in> {{}, UNIV}"
  shows "\<exists>st'. scroll_if_needed st = Inr st' \<and> screen_ok X st' \<and> evolves st st'
    \<and> tty_of st' = t_fit (tty_of st) \<and> cur_row st' < fb_rows st' \<and> last_activity st' = last_activity st"
proof (cases "fb_rows st \<le> cur_row st")
  case True
  then show ?thesis
    using scroll_any [of st X] assms
    by (auto simp: scroll_if_needed_def t_fit_def screen_ok_def grid_ok_def word_le_nat_alt)
next
  case False
  then show ?thesis
    using assms by (auto simp: scroll_if_needed_def t_fit_def word_le_nat_alt word_less_nat_alt)
qed

lemmas scroll_if_needed_ok = scroll_if_needed_any [where X = "{}", OF _ insertI1]

text \<open>Drawing a character of the theme into any cell keeps the picture in step with the buffer.\<close>

lemma draw_char_ok:
  assumes "fb_wf st" and "unat (fb_rows st) \<le> 64"
    and "unat col < unat (fb_cols st)" and "unat row < unat (fb_rows st)"
  shows "\<exists>st'. fb_draw_char col row ch fg bg st = Inr st' \<and> evolves st st'
    \<and> tty_of st' = t_set (unat row) (unat col) ch (tty_of st) \<and> last_activity st' = last_activity st
    \<and> (renders {} st \<and> ch \<noteq> 0 \<and> fg = theme_fg st \<and> bg = theme_bg st \<longrightarrow> renders {} st')"
proof -
  obtain st1 where p: "paint (glyph_color st ch fg bg) (cell st (unat col) (unat row)) st st1"
    and run: "fb_draw_char col row ch fg bg st = Inr (set_cell (unat row) (unat col) ch st1)"
    using draw_char_paints [OF assms(1,3,4), of ch fg bg] assms(2,4) by auto
  let ?s = "set_cell (unat row) (unat col) ch st1"
  note ev = paint_evolves [OF p] and fields = tty_of_fields [OF paint_evolves(2) [OF p]]
  have mode: "same_mode st st1" using ev(1) by (simp add: evolves_def)
  have "renders {} ?s" if "renders {} st" "ch \<noteq> 0" "fg = theme_fg st" "bg = theme_bg st"
  proof -
    have "look st1 fg bg (((screen_buf st)(unat row := (screen_buf st (unat row))(unat col := ch))) r c) c r"
      if "c < unat (fb_cols st)" "r < unat (fb_rows st)" for c r
    proof (cases "(c, r) = (unat col, unat row)")
      case True
      then show ?thesis using look_drawn [OF assms(1) p \<open>ch \<noteq> 0\<close> assms(3,4)] by simp
    next
      case False
      then show ?thesis
        using look_paint_other [OF assms(1) p False that] \<open>renders {} st\<close> \<open>fg = theme_fg st\<close> \<open>bg = theme_bg st\<close> that
        by (auto simp: renders_def)
    qed
    moreover have "look ?s fg bg v c r = look st1 fg bg v c r" for fg bg v c r
      by (rule look_vram) (simp_all add: set_cell_def same_mode_def)
    ultimately show ?thesis
      using same_mode_shape [OF mode] fields that(3,4) by (simp add: renders_def set_cell_def)
  qed
  moreover have "tty_of ?s = t_set (unat row) (unat col) ch (tty_of st)"
    using ev(2) by (simp add: tty_of_def t_set_def set_cell_def)
  moreover have "evolves st ?s" "last_activity ?s = last_activity st"
    using ev by (simp_all add: set_cell_def evolves_def same_mode_def)
  ultimately show ?thesis using run by blast
qed

lemma t_put_fit: "t_put ch (t_fit t) = t_put ch t" if "0 < t_rows t"
  using that by (simp add: t_put_def t_fit_def t_scroll_def Let_def)

lemma put_any:
  assumes "screen_ok X st" and "cur_row st < fb_rows st" and "ch \<noteq> 0" and "X \<in> {{}, UNIV}"
  shows "\<exists>st'. fb_draw_char (cur_col st) (cur_row st) ch (theme_fg st) (theme_bg st) st = Inr st'
    \<and> screen_ok X (advance st') \<and> evolves st (advance st') \<and> tty_of (advance st') = t_put ch (tty_of st)
    \<and> last_activity (advance st') = last_activity st"
proof -
  have grid: "grid_ok st" and blank: "blank_behind (unat (cur_col st)) (unat (cur_row st)) st"
    using assms(1) by (simp_all add: screen_ok_def)
  then have on: "fb_wf st" "unat (fb_rows st) \<le> 64" "renders X st" "unat (cur_col st) < unat (fb_cols st)"
    "unat (cur_row st) < unat (fb_rows st)"
    using assms(1,2) by (auto simp: grid_ok_def screen_mode_def screen_ok_def word_less_nat_alt)
  obtain st1 where st1: "fb_draw_char (cur_col st) (cur_row st) ch (theme_fg st) (theme_bg st) st = Inr st1"
    "renders X st1" "evolves st st1" "tty_of st1 = t_set (unat (cur_row st)) (unat (cur_col st)) ch (tty_of st)"
    "last_activity st1 = last_activity st"
    using draw_char_ok [OF on(1,2,4,5), of ch "theme_fg st" "theme_bg st"] on(3) assms(3,4) by auto
  have mode: "same_mode st st1" using st1(3) by (simp add: evolves_def)
  have f: "cur_col st1 = cur_col st" "cur_row st1 = cur_row st" "theme_fg st1 = theme_fg st" "theme_bg st1 = theme_bg st"
    "screen_buf st1 = (screen_buf st)(unat (cur_row st) := (screen_buf st (unat (cur_row st)))(unat (cur_col st) := ch))"
    "fb_rows st1 = fb_rows st" "fb_cols st1 = fb_cols st"
    using st1(4) mode by (simp_all add: tty_of_def t_set_def word_unat_eq_iff same_mode_def)
  have col: "unat (cur_col st + 1) = unat (cur_col st) + 1"
    using grid by (intro unat_inc_u32 [of _ "fb_cols st"]) (simp add: grid_ok_def)
  have row: "unat (cur_row st + 1) = unat (cur_row st) + 1" by (rule unat_inc_u32 [OF assms(2)])
  have ren: "renders X (st1\<lparr>cur_col := a\<rparr>)" "renders X (st1\<lparr>cur_col := a, cur_row := b\<rparr>)" for a b
    using st1(2) renders_vram [of st1 "st1\<lparr>cur_col := a\<rparr>"] renders_vram [of st1 "st1\<lparr>cur_col := a, cur_row := b\<rparr>"]
    by simp_all
  have wf: "fb_wf st1" using same_mode_shape(1) [OF mode] on(1) by simp
  have zero: "0 < fb_cols st"
    using grid_numbers(5) [OF grid_mode [OF grid]] by (simp add: word_less_nat_alt)
  have "screen_ok X (advance st1)"
  proof (cases "fb_cols st \<le> cur_col st + 1")
    case True
    let ?s = "st1\<lparr>cur_col := 0, cur_row := cur_row st + 1\<rparr>"
    have adv: "advance st1 = ?s" using True by (simp add: advance_def Let_def f)
    have "cur_row st + 1 < fb_rows st \<or> cur_row st + 1 = fb_rows st"
      using row on(5) by (auto simp: word_less_nat_alt word_unat_eq_iff)
    moreover have "fb_wf ?s = fb_wf st1" by (rule same_mode_shape) simp
    ultimately have "grid_ok ?s" using wf on(2) zero by (simp add: grid_ok_def screen_mode_def f)
    moreover have "blank_behind 0 (unat (cur_row st) + 1) ?s" using blank by (auto simp: blank_behind_def f)
    ultimately show ?thesis using ren(2) [of "cur_row st + 1" 0] row by (simp add: screen_ok_def adv)
  next
    case False
    let ?s = "st1\<lparr>cur_col := cur_col st + 1\<rparr>"
    have adv: "advance st1 = ?s" using False by (simp add: advance_def Let_def f)
    have "fb_wf ?s = fb_wf st1" by (rule same_mode_shape) simp
    then have "grid_ok ?s" using wf on(2) assms(2) False by (simp add: grid_ok_def screen_mode_def f not_le)
    moreover have "blank_behind (unat (cur_col st) + 1) (unat (cur_row st)) ?s"
      using blank by (auto simp: blank_behind_def f)
    ultimately show ?thesis using ren(1) [of "cur_col st + 1"] col by (simp add: screen_ok_def adv f)
  qed
  moreover have "evolves st (advance st1)"
    using st1(3) by (simp add: advance_def Let_def)
  moreover have "tty_of (advance st1) = t_put ch (tty_of st)"
    using st1(4) f col row on(5)
    by (simp add: advance_def Let_def t_put_def t_fit_def word_le_nat_alt) (auto simp: tty_of_def t_set_def f)
  moreover have "last_activity (advance st1) = last_activity st"
    using st1(5) by (simp add: advance_def Let_def)
  ultimately show ?thesis using st1(1) by blast
qed

lemmas put_ok = put_any [where X = "{}", OF _ _ _ insertI1]

section \<open>Printing\<close>

lemma t_print_Cons: "t_print (ch # s) t = t_print s (t_put ch t)"
  by (simp add: t_print_def)

lemma t_set_fields [simp]:
  "t_rows (t_set r c ch t) = t_rows t" "t_cols (t_set r c ch t) = t_cols t" "t_col (t_set r c ch t) = t_col t"
  "t_row (t_set r c ch t) = t_row t" "t_fg (t_set r c ch t) = t_fg t" "t_bg (t_set r c ch t) = t_bg t"
  by (simp_all add: t_set_def)

lemma t_fit_fields [simp]:
  "t_rows (t_fit t) = t_rows t" "t_cols (t_fit t) = t_cols t" "t_col (t_fit t) = t_col t"
  "t_fg (t_fit t) = t_fg t" "t_bg (t_fit t) = t_bg t"
  by (simp_all add: t_fit_def t_scroll_def)

lemma t_put_fields [simp]:
  "t_rows (t_put ch t) = t_rows t" "t_cols (t_put ch t) = t_cols t"
  "t_fg (t_put ch t) = t_fg t" "t_bg (t_put ch t) = t_bg t"
  by (simp_all add: t_put_def Let_def)

lemma t_write_fields [simp]:
  "t_rows (t_write r c s t) = t_rows t" "t_cols (t_write r c s t) = t_cols t" "t_col (t_write r c s t) = t_col t"
  "t_row (t_write r c s t) = t_row t" "t_fg (t_write r c s t) = t_fg t" "t_bg (t_write r c s t) = t_bg t"
  by (induction r c s t rule: t_write.induct) simp_all

lemma t_write_row: "r' \<noteq> r \<Longrightarrow> t_text (t_write r c s t) r' = t_text t r'"
  by (induction r c s t rule: t_write.induct) (simp_all add: t_set_def)

lemma print_loop_ok:
  assumes "screen_ok {} st" and "terminated chars" and "i + length chars \<le> 2 ^ 31"
  shows "\<exists>st'. print_loop (theme_fg st) (theme_bg st) (of_nat i) chars st = Inr st' \<and> screen_ok {} st'
    \<and> evolves st st' \<and> tty_of st' = t_print (cstr chars) (tty_of st) \<and> last_activity st' = last_activity st"
  using assms
proof (induction chars arbitrary: st i)
  case Nil
  then show ?case by simp
next
  case (Cons a as)
  show ?case
  proof (cases "a = 0")
    case True
    then show ?thesis using Cons.prems(1) by (auto simp: t_print_def)
  next
    case False
    obtain st1 where st1: "scroll_if_needed st = Inr st1" "screen_ok {} st1" "evolves st st1"
      "tty_of st1 = t_fit (tty_of st)" "cur_row st1 < fb_rows st1" "last_activity st1 = last_activity st"
      using scroll_if_needed_ok [OF Cons.prems(1)] by blast
    have theme: "theme_fg st1 = theme_fg st" "theme_bg st1 = theme_bg st"
      using arg_cong [OF st1(4), of t_fg] arg_cong [OF st1(4), of t_bg] by simp_all
    obtain st2 where st2: "fb_draw_char (cur_col st1) (cur_row st1) a (theme_fg st) (theme_bg st) st1 = Inr st2"
      "screen_ok {} (advance st2)" "evolves st1 (advance st2)" "tty_of (advance st2) = t_put a (tty_of st1)"
      "last_activity (advance st2) = last_activity st1"
      using put_ok [OF st1(2,5) False] theme by auto
    have theme2: "theme_fg (advance st2) = theme_fg st" "theme_bg (advance st2) = theme_bg st"
      using arg_cong [OF st2(4), of t_fg] arg_cong [OF st2(4), of t_bg] theme by simp_all
    have ended: "terminated as" using Cons.prems(2) False by (auto simp: terminated_def)
    then have "as \<noteq> []" by auto
    then have len: "Suc i + length as \<le> 2 ^ 31" "i < 2 ^ 31 - 1" using Cons.prems(3) by (cases "as"; auto)+
    obtain st3 where st3: "print_loop (theme_fg st) (theme_bg st) (of_nat (Suc i)) as (advance st2) = Inr st3"
      "screen_ok {} st3" "evolves (advance st2) st3" "tty_of st3 = t_print (cstr as) (tty_of (advance st2))"
      "last_activity st3 = last_activity (advance st2)"
      using Cons.IH [OF st2(2) ended len(1)] theme2 by auto
    have "print_loop (theme_fg st) (theme_bg st) (of_nat i) (a # as) st = Inr st3"
      using False st1(1) st2(1) st3(1) int_inc_of_nat [OF len(2)] by simp
    moreover have "tty_of st3 = t_print (cstr (a # as)) (tty_of st)"
    proof -
      have "0 < t_rows (tty_of st)"
        using Cons.prems(1) grid_numbers(4) grid_mode by (simp add: screen_ok_def)
      then show ?thesis using False st3(4) st2(4) st1(4) by (simp add: t_print_Cons t_put_fit)
    qed
    moreover have "evolves st st3" using st1(3) st2(3) st3(3) by (meson evolves_trans)
    ultimately show ?thesis using st3(2,5) st2(5) st1(6) by auto
  qed
qed

lemma write_loop_ok:
  assumes "fb_wf st" and "unat (fb_rows st) \<le> 64" and "unat row < unat (fb_rows st)"
    and "terminated chars" and "i + length chars \<le> 2 ^ 31" and "unat col + i \<le> unat (fb_cols st)"
  shows "\<exists>st'. write_loop row col fg bg (of_nat i) chars st = Inr st' \<and> evolves st st'
    \<and> tty_of st' = t_write (unat row) (unat col + i) (cstr chars) (tty_of st) \<and> last_activity st' = last_activity st
    \<and> (renders {} st \<and> fg = theme_fg st \<and> bg = theme_bg st \<longrightarrow> renders {} st')"
  using assms
proof (induction chars arbitrary: st i)
  case Nil
  then show ?case by simp
next
  case (Cons a as)
  have "unat (fb_cols st) < 4294967296" by (rule unat_less_32)
  moreover have "i < 4294967296" using Cons.prems(5) by simp
  ultimately have ci: "unat (col + of_nat i) = unat col + i"
    using Cons.prems(6) unat_add_u32 [of col "of_nat i"] by simp
  show ?case
  proof (cases "a \<noteq> 0 \<and> unat col + i < unat (fb_cols st)")
    case False
    then show ?thesis using ci by (cases "a = 0") (auto simp: word_less_nat_alt intro!: exI [of _ st])
  next
    case True
    obtain st1 where st1: "fb_draw_char (col + of_nat i) row a fg bg st = Inr st1" "evolves st st1"
      "tty_of st1 = t_set (unat row) (unat col + i) a (tty_of st)" "last_activity st1 = last_activity st"
      "renders {} st \<and> a \<noteq> 0 \<and> fg = theme_fg st \<and> bg = theme_bg st \<longrightarrow> renders {} st1"
      using draw_char_ok [OF Cons.prems(1,2), of "col + of_nat i" row a fg bg] ci True Cons.prems(3) by auto
    have mode: "same_mode st st1" using st1(2) by (simp add: evolves_def)
    have theme: "theme_fg st1 = theme_fg st" "theme_bg st1 = theme_bg st"
      using arg_cong [OF st1(3), of t_fg] arg_cong [OF st1(3), of t_bg] by simp_all
    have ended: "terminated as" using Cons.prems(4) True by (auto simp: terminated_def)
    then have "as \<noteq> []" by auto
    then have len: "Suc i + length as \<le> 2 ^ 31" "i < 2 ^ 31 - 1" using Cons.prems(5) by (cases "as"; auto)+
    obtain st2 where st2: "write_loop row col fg bg (of_nat (Suc i)) as st1 = Inr st2" "evolves st1 st2"
      "tty_of st2 = t_write (unat row) (unat col + Suc i) (cstr as) (tty_of st1)" "last_activity st2 = last_activity st1"
      "renders {} st1 \<and> fg = theme_fg st1 \<and> bg = theme_bg st1 \<longrightarrow> renders {} st2"
      using Cons.IH [of st1 "Suc i"] Cons.prems(1-3) ended len(1) True same_mode_shape [OF mode] by auto
    have "write_loop row col fg bg (of_nat i) (a # as) st = Inr st2"
      using True ci st1(1) st2(1) int_inc_of_nat [OF len(2)] by (simp add: word_less_nat_alt)
    moreover have "tty_of st2 = t_write (unat row) (unat col + i) (cstr (a # as)) (tty_of st)"
      using True st1(3) st2(3) by simp
    moreover have "evolves st st2" using st1(2) st2(2) by (rule evolves_trans)
    ultimately show ?thesis using st1(4,5) st2(4,5) theme True by auto
  qed
qed

text \<open>What every console operation guarantees when it starts with the cursor shown.\<close>

definition console_step :: "(tty \<Rightarrow> tty) \<Rightarrow> fb \<Rightarrow> fb \<Rightarrow> bool" where
  "console_step f st st' \<longleftrightarrow> screen_ok {cursor st'} st' \<and> evolves st st' \<and> tty_of st' = f (tty_of st)
    \<and> last_activity st' = last_activity st"

lemma console_step_trans:
  "console_step f st st1 \<Longrightarrow> console_step g st1 st2 \<Longrightarrow> console_step (\<lambda>t. g (f t)) st st2"
  unfolding console_step_def by (metis evolves_trans)

lemma show_cursor:
  assumes "screen_ok {} st1" and "evolves st st1" and "tty_of st1 = f (tty_of st)" and "last_activity st1 = last_activity st"
  shows "console_step f st (fb_draw_cursor st1)"
proof -
  have "screen_ok {cursor st1} st1" using assms(1) by (rule screen_ok_mono) simp
  from draw_cursor_ok [OF this] have d: "screen_ok {cursor st1} (fb_draw_cursor st1)" "evolves st1 (fb_draw_cursor st1)"
    "tty_of (fb_draw_cursor st1) = tty_of st1" "last_activity (fb_draw_cursor st1) = last_activity st1" by simp_all
  with assms tty_of_fields(6) [OF d(3)] show ?thesis
    unfolding console_step_def by (metis evolves_trans)
qed

lemma fb_print_step:
  assumes "screen_ok {cursor st} st" and "terminated chars" and "length chars \<le> 2 ^ 31"
  shows "ok_r (console_step (t_print (cstr chars)) st) (fb_print chars st)"
proof -
  note er = erase_cursor_ok [OF assms(1)]
  let ?st = "fb_erase_cursor st"
  have theme: "theme_fg ?st = theme_fg st" "theme_bg ?st = theme_bg st"
    using er tty_of_fields [of ?st st] by simp_all
  obtain st1 where st1: "print_loop (theme_fg st) (theme_bg st) 0 chars ?st = Inr st1" "screen_ok {} st1"
    "evolves ?st st1" "tty_of st1 = t_print (cstr chars) (tty_of ?st)" "last_activity st1 = last_activity ?st"
    using print_loop_ok [of ?st chars 0] er assms(2,3) theme by auto
  have "console_step (t_print (cstr chars)) st (fb_draw_cursor st1)"
    using st1 er by (intro show_cursor) (auto intro: evolves_trans)
  then show ?thesis by (simp add: fb_print_def fb_print_color_def st1(1))
qed

lemma t_write_blank:
  assumes "blank_behind c r st" and "tty_of st' = t_write r c0 s (tty_of st)" and "same_mode st st'"
  shows "blank_behind 0 (r + 1) st'"
proof -
  have "screen_buf st' r' = screen_buf st r'" if "r' \<noteq> r" for r'
    using arg_cong [OF assms(2), of t_text] t_write_row [OF that, of c0 s "tty_of st"] by simp
  then show ?thesis using assms(1) same_mode_shape [OF assms(3)] by (auto simp: blank_behind_def)
qed

text \<open>The cursor moves to the start of the next row, scrolling when it leaves the grid.\<close>

lemma next_row_any:
  assumes "screen_mode st" and "renders X st" and "blank_behind 0 (unat (cur_row st) + 1) st"
    and "cur_row st < fb_rows st" and "col < fb_cols st"
    and "X \<in> {{}, UNIV}"
  shows "\<exists>st'. scroll_if_needed (st\<lparr>cur_col := col, cur_row := cur_row st + 1\<rparr>) = Inr st' \<and> screen_ok X st'
    \<and> evolves st st' \<and> tty_of st' = t_fit ((tty_of st)\<lparr>t_col := unat col, t_row := unat (cur_row st) + 1\<rparr>)
    \<and> last_activity st' = last_activity st \<and> cur_row st' < fb_rows st'"
proof -
  let ?st = "st\<lparr>cur_col := col, cur_row := cur_row st + 1\<rparr>"
  have row: "unat (cur_row st + 1) = unat (cur_row st) + 1" by (rule unat_inc_u32 [OF assms(4)])
  have ren: "renders X ?st" using assms(2) renders_vram [of st ?st] by simp
  have wf: "fb_wf ?st = fb_wf st" by (rule same_mode_shape) simp
  then have mode: "screen_mode ?st" using assms(1) by (simp add: screen_mode_def)
  have ev: "evolves st t" if "evolves ?st t" for t
    using that by (simp add: evolves_def same_mode_def region_def)
  have tty: "tty_of ?st = (tty_of st)\<lparr>t_col := unat col, t_row := unat (cur_row st) + 1\<rparr>"
    by (simp add: tty_of_def row)
  show ?thesis
  proof (cases "fb_rows st \<le> cur_row st + 1")
    case True
    then show ?thesis
      using scroll_any [OF mode _ ren assms(6)] assms(5) ev tty row
      by (auto simp: scroll_if_needed_def t_fit_def word_le_nat_alt)
  next
    case False
    have "blank_behind (unat col) (unat (cur_row st) + 1) ?st"
      using assms(3) by (auto simp: blank_behind_def)
    then have "screen_ok X ?st"
      using mode ren row False assms(5) by (simp add: screen_ok_def grid_ok_def not_le)
    with False show ?thesis
      using ev [of ?st] tty row by (auto simp: scroll_if_needed_def t_fit_def word_le_nat_alt not_le word_less_nat_alt)
  qed
qed

lemmas next_row_ok = next_row_any [where X = "{}", OF _ _ _ _ _ insertI1]

lemma fb_println_step:
  assumes "screen_ok {cursor st} st" and "terminated chars" and "length chars \<le> 2 ^ 31"
  shows "ok_r (console_step (t_println (cstr chars)) st) (fb_println chars st)"
proof -
  note er = erase_cursor_ok [OF assms(1)]
  obtain st1 where st1: "scroll_if_needed (fb_erase_cursor st) = Inr st1" "screen_ok {} st1"
    "evolves (fb_erase_cursor st) st1" "tty_of st1 = t_fit (tty_of (fb_erase_cursor st))" "cur_row st1 < fb_rows st1"
    "last_activity st1 = last_activity (fb_erase_cursor st)"
    using scroll_if_needed_ok [of "fb_erase_cursor st"] er by auto
  have tty1: "tty_of st1 = t_fit (tty_of st)" using st1(4) er by simp
  have theme: "theme_fg st1 = theme_fg st" "theme_bg st1 = theme_bg st"
    using arg_cong [OF tty1, of t_fg] arg_cong [OF tty1, of t_bg] by simp_all
  have grid1: "grid_ok st1" "renders {} st1" "blank_behind (unat (cur_col st1)) (unat (cur_row st1)) st1"
    using st1(2) by (simp_all add: screen_ok_def)
  have on: "fb_wf st1" "unat (fb_rows st1) \<le> 64" "unat (cur_row st1) < unat (fb_rows st1)"
    "unat (cur_col st1) < unat (fb_cols st1)"
    using grid1(1) st1(5) by (simp_all add: grid_ok_def screen_mode_def word_less_nat_alt)
  obtain st2 where st2: "write_loop (cur_row st1) (cur_col st1) (theme_fg st) (theme_bg st) 0 chars st1 = Inr st2"
    "evolves st1 st2" "tty_of st2 = t_write (unat (cur_row st1)) (unat (cur_col st1)) (cstr chars) (tty_of st1)"
    "last_activity st2 = last_activity st1" "renders {} st2"
    using write_loop_ok [OF on(1,2,3) assms(2), of 0 "cur_col st1" "theme_fg st" "theme_bg st"] assms(3) on(4) theme grid1(2) by auto
  have "sint (cur_row st1) = int (unat (cur_row st1))" "sint (cur_col st1) = int (unat (cur_col st1))"
    using on grid1(1) sint_of_nat_s32 [of "unat (cur_row st1)"] sint_of_nat_s32 [of "unat (cur_col st1)"]
    by (simp_all add: fb_wf_def word_less_nat_alt word_le_nat_alt)
  then have written: "write_fb (cur_row st1) (cur_col st1) chars (theme_fg st) (theme_bg st) st1 = Inr st2"
    using on st2(1) by (simp add: write_fb_def word_le_nat_alt)
  have mode: "same_mode st1 st2" using st2(2) by (simp add: evolves_def)
  have pos: "cur_col st2 = cur_col st1" "cur_row st2 = cur_row st1"
    using arg_cong [OF st2(3), of t_col] arg_cong [OF st2(3), of t_row] by (simp_all add: word_unat_eq_iff)
  have shape: "fb_wf st2 = fb_wf st1" "fb_rows st2 = fb_rows st1" "fb_cols st2 = fb_cols st1"
    by (rule same_mode_shape [OF mode])+
  have mode2: "screen_mode st2" using on shape by (simp add: screen_mode_def)
  have zero: "0 < fb_cols st2" using grid_numbers(5) [OF mode2] by (simp add: word_less_nat_alt)
  obtain st3 where st3: "scroll_if_needed (st2\<lparr>cur_col := 0, cur_row := cur_row st2 + 1\<rparr>) = Inr st3" "screen_ok {} st3"
    "evolves st2 st3" "tty_of st3 = t_fit ((tty_of st2)\<lparr>t_col := 0, t_row := unat (cur_row st2) + 1\<rparr>)"
    "last_activity st3 = last_activity st2"
    using next_row_ok [OF mode2 st2(5) _ _ zero] t_write_blank [OF grid1(3) st2(3) mode] pos shape st1(5) by auto
  have "tty_of st3 = t_println (cstr chars) (tty_of st)"
    using st3(4) st2(3) tty1 pos by (simp add: t_println_def Let_def flip: tty_of_simps)
  moreover have "evolves st st3" using er st1(3) st2(2) st3(3) by (meson evolves_trans)
  moreover have "last_activity st3 = last_activity st" using er st1(6) st2(4) st3(5) by simp
  ultimately have "console_step (t_println (cstr chars)) st (fb_draw_cursor st3)"
    using st3(2) by (intro show_cursor) auto
  then show ?thesis
    using st1(1) written st3(1) by (simp add: fb_println_def fb_println_color_def)
qed

end
