(* ===== verification/Console.thy ===== *)
theory Console
  imports Render
begin

text \<open>
  The remaining console operations (clearing, redrawing, themes, backspace, the cursor's blinking)
  and the contract of the console as a locale, interpreted on the framebuffer driver. The commands
  of the shell are proved over that contract only.
\<close>

section \<open>Clearing and redrawing\<close>

text \<open>\<open>displays S st\<close>: the cells of \<open>S\<close> show their characters, the others are empty to the eye.\<close>

definition displays :: "(nat \<times> nat) set \<Rightarrow> fb \<Rightarrow> bool" where
  "displays S st \<longleftrightarrow> (\<forall>c r. c < unat (fb_cols st) \<and> r < unat (fb_rows st) \<longrightarrow>
    look st (theme_fg st) (theme_bg st) (if (c, r) \<in> S then screen_buf st r c else 0) c r)"

lemma clear_displays:
  assumes "fb_wf st"
  shows "displays {} (fb_clear (theme_bg st) st) \<and> evolves st (fb_clear (theme_bg st) st)
    \<and> tty_of (fb_clear (theme_bg st) st) = tty_of st \<and> last_activity (fb_clear (theme_bg st) st) = last_activity st"
proof -
  let ?s = "fb_clear (theme_bg st) st"
  note p = clear_paints [OF assms, of "theme_bg st"]
  note ev = paint_evolves [OF p] and fields = tty_of_fields [OF paint_evolves(2) [OF p]]
  have mode: "same_mode st ?s" using ev(1) by (simp add: evolves_def)
  have "pic ?s x y = theme_bg st" if "(x, y) \<in> cell st c r" "c < unat (fb_cols st)" "r < unat (fb_rows st)" for x y c r
    using cell_on_screen [OF assms that(2,3)] that(1) p by (auto simp: paint_def)
  then have "displays {} ?s"
    using fields same_mode_shape [OF mode] by (auto simp: displays_def look_def)
  with ev show ?thesis by simp
qed

definition redrawing :: "fb \<Rightarrow> (nat \<times> nat) set \<Rightarrow> fb \<Rightarrow> bool" where
  "redrawing st S t \<longleftrightarrow> evolves st t \<and> tty_of t = tty_of st \<and> last_activity t = last_activity st \<and> displays S t"

lemma redraw_cell_ok:
  assumes "screen_mode st" and "redrawing st S t" and "c < unat (fb_cols st)" and "r < unat (fb_rows st)"
  shows "ok_r (redrawing st (insert (c, r) S)) (redraw_cell r c t)"
proof -
  note red = assms(2) [unfolded redrawing_def]
  have mode: "same_mode st t" using red by (simp add: evolves_def)
  have f: "screen_buf t = screen_buf st" "theme_fg t = theme_fg st" "theme_bg t = theme_bg st"
    using red tty_of_fields [of t st] by simp_all
  have shape: "fb_wf t" "unat (fb_rows t) \<le> 64" "fb_cols t = fb_cols st" "fb_rows t = fb_rows st"
    using assms(1) same_mode_shape [OF mode] by (simp_all add: screen_mode_def)
  show ?thesis
  proof (cases "screen_buf st r c = 0")
    case True
    then have "(if (c', r') \<in> insert (c, r) S then screen_buf t r' c' else 0)
        = (if (c', r') \<in> S then screen_buf t r' c' else 0)" for c' r' using f by auto
    then have "displays (insert (c, r) S) t = displays S t" by (simp only: displays_def)
    with red have "displays (insert (c, r) S) t" by blast
    with red True f show ?thesis by (simp add: redraw_cell_def redrawing_def)
  next
    case False
    let ?ch = "screen_buf st r c"
    have num: "unat (of_nat c :: u32) = c" "unat (of_nat r :: u32) = r"
      using assms(3,4) unat_less_32 [of "fb_cols st"] unat_less_32 [of "fb_rows st"] by simp_all
    have on: "unat (of_nat c :: u32) < unat (fb_cols t)" "unat (of_nat r :: u32) < unat (fb_rows t)"
      using assms(3,4) num shape by simp_all
    obtain t1 where p: "paint (glyph_color t ?ch (theme_fg t) (theme_bg t)) (cell t c r) t t1"
      and run: "fb_draw_char (of_nat c) (of_nat r) ?ch (theme_fg t) (theme_bg t) t = Inr (set_cell r c ?ch t1)"
      using draw_char_paints [OF shape(1) on, of ?ch "theme_fg t" "theme_bg t"] num shape(2,4) assms(4) by auto
    note ev = paint_evolves [OF p] and g = tty_of_fields [OF paint_evolves(2) [OF p]]
    have same: "set_cell r c ?ch t1 = t1"
      using g(3) f(1) by (simp add: set_cell_def fun_upd_idem)
    have mode1: "same_mode t t1" using ev(1) by (simp add: evolves_def)
    have "displays (insert (c, r) S) t1"
      unfolding displays_def g same_mode_shape(7,8) [OF mode1]
    proof (intro allI impI)
      fix c' r' assume in_grid: "c' < unat (fb_cols t) \<and> r' < unat (fb_rows t)"
      show "look t1 (theme_fg t) (theme_bg t) (if (c', r') \<in> insert (c, r) S then screen_buf t r' c' else 0) c' r'"
      proof (cases "(c', r') = (c, r)")
        case True
        then show ?thesis using look_drawn [OF shape(1) p False] in_grid f by simp
      next
        case other: False
        have "look t (theme_fg t) (theme_bg t) (if (c', r') \<in> S then screen_buf t r' c' else 0) c' r'"
          using red in_grid unfolding displays_def by blast
        moreover have "(c', r') \<in> insert (c, r) S \<longleftrightarrow> (c', r') \<in> S" using other by blast
        ultimately show ?thesis using look_paint_other [OF shape(1) p other] in_grid by simp
      qed
    qed
    moreover have "evolves st t1" using red ev(1) by (meson evolves_trans)
    ultimately show ?thesis
      using run same red ev False f by (simp add: redraw_cell_def redrawing_def)
  qed
qed

lemma redraw_row_ok:
  assumes "screen_mode st" and "redrawing st S t" and "r < unat (fb_rows st)" and "n \<le> unat (fb_cols st)"
  shows "ok_r (redrawing st ({(c, r) | c. c < n} \<union> S)) (for_r n (redraw_cell r) t)"
proof (rule for_r_inv [where I = "\<lambda>n. redrawing st ({(c, r) | c. c < n} \<union> S)"])
  show "redrawing st ({(c, r) | c. c < 0} \<union> S) t" using assms(2) by simp
  fix i u assume i: "i < n" and u: "redrawing st ({(c, r) | c. c < i} \<union> S) u"
  have "insert (i, r) ({(c, r) | c. c < i} \<union> S) = {(c, r) | c. c < Suc i} \<union> S" by auto
  with redraw_cell_ok [OF assms(1) u, of i r] i assms(3,4)
  show "ok_r (redrawing st ({(c, r) | c. c < Suc i} \<union> S)) (redraw_cell r i u)" by simp
qed

lemma redraw_rows_ok:
  assumes "screen_mode st" and "redrawing st {} t" and "n \<le> unat (fb_rows st)"
  shows "ok_r (redrawing st {(c, r). c < unat (fb_cols st) \<and> r < n})
    (for_r n (\<lambda>r. for_r (unat (fb_cols st)) (redraw_cell r)) t)"
proof (rule for_r_inv [where I = "\<lambda>n. redrawing st {(c, r). c < unat (fb_cols st) \<and> r < n}"])
  show "redrawing st {(c, r). c < unat (fb_cols st) \<and> r < 0} t" using assms(2) by simp
  fix i u assume i: "i < n" and u: "redrawing st {(c, r). c < unat (fb_cols st) \<and> r < i} u"
  have "{(c, i) | c. c < unat (fb_cols st)} \<union> {(c, r). c < unat (fb_cols st) \<and> r < i}
      = {(c, r). c < unat (fb_cols st) \<and> r < Suc i}" by auto
  with redraw_row_ok [OF assms(1) u, of i "unat (fb_cols st)"] i assms(3)
  show "ok_r (redrawing st {(c, r). c < unat (fb_cols st) \<and> r < Suc i}) (for_r (unat (fb_cols st)) (redraw_cell i) u)"
    by simp
qed

text \<open>Redrawing needs no relation between picture and buffer to start from; it establishes it.\<close>

definition cursor_ok :: "fb \<Rightarrow> bool" where
  "cursor_ok st \<longleftrightarrow> grid_ok st \<and> blank_behind (unat (cur_col st)) (unat (cur_row st)) st"

lemma screen_ok_cursor: "screen_ok X st \<Longrightarrow> cursor_ok st"
  by (simp add: screen_ok_def cursor_ok_def)

lemma redraw_step:
  assumes "cursor_ok st"
  shows "ok_r (console_step (\<lambda>t. t) st) (redraw_screen st)"
proof -
  let ?s = "fb_clear (theme_bg st) st"
  have grid: "grid_ok st" "blank_behind (unat (cur_col st)) (unat (cur_row st)) st" and mode: "screen_mode st"
    using assms by (auto simp: cursor_ok_def grid_ok_def)
  have wf: "fb_wf st" using mode by (simp add: screen_mode_def)
  note cl = clear_displays [OF wf]
  note num = grid_numbers [OF mode]
  have "same_mode st ?s" using cl by (simp add: evolves_def)
  then have bufs: "buf_rows ?s = buf_rows st" "buf_cols ?s = buf_cols st"
    by (auto simp: buf_rows_def buf_cols_def same_mode_def)
  have start: "redrawing st {} ?s" using cl by (simp add: redrawing_def)
  have loop: "for_r (unat (buf_rows ?s)) (\<lambda>r. for_r (unat (buf_cols ?s)) (redraw_cell r)) ?s
      = for_r (unat (fb_rows st)) (\<lambda>r. for_r (unat (fb_cols st)) (redraw_cell r)) ?s"
    using bufs num by simp
  obtain t where t: "for_r (unat (fb_rows st)) (\<lambda>r. for_r (unat (fb_cols st)) (redraw_cell r)) ?s = Inr t"
    "redrawing st {(c, r). c < unat (fb_cols st) \<and> r < unat (fb_rows st)} t"
    using redraw_rows_ok [OF mode start order_refl] by (auto simp: ok_r_iff)
  note red = t(2) [unfolded redrawing_def]
  have m: "same_mode st t" using red by (simp add: evolves_def)
  have f: "cur_col t = cur_col st" "cur_row t = cur_row st" "screen_buf t = screen_buf st"
    using red tty_of_fields [of t st] by simp_all
  have "renders {} t" using red same_mode_shape [OF m] by (auto simp: renders_def displays_def)
  moreover have "grid_ok t" "blank_behind (unat (cur_col t)) (unat (cur_row t)) t"
    using grid same_mode_shape [OF m] f by (auto simp: grid_ok_def screen_mode_def blank_behind_def)
  ultimately have "screen_ok {} t" by (simp add: screen_ok_def)
  then have "console_step (\<lambda>t. t) st (fb_draw_cursor t)" using red by (intro show_cursor) auto
  then show ?thesis using t(1) loop by (simp add: redraw_screen_def Let_def)
qed

lemma theme_step:
  assumes "cursor_ok st"
  shows "ok_r (console_step (t_theme fg bg) st) (fb_update_theme fg bg st)"
proof -
  let ?s = "st\<lparr>theme_fg := fg, theme_bg := bg\<rparr>"
  have "fb_wf ?s = fb_wf st" by (rule same_mode_shape) simp
  then have "cursor_ok ?s"
    using assms by (simp add: cursor_ok_def grid_ok_def screen_mode_def blank_behind_def)
  from redraw_step [OF this] have "ok_r (console_step (\<lambda>t. t) ?s) (fb_update_theme fg bg st)"
    by (simp add: fb_update_theme_def)
  then show ?thesis
    by (rule ok_r_mono)
      (auto simp: console_step_def t_theme_def tty_of_def evolves_def same_mode_def region_def)
qed

lemma clear_cells:
  "for_n n (\<lambda>r. for_n k (\<lambda>c. set_cell r c 0)) st
    = st\<lparr>screen_buf := \<lambda>r c. if r < n \<and> c < k then 0 else screen_buf st r c\<rparr>"
  by (induction n) (auto simp: clear_line fun_eq_iff less_Suc_eq)

text \<open>
  \<open>fb_clear_screen\<close> leaves the cursor undrawn; its cell is empty.
\<close>

lemma clear_screen_step:
  assumes "cursor_ok st"
  shows "console_step t_clear st (fb_clear_screen st)"
proof -
  let ?s = "fb_clear (theme_bg st) st"
  have mode: "screen_mode st" using assms by (simp add: cursor_ok_def grid_ok_def)
  have wf: "fb_wf st" using mode by (simp add: screen_mode_def)
  note cl = clear_displays [OF wf] and num = grid_numbers [OF mode]
  have m: "same_mode st ?s" using cl by (simp add: evolves_def)
  then have bufs: "buf_rows ?s = buf_rows st" "buf_cols ?s = buf_cols st"
    by (auto simp: buf_rows_def buf_cols_def same_mode_def)
  define f where "f = (\<lambda>r c. if r < unat (fb_rows st) \<and> c < unat (fb_cols st) then 0 else screen_buf st r c)"
  let ?t = "?s\<lparr>screen_buf := f, cur_row := 0, cur_col := 0\<rparr>"
  have "screen_buf ?s = screen_buf st" using cl tty_of_fields [of ?s st] by simp
  then have run: "fb_clear_screen st = ?t"
    by (simp add: fb_clear_screen_def Let_def clear_cells bufs num f_def cong: if_cong)
  have m2: "same_mode ?s ?t" "same_mode st ?t" using m by (simp_all add: same_mode_def)
  have "vram ?t = vram ?s" by simp
  note lk = look_vram [OF m2(1) this]
  have "renders {} ?t"
    using cl unfolding renders_def lk same_mode_shape(7,8) [OF m2(1)]
    by (auto simp: displays_def f_def same_mode_shape(7,8) [OF m])
  moreover have "grid_ok ?t"
    using mode num same_mode_shape [OF m2(2)] same_mode_shape [OF m]
    by (simp add: grid_ok_def screen_mode_def word_less_nat_alt)
  moreover have "blank_behind 0 0 ?t" using same_mode_shape [OF m] by (auto simp: blank_behind_def f_def)
  ultimately have "screen_ok {} ?t" by (simp add: screen_ok_def)
  then have "screen_ok {cursor ?t} ?t" by (rule screen_ok_mono) simp
  moreover have "evolves st ?t" using cl m2 by (simp add: evolves_def same_mode_def)
  moreover have "tty_of ?t = t_clear (tty_of st)"
    using cl by (simp add: tty_of_def t_clear_def f_def fun_eq_iff)
  moreover have "last_activity ?t = last_activity st" using cl by simp
  ultimately show ?thesis unfolding run console_step_def by simp
qed

section \<open>Backspace, new line and blinking\<close>

lemma backspace_step:
  assumes "screen_ok {cursor st} st"
  shows "console_step t_backspace st (fb_backspace st)"
proof (cases "cur_col st = 0")
  case True
  then show ?thesis using assms by (simp add: fb_backspace_def t_backspace_def console_step_def)
next
  case False
  note er = erase_cursor_ok [OF assms]
  let ?e = "fb_erase_cursor st"
  let ?s = "?e\<lparr>cur_col := cur_col st - 1\<rparr>"
  have f: "cur_col ?e = cur_col st" "cur_row ?e = cur_row st" "theme_bg ?e = theme_bg st" "theme_fg ?e = theme_fg st"
    "screen_buf ?e = screen_buf st"
    using er tty_of_fields [of ?e st] by simp_all
  have m: "same_mode st ?e" using er by (simp add: evolves_def)
  have grid: "grid_ok st" "blank_behind (unat (cur_col st)) (unat (cur_row st)) st"
    using assms by (simp_all add: screen_ok_def)
  have row: "unat (cur_row st) < unat (fb_rows st)" "unat (fb_rows st) \<le> 64" and wf: "fb_wf st"
    using grid(1) False by (auto simp: grid_ok_def screen_mode_def word_less_nat_alt)
  have wf_s: "fb_wf ?s" "same_mode st ?s" using wf same_mode_shape(1) [of st ?s] m by simp_all
  have "0 < unat (cur_col st)" using False by (simp add: unat_gt_0)
  then have col: "unat (cur_col st - 1) = unat (cur_col st) - 1" "unat (cur_col st) - 1 < unat (cur_col st)"
    using unat_sub_u32 [of 1 "cur_col st"] by (simp_all add: word_le_nat_alt)
  have cc: "unat (cur_col st) < unat (fb_cols st)" using grid(1) by (simp add: grid_ok_def word_less_nat_alt)
  have on: "unat (cur_col st - 1) < unat (fb_cols ?s)" "unat (cur_row st) < unat (fb_rows ?s)"
    using col cc row same_mode_shape(7,8) [OF wf_s(2)] by simp_all
  let ?p = "fb_fill_cell (cur_col st - 1) (cur_row st) (theme_bg st) ?s"
  note p = fill_cell_paints [OF wf_s(1) on, of "theme_bg st"]
  note ev = paint_evolves [OF p] and g = tty_of_fields [OF paint_evolves(2) [OF p]]
  have mp: "same_mode ?s ?p" "same_mode st ?p" using ev(1) wf_s(2) by (auto simp: evolves_def same_mode_def)
  let ?q = "set_cell (unat (cur_row st)) (unat (cur_col st) - 1) 0 ?p"
  have "unat (fb_cols st) \<le> 128" using wf by (simp add: fb_wf_def word_le_nat_alt)
  with cc have "unat (cur_col st) - 1 < 128" by linarith
  then have run: "fb_backspace st = fb_draw_cursor ?q"
    using False row col f g
    by (simp add: fb_backspace_def Let_def SCREEN_MAX_COLS_def SCREEN_MAX_ROWS_def word_less_nat_alt)
  have q: "same_mode ?p ?q" "same_mode st ?q" "vram ?q = vram ?p"
    using mp by (simp_all add: same_mode_def set_cell_def)
  have bufq: "screen_buf ?q = (screen_buf st)(unat (cur_row st) := (screen_buf st (unat (cur_row st)))(unat (cur_col st) - 1 := 0))"
    using f g by (simp add: set_cell_def)
  have others: "cur_col ?q = cur_col st - 1" "cur_row ?q = cur_row st" "theme_fg ?q = theme_fg st" "theme_bg ?q = theme_bg st"
    "last_activity ?q = last_activity st"
    using f g ev er by (simp_all add: set_cell_def)
  have ren_s: "renders {} ?s" using er renders_vram [of ?e ?s] by (simp add: screen_ok_def)
  have "look ?q (theme_fg st) (theme_bg st) (screen_buf ?q r c) c r"
    if "c < unat (fb_cols st)" "r < unat (fb_rows st)" for c r
  proof (cases "(c, r) = (unat (cur_col st - 1), unat (cur_row st))")
    case True
    then show ?thesis
      using look_filled [OF wf_s(1) p on] bufq col look_vram [OF q(1,3)] by simp
  next
    case other: False
    have "look ?p (theme_fg st) (theme_bg st) (screen_buf st r c) c r"
      using look_paint_other [OF wf_s(1) p other] that ren_s f same_mode_shape(7,8) [OF wf_s(2)]
      by (auto simp: renders_def)
    moreover have "screen_buf ?q r c = screen_buf st r c" using bufq other col by auto
    ultimately show ?thesis using look_vram [OF q(1,3)] by simp
  qed
  then have "renders {} ?q" using others same_mode_shape(7,8) [OF q(2)] by (simp add: renders_def)
  moreover have "grid_ok ?q"
  proof -
    have "cur_row st < fb_rows st" "cur_col st - 1 < fb_cols st" using row cc col by (simp_all add: word_less_nat_alt)
    moreover have "fb_wf ?q" using same_mode_shape(1) [OF q(2)] wf by simp
    ultimately show ?thesis
      using row(2) unfolding grid_ok_def screen_mode_def others same_mode_shape(7,8) [OF q(2)] by simp
  qed
  moreover have "blank_behind (unat (cur_col st) - 1) (unat (cur_row st)) ?q"
    unfolding blank_behind_def bufq same_mode_shape(7,8) [OF q(2)]
    using grid(2) by (auto simp: blank_behind_def)
  ultimately have "screen_ok {} ?q" using others col by (simp add: screen_ok_def)
  moreover have "evolves st ?q"
  proof -
    have "evolves st ?s" using er by simp
    from evolves_trans [OF this ev(1)] show ?thesis by simp
  qed
  moreover have "tty_of ?q = t_backspace (tty_of st)"
    using False others bufq col q(2) by (simp add: tty_of_def t_backspace_def t_set_def unat_eq_0 same_mode_def)
  ultimately show ?thesis unfolding run using others by (intro show_cursor) auto
qed

text \<open>The keyboard's new line: \<open>fb_set_row (row + 1)\<close>, then \<open>fb_set_col 0\<close>, the cursor hidden.\<close>

lemma newline_ok:
  assumes "screen_ok {} st"
  shows "\<exists>st'. fb_set_row (cur_row st + 1) st = Inr st' \<and> screen_ok {} (fb_set_col 0 st')
    \<and> evolves st (fb_set_col 0 st') \<and> tty_of (fb_set_col 0 st') = t_newline (tty_of st)
    \<and> last_activity (fb_set_col 0 st') = last_activity st"
proof -
  let ?c = "st\<lparr>cur_row := cur_row st + 1\<rparr>" and ?z = "st\<lparr>cur_col := 0, cur_row := cur_row st + 1\<rparr>"
  have grid: "grid_ok st" "renders {} st" "blank_behind (unat (cur_col st)) (unat (cur_row st)) st"
    using assms by (simp_all add: screen_ok_def)
  then have mode: "screen_mode st" by (simp add: grid_ok_def)
  have zero: "0 < fb_cols st" using grid_numbers(5) [OF mode] by (simp add: word_less_nat_alt)
  have "\<exists>t. scroll_if_needed ?z = Inr t \<and> screen_ok {} t \<and> evolves st t \<and> tty_of t = t_newline (tty_of st)
      \<and> last_activity t = last_activity st"
  proof (cases "cur_row st < fb_rows st")
    case True
    have "blank_behind 0 (unat (cur_row st) + 1) st" using grid(3) by (auto simp: blank_behind_def)
    from next_row_ok [OF mode grid(2) this True zero] show ?thesis
      by (auto simp: t_newline_def t_fit_def t_scroll_def)
  next
    case False
    then have row: "cur_row st = fb_rows st" using grid(1) by (auto simp: grid_ok_def)
    have "unat (fb_rows st) \<le> 64" using mode by (simp add: screen_mode_def)
    then have up: "unat (cur_row st + 1) = unat (fb_rows st) + 1"
      using unat_add_u32 [of "fb_rows st" 1] row by simp
    have "fb_wf ?z = fb_wf st" by (rule same_mode_shape) simp
    then have "screen_mode ?z" using mode by (simp add: screen_mode_def)
    moreover have "renders {} ?z" using grid(2) renders_vram [of st ?z] by simp
    ultimately have "fb_scroll ?z = Inr (after_scroll ?z) \<and> screen_ok {} (after_scroll ?z) \<and> evolves ?z (after_scroll ?z)
        \<and> tty_of (after_scroll ?z) = t_scroll (tty_of ?z) \<and> last_activity (after_scroll ?z) = last_activity ?z"
      using scroll_ok [of ?z] zero by simp
    moreover have "evolves st t" if "evolves ?z t" for t
      using that by (simp add: evolves_def same_mode_def region_def)
    moreover have "t_scroll (tty_of ?z) = t_newline (tty_of st)"
      by (simp add: t_newline_def t_fit_def t_scroll_def tty_of_def up row)
    ultimately show ?thesis using up by (simp add: scroll_if_needed_def word_le_nat_alt)
  qed
  then obtain t where t: "scroll_if_needed ?z = Inr t" "screen_ok {} t" "evolves st t"
    "tty_of t = t_newline (tty_of st)" "last_activity t = last_activity st" by blast
  have wf: "fb_wf ?c" "fb_wf ?z"
    using mode same_mode_shape(1) [of st ?c] same_mode_shape(1) [of st ?z] by (simp_all add: screen_mode_def)
  have "after_scroll ?z = (after_scroll ?c)\<lparr>cur_col := 0\<rparr>"
    by (simp add: after_scroll_def scroll_vram_def buf_rows_def buf_cols_def Let_def)
  note shift = this
  have "\<exists>st'. fb_set_row (cur_row st + 1) st = Inr st' \<and> fb_set_col 0 st' = t"
  proof (cases "fb_rows st \<le> cur_row st + 1")
    case True
    then have "t = after_scroll ?z" using t(1) fb_scroll_runs [OF wf(2)] by (simp add: scroll_if_needed_def)
    with True show ?thesis
      using fb_scroll_runs [OF wf(1)] shift by (simp add: fb_set_row_def fb_set_col_def Let_def)
  next
    case False
    then have "t = ?z" using t(1) by (simp add: scroll_if_needed_def)
    with False show ?thesis by (simp add: fb_set_row_def fb_set_col_def Let_def)
  qed
  then obtain st' where st': "fb_set_row (cur_row st + 1) st = Inr st'" "fb_set_col 0 st' = t" by blast
  show ?thesis using st'(1) t(2-5) [folded st'(2)] by blast
qed

lemma update_cursor_step:
  assumes "screen_ok {cursor st} st"
  shows "console_step (\<lambda>t. t) st (fb_update_cursor ticks st)"
proof -
  have "console_step (\<lambda>t. t) st (fb_draw_cursor st)"
    using draw_cursor_ok [OF assms] tty_of_fields(6) [of "fb_draw_cursor st" st]
    by (simp add: console_step_def)
  moreover have "console_step (\<lambda>t. t) st (fb_erase_cursor st)"
    using erase_cursor_ok [OF assms] screen_ok_mono [of "{}" "fb_erase_cursor st"]
    by (simp add: console_step_def)
  ultimately show ?thesis by (simp add: fb_update_cursor_def)
qed

section \<open>The contract of the console\<close>

text \<open>The actions a client asks for, and what they do to a terminal.\<close>

datatype action = Print "u8 list" | Println "u8 list" | Clear | Recolour u32 u32

fun t_do :: "action \<Rightarrow> tty \<Rightarrow> tty" where
  "t_do (Print t) = t_print t"
| "t_do (Println t) = t_println t"
| "t_do Clear = t_clear"
| "t_do (Recolour fg bg) = t_theme fg bg"

definition t_script :: "action list \<Rightarrow> tty \<Rightarrow> tty" where
  "t_script as = fold t_do as"

text \<open>\<open>does ok keeps view f s r\<close>: from \<open>s\<close> the call returns, and does \<open>f\<close> to what can be seen of the console.\<close>

definition does ::
  "('s \<Rightarrow> bool) \<Rightarrow> ('s \<Rightarrow> 's \<Rightarrow> bool) \<Rightarrow> ('s \<Rightarrow> 't) \<Rightarrow> ('t \<Rightarrow> 't) \<Rightarrow> 's \<Rightarrow> 's result \<Rightarrow> bool" where
  "does ok keeps tty_view f s r \<longleftrightarrow> ok_r (\<lambda>s'. ok s' \<and> keeps s s' \<and> tty_view s' = f (tty_view s)) r"

locale console =
  fixes print :: "u8 list \<Rightarrow> 's \<Rightarrow> 's result"
    and println :: "u8 list \<Rightarrow> 's \<Rightarrow> 's result"
    and clear :: "'s \<Rightarrow> 's"
    and theme :: "u32 \<Rightarrow> u32 \<Rightarrow> 's \<Rightarrow> 's result"
    and ok :: "'s \<Rightarrow> bool"
    and keeps :: "'s \<Rightarrow> 's \<Rightarrow> bool"
    and tty_view :: "'s \<Rightarrow> 't"
    and act :: "action \<Rightarrow> 't \<Rightarrow> 't"
  assumes print_does: "ok s \<Longrightarrow> terminated t \<Longrightarrow> length t \<le> 2 ^ 31 \<Longrightarrow>
      does ok keeps tty_view (act (Print (cstr t))) s (print t s)"
    and println_does: "ok s \<Longrightarrow> terminated t \<Longrightarrow> length t \<le> 2 ^ 31 \<Longrightarrow>
      does ok keeps tty_view (act (Println (cstr t))) s (println t s)"
    and clear_does: "ok s \<Longrightarrow> does ok keeps tty_view (act Clear) s (Inr (clear s))"
    and theme_does: "ok s \<Longrightarrow> does ok keeps tty_view (act (Recolour fg bg)) s (theme fg bg s)"
    and keeps_refl: "keeps s s"
    and keeps_trans: "keeps s s1 \<Longrightarrow> keeps s1 s2 \<Longrightarrow> keeps s s2"
begin

lemma does_bind:
  assumes "does ok keeps tty_view f s r"
    and "\<And>s1. ok s1 \<Longrightarrow> does ok keeps tty_view g s1 (k s1)"
  shows "does ok keeps tty_view (\<lambda>t. g (f t)) s (bind_r r k)"
proof -
  obtain s1 where s1: "r = Inr s1" "ok s1" "keeps s s1" "tty_view s1 = f (tty_view s)"
    using assms(1) by (auto simp: does_def ok_r_iff)
  with assms(2) [OF s1(2)] show ?thesis
    by (auto simp: does_def ok_r_iff intro: keeps_trans)
qed

end

definition fb_ok :: "fb \<Rightarrow> bool" where "fb_ok st \<longleftrightarrow> screen_ok {cursor st} st"

definition fb_keeps :: "fb \<Rightarrow> fb \<Rightarrow> bool" where
  "fb_keeps st st' \<longleftrightarrow> evolves st st' \<and> last_activity st' = last_activity st"

lemma console_step_does:
  "ok_r (console_step f st) r \<longleftrightarrow> does fb_ok fb_keeps tty_of f st r"
  unfolding does_def by (rule arg_cong [where f = "\<lambda>P. ok_r P r"]) (auto simp: console_step_def fb_ok_def fb_keeps_def)

interpretation fbc: console fb_print fb_println fb_clear_screen fb_update_theme fb_ok fb_keeps tty_of t_do
proof
  fix s :: fb and t :: "u8 list" assume "fb_ok s" "terminated t" "length t \<le> 2 ^ 31"
  then show "does fb_ok fb_keeps tty_of (t_do (Print (cstr t))) s (fb_print t s)"
    "does fb_ok fb_keeps tty_of (t_do (Println (cstr t))) s (fb_println t s)"
    using fb_print_step [of s t] fb_println_step [of s t] by (simp_all add: fb_ok_def flip: console_step_does)
next
  fix s fg bg assume ok: "fb_ok s"
  then have "cursor_ok s" unfolding fb_ok_def by (rule screen_ok_cursor)
  then show "does fb_ok fb_keeps tty_of (t_do Clear) s (Inr (fb_clear_screen s))"
    "does fb_ok fb_keeps tty_of (t_do (Recolour fg bg)) s (fb_update_theme fg bg s)"
    using clear_screen_step theme_step by (simp_all flip: console_step_does)
next
  fix s s1 s2 assume "fb_keeps s s1" "fb_keeps s1 s2"
  then show "fb_keeps s s2" by (auto simp: fb_keeps_def intro: evolves_trans)
qed (simp add: fb_keeps_def)


lemma does_fb:
  "does fb_ok fb_keeps tty_of f st r \<longleftrightarrow> (\<exists>st'. r = Inr st' \<and> fb_ok st' \<and> tty_of st' = f (tty_of st)
    \<and> same_mode st st' \<and> (\<forall>a. a \<notin> region st \<longrightarrow> vram st' a = vram st a) \<and> last_activity st' = last_activity st)"
  by (auto simp: does_def ok_r_iff fb_keeps_def evolves_def)

text \<open>The state behind \<open>fb_init\<close> on a cleared video memory is a starting point.\<close>

lemma sample_fb_renders: "renders X sample_fb"
proof -
  have "vram sample_fb = (\<lambda>a. 0)" by (simp add: sample_fb_def fb_setup_def fb_boot_def Let_def)
  then have "pic sample_fb x y = 0" for x y by (simp add: pic_def ld32_def)
  then show ?thesis by (simp add: renders_def look_def sample_fb_geometry)
qed

lemma sample_fb_ok: "fb_ok sample_fb"
proof -
  have "grid_ok sample_fb" by (simp add: grid_ok_def screen_mode_def sample_fb_wf sample_fb_geometry)
  then show ?thesis using sample_fb_renders by (simp add: fb_ok_def screen_ok_def blank_behind_def sample_fb_geometry)
qed

text \<open>The same screen with the cursor waiting below its last row.\<close>

lemma sample_fb_low_ok: "fb_ok (sample_fb\<lparr>cur_row := 38\<rparr>)"
proof -
  let ?s = "sample_fb\<lparr>cur_row := 38\<rparr>"
  have "renders X ?s" for X using sample_fb_renders renders_vram [of sample_fb ?s] by simp
  moreover have "fb_wf ?s = fb_wf sample_fb" by (rule same_mode_shape(1)) simp
  then have "grid_ok ?s" by (simp add: grid_ok_def screen_mode_def sample_fb_wf sample_fb_geometry)
  ultimately show ?thesis by (simp add: fb_ok_def screen_ok_def blank_behind_def sample_fb_geometry)
qed

section \<open>The console implements the terminal\<close>

text \<open>
  C19: From a console in order (a well-formed mode of at most 64 rows, the picture showing the text
  buffer in the theme's colours, nothing behind the cursor), \<open>fb_print\<close> of a terminated string
  returns, the console is in order again, the text, the cursor and the colours are those of the abstract
  terminal after typing the string (wrapping at the right margin and scrolling at the bottom), and
  no byte outside the framebuffer has changed.
\<close>

theorem fb_print_refines:
  assumes "fb_ok st" and "terminated chars" and "length chars \<le> 2 ^ 31"
  shows "\<exists>st'. fb_print chars st = Inr st' \<and> fb_ok st' \<and> tty_of st' = t_print (cstr chars) (tty_of st)
    \<and> (\<forall>a. a \<notin> region st \<longrightarrow> vram st' a = vram st a)"
  using fbc.print_does [OF assms] by (auto simp: does_fb)

theorem fb_print_refines_witness:
  "\<exists>st'. fb_print (lit ''> '') sample_fb = Inr st' \<and> fb_ok st' \<and> t_col (tty_of st') = 2
    \<and> t_text (tty_of st') 0 0 = 62"
proof -
  have "cstr (lit ''> '') = [62, 32]" by (simp add: lit_def)
  with fb_print_refines [OF sample_fb_ok terminated_lit, of "''> ''"] obtain st' where
    st': "fb_print (lit ''> '') sample_fb = Inr st'" "fb_ok st'"
      "tty_of st' = t_print [62, 32] (tty_of sample_fb)" by auto
  moreover from st'(3) have "t_col (tty_of st') = 2 \<and> t_text (tty_of st') 0 0 = 62"
    by (simp add: t_print_def t_put_def t_set_def t_fit_def Let_def sample_fb_geometry)
  ultimately show ?thesis by blast
qed

text \<open>
  C20: Likewise for \<open>fb_println\<close>: the line is cut at the right margin, the cursor goes to the start of
  the next row, and the screen scrolls when there is none.
\<close>

theorem fb_println_refines:
  assumes "fb_ok st" and "terminated chars" and "length chars \<le> 2 ^ 31"
  shows "\<exists>st'. fb_println chars st = Inr st' \<and> fb_ok st' \<and> tty_of st' = t_println (cstr chars) (tty_of st)
    \<and> (\<forall>a. a \<notin> region st \<longrightarrow> vram st' a = vram st a)"
  using fbc.println_does [OF assms] by (auto simp: does_fb)

theorem fb_println_refines_witness:
  "\<exists>st'. fb_println (lit ''ok'') sample_fb = Inr st' \<and> fb_ok st' \<and> cursor st' = (0, 1)
    \<and> t_text (tty_of st') 0 1 = 107"
proof -
  have "cstr (lit ''ok'') = [111, 107]" by (simp add: lit_def)
  with fb_println_refines [OF sample_fb_ok terminated_lit, of "''ok''"] obtain st' where
    st': "fb_println (lit ''ok'') sample_fb = Inr st'" "fb_ok st'"
      "tty_of st' = t_println [111, 107] (tty_of sample_fb)" by auto
  from st'(3) have "t_col (tty_of st') = 0 \<and> t_row (tty_of st') = 1 \<and> t_text (tty_of st') 0 1 = 107"
    by (simp add: t_println_def t_fit_def t_set_def Let_def sample_fb_geometry)
  with st'(1,2) show ?thesis by (auto simp: cursor_def)
qed

text \<open>
  C27: Whatever is on the screen, changing the theme redraws it: from any text buffer that is empty
  behind the cursor, \<open>fb_update_theme\<close> returns with a picture that shows every character of the
  buffer in the new colours and with text and cursor unchanged.
\<close>

theorem fb_update_theme_redraws:
  assumes "cursor_ok st"
  shows "\<exists>st'. fb_update_theme fg bg st = Inr st' \<and> fb_ok st' \<and> tty_of st' = t_theme fg bg (tty_of st)
    \<and> (\<forall>a. a \<notin> region st \<longrightarrow> vram st' a = vram st a)"
  using theme_step [OF assms, of fg bg, unfolded console_step_does] by (auto simp: does_fb)

theorem fb_update_theme_redraws_witness:
  "\<exists>st'. fb_update_theme 0x00FF00 0 sample_fb = Inr st' \<and> fb_ok st' \<and> theme_fg st' = 0x00FF00"
proof -
  have "cursor_ok sample_fb" using sample_fb_ok unfolding fb_ok_def by (rule screen_ok_cursor)
  from fb_update_theme_redraws [OF this, of "0x00FF00" 0] show ?thesis
    by (auto simp: tty_of_def t_theme_def)
qed

text \<open>
  Typing one character inside a row and pressing backspace gives back the text, the cursor and
  the colours that were there, with the screen in order again.
\<close>

theorem type_backspace_roundtrip:
  assumes "fb_ok st" and "ch \<noteq> 0" and "cur_col st + 1 < fb_cols st" and "cur_row st < fb_rows st"
  shows "\<exists>st'. fb_print [ch, 0] st = Inr st' \<and> fb_ok (fb_backspace st')
    \<and> tty_of (fb_backspace st') = tty_of st"
proof -
  have "terminated [ch, 0]" "cstr [ch, 0] = [ch]" using assms(2) by (simp_all add: terminated_def)
  with fbc.print_does [OF assms(1), of "[ch, 0]"] obtain st' where st': "fb_print [ch, 0] st = Inr st'"
    "fb_ok st'" "tty_of st' = t_put ch (tty_of st)" by (auto simp: does_fb t_print_def)
  have grid: "cur_col st < fb_cols st" "screen_buf st (unat (cur_row st)) (unat (cur_col st)) = 0"
    using assms(1,4) by (auto simp: fb_ok_def screen_ok_def grid_ok_def blank_behind_def word_less_nat_alt)
  have "unat (cur_col st + 1) = unat (cur_col st) + 1" using unat_inc_u32 [OF grid(1)] .
  then have "t_backspace (t_put ch (tty_of st)) = tty_of st"
    using assms(3,4) grid
    by (simp add: t_put_def t_fit_def t_set_def t_backspace_def Let_def tty_of_def word_less_nat_alt fun_upd_idem)
  moreover have "console_step t_backspace st' (fb_backspace st')"
    using st'(2) by (intro backspace_step) (simp add: fb_ok_def)
  ultimately show ?thesis using st' by (auto simp: console_step_def fb_ok_def)
qed

theorem type_backspace_roundtrip_witness:
  "\<exists>st'. fb_print [104, 0] sample_fb = Inr st' \<and> tty_of (fb_backspace st') = tty_of sample_fb"
  using type_backspace_roundtrip [OF sample_fb_ok, of 104] by (auto simp: sample_fb_geometry)

text \<open>
  The timer's part: \<open>fb_update_cursor\<close> shows the cursor while there was activity in the last 30
  ticks and otherwise every other half second; either way text, cursor and picture are
  untouched apart from the cursor's own empty cell.
\<close>

theorem fb_update_cursor_harmless:
  assumes "fb_ok st"
  shows "fb_ok (fb_update_cursor ticks st) \<and> tty_of (fb_update_cursor ticks st) = tty_of st
    \<and> (\<forall>a. a \<notin> region st \<longrightarrow> vram (fb_update_cursor ticks st) a = vram st a)"
  using update_cursor_step [of st ticks] assms by (simp add: fb_ok_def console_step_def evolves_def)

theorem fb_update_cursor_harmless_witness:
  "fb_ok (fb_update_cursor 75 sample_fb) \<and> tty_of (fb_update_cursor 75 sample_fb) = tty_of sample_fb"
  using fb_update_cursor_harmless [OF sample_fb_ok, of 75] by blast

end
