(* ===== verification/Numfmt.thy ===== *)
theory Numfmt
  imports Kernel_Base
begin

text \<open>
  The number formatters: \<open>uint_to_hex\<close>, \<open>size_to_str\<close> and \<open>uint_to_str\<close> of
  \<open>kernel/memory.c\<close>, \<open>addr_to_str\<close> and \<open>int_to_str\<close> of \<open>kernel/fb.c\<close>. Each fills the
  caller's buffer through checked stores; local arrays start as zero bytes, and no result depends
  on their initial contents.
\<close>

section \<open>Definitions\<close>

text \<open>
  The digit loop \<open>while (n > 0) { tmp[i++] = '0' + n % 10; n /= 10; }\<close> and the copy loop
  \<open>while (i > 0) buf[j++] = tmp[--i];\<close>, which two of the functions share.
\<close>

function digits_loop :: "u32 \<Rightarrow> nat \<Rightarrow> u8 list \<Rightarrow> (nat \<times> u8 list) result" where
  "digits_loop n i tmp =
     (if n > 0 then
        bind_r (store tmp i (ucast (48 + n mod 10))) (\<lambda>tmp. digits_loop (n div 10) (Suc i) tmp)
      else Inr (i, tmp))"
  by pat_completeness auto
termination
  by (relation "measure (\<lambda>(n, i, tmp). unat n)") (auto simp: unat_div word_gt_0 unat_gt_0)

declare digits_loop.simps [simp del]

fun copy_back :: "nat \<Rightarrow> u8 list \<Rightarrow> nat \<Rightarrow> u8 list \<Rightarrow> (nat \<times> u8 list) result" where
  "copy_back 0 tmp j buf = Inr (j, buf)"
| "copy_back (Suc i) tmp j buf =
     bind_r (fetch tmp i) (\<lambda>c. bind_r (store buf j c) (\<lambda>buf. copy_back i tmp (Suc j) buf))"

definition uint_to_str :: "u32 \<Rightarrow> u8 list \<Rightarrow> u8 list result" where
  "uint_to_str n buf =
     (if n = 0 then bind_r (store buf 0 48) (\<lambda>buf. store buf 1 0)
      else
        bind_r (digits_loop n 0 (replicate 11 0)) (\<lambda>(i, tmp).
        bind_r (copy_back i tmp 0 buf) (\<lambda>(j, buf).
        store buf j 0)))"

definition int_to_str :: "s32 \<Rightarrow> u8 list \<Rightarrow> u8 list result" where
  "int_to_str n buf =
     (if n = 0 then bind_r (store buf 0 48) (\<lambda>buf. store buf 1 0)
      else
        bind_r (if sint n < 0
                then bind_r (store buf 0 45) (\<lambda>buf.
                  if sint n = - (2 ^ 31) then Inl Signed_overflow else Inr (1, - n, buf))
                else Inr (0, n, buf)) (\<lambda>(j, n, buf).
        bind_r (digits_loop n 0 (replicate 11 0)) (\<lambda>(i, tmp).
        bind_r (copy_back i tmp j buf) (\<lambda>(j, buf).
        store buf j 0))))"

definition hex_digits :: "u8 list" where
  "hex_digits = lit ''0123456789ABCDEF''"

text \<open>\<open>for (int i = 9; i >= 2; i--)\<close>: the first argument counts the iterations left.\<close>

fun hex_loop :: "nat \<Rightarrow> u32 \<Rightarrow> u8 list \<Rightarrow> u8 list result" where
  "hex_loop 0 n buf = Inr buf"
| "hex_loop (Suc k) n buf =
     bind_r (fetch hex_digits (unat (n AND 15))) (\<lambda>c.
     bind_r (store buf (k + 2) c) (\<lambda>buf. hex_loop k (drop_bit 4 n) buf))"

definition uint_to_hex :: "u32 \<Rightarrow> u8 list \<Rightarrow> u8 list result" where
  "uint_to_hex n buf =
     bind_r (store buf 0 48) (\<lambda>buf.
     bind_r (store buf 1 120) (\<lambda>buf.
     bind_r (hex_loop 8 n buf) (\<lambda>buf.
     store buf 10 0)))"

text \<open>\<open>for (int i = 15; i >= 0; i--)\<close>.\<close>

fun addr_loop :: "nat \<Rightarrow> u64 \<Rightarrow> u8 list \<Rightarrow> u8 list result" where
  "addr_loop 0 addr buf = Inr buf"
| "addr_loop (Suc i) addr buf =
     (let nibble = (ucast (addr AND 15) :: u8)
      in bind_r (store buf (2 + i) (if nibble < 10 then 48 + nibble else 97 + nibble - 10))
           (\<lambda>buf. addr_loop i (drop_bit 4 addr) buf))"

definition addr_to_str :: "u64 \<Rightarrow> u8 list \<Rightarrow> u8 list result" where
  "addr_to_str addr buf =
     bind_r (store buf 0 48) (\<lambda>buf.
     bind_r (store buf 1 120) (\<lambda>buf.
     bind_r (addr_loop 16 addr buf) (\<lambda>buf.
     store buf 18 0)))"

text \<open>\<open>while ( *num) *p++ = *num++;\<close> of \<open>size_to_str\<close>: the index of \<open>p\<close> and the buffer.\<close>

fun copy_str :: "u8 list \<Rightarrow> nat \<Rightarrow> u8 list \<Rightarrow> (nat \<times> u8 list) result" where
  "copy_str [] p buf = Inl Out_of_bounds"
| "copy_str (c # num) p buf =
     (if c \<noteq> 0 then bind_r (store buf p c) (\<lambda>buf. copy_str num (Suc p) buf) else Inr (p, buf))"

definition size_to_str :: "u64 \<Rightarrow> u8 list \<Rightarrow> u8 list result" where
  "size_to_str bytes buf =
     (let kb = (ucast (bytes div 1024) :: u32)
      in bind_r (uint_to_str (if kb \<ge> 1024 then kb div 1024 else kb) (replicate 11 0)) (\<lambda>num.
         bind_r (copy_str num 0 buf) (\<lambda>(p, buf).
         bind_r (store buf p 32) (\<lambda>buf.
         bind_r (store buf (p + 1) (if kb \<ge> 1024 then 77 else 75)) (\<lambda>buf.
         bind_r (store buf (p + 2) 66) (\<lambda>buf.
         store buf (p + 3) 0))))))"

section \<open>Decimal numerals\<close>

text \<open>The reference: the decimal digits of a number, most significant first, in ASCII.\<close>

fun dec_str :: "nat \<Rightarrow> u8 list" where
  "dec_str n = (if n < 10 then [of_nat (48 + n)] else dec_str (n div 10) @ [of_nat (48 + n mod 10)])"

declare dec_str.simps [simp del]

text \<open>The value of a digit string, most significant first.\<close>

definition dec_value :: "u8 list \<Rightarrow> nat" where
  "dec_value ds = foldl (\<lambda>v d. 10 * v + (unat d - 48)) 0 ds"

lemma dec_value_snoc: "dec_value (ds @ [d]) = 10 * dec_value ds + (unat d - 48)"
  by (simp add: dec_value_def)

lemma unat_digit: "k < 10 \<Longrightarrow> unat (of_nat (48 + k) :: u8) = 48 + k"
  by (simp add: unat_of_nat take_bit_nat_eq_self del: of_nat_add)

lemma dec_value_dec_str [simp]: "dec_value (dec_str n) = n"
proof (induction n rule: dec_str.induct)
  case (1 n)
  show ?case
  proof (cases "n < 10")
    case True
    then show ?thesis
      by (subst dec_str.simps) (simp add: dec_value_def unat_digit del: of_nat_add)
  next
    case False
    with 1 have "dec_value (dec_str (n div 10)) = n div 10" by simp
    with False show ?thesis
      by (subst dec_str.simps) (simp add: dec_value_snoc unat_digit del: of_nat_add)
  qed
qed

lemma dec_str_digits: "d \<in> set (dec_str n) \<Longrightarrow> 48 \<le> unat d \<and> unat d \<le> 57"
proof (induction n rule: dec_str.induct)
  case (1 n)
  have "unat (of_nat (48 + n mod 10) :: u8) = 48 + n mod 10" by (rule unat_digit) simp
  moreover have "n mod 10 < 10" by simp
  ultimately show ?case
    using 1 by (subst (asm) dec_str.simps [of n])
      (auto simp: unat_digit simp del: of_nat_add split: if_splits)
qed

lemma dec_str_no_nul [simp]: "0 \<notin> set (dec_str n)"
  using dec_str_digits [of 0 n] by auto

lemma length_dec_str: "n < 10 ^ Suc k \<Longrightarrow> length (dec_str n) \<le> Suc k"
proof (induction k arbitrary: n)
  case 0
  then show ?case by (subst dec_str.simps) simp
next
  case (Suc k)
  then have "n div 10 < 10 ^ Suc k" by (simp add: less_mult_imp_div_less)
  from Suc.IH [OF this] show ?case by (subst dec_str.simps) simp
qed

lemma length_dec_str_pos: "0 < length (dec_str n)"
  by (subst dec_str.simps) simp

section \<open>The loops\<close>

lemma digit_word: "ucast (48 + n mod 10 :: u32) = (of_nat (48 + unat n mod 10) :: u8)"
proof (rule word_unat_eq_iff [THEN iffD2])
  have "unat n mod 10 < 10" by simp
  then show "unat (ucast (48 + n mod 10 :: u32) :: u8) = unat (of_nat (48 + unat n mod 10) :: u8)"
    by (simp add: unat_digit unat_ucast_small unat_add_u32 unat_mod del: of_nat_add)
qed

lemma digits_loop_correct:
  "0 < n \<Longrightarrow> i + length (dec_str (unat n)) \<le> length tmp \<Longrightarrow>
    digits_loop n i tmp =
      Inr (i + length (dec_str (unat n)), overwrite tmp i (rev (dec_str (unat n))))"
proof (induction n i tmp rule: digits_loop.induct)
  case (1 n i tmp)
  let ?c = "of_nat (48 + unat n mod 10) :: u8"
  from "1.prems" have i: "i < length tmp"
    using length_dec_str_pos [of "unat n"] by linarith
  have step: "digits_loop n i tmp = digits_loop (n div 10) (Suc i) (tmp[i := ?c])"
    using "1.prems"(1) i by (subst digits_loop.simps) (simp add: digit_word)
  have d10: "unat (n div 10) = unat n div 10" by (simp add: unat_div)
  show ?case
  proof (cases "unat n < 10")
    case True
    then have "n div 10 = 0" using d10 by (metis div_less unat_0 word_unat_eq_iff)
    with True step show ?thesis
      using i by (simp add: digits_loop.simps [of 0] dec_str.simps [of "unat n"]
          overwrite_Cons [symmetric] del: of_nat_add)
  next
    case False
    then have ds: "dec_str (unat n) = dec_str (unat (n div 10)) @ [?c]"
      using d10 by (subst dec_str.simps) simp
    have pos: "0 < n div 10" using False d10 by (simp add: word_gt_0 word_unat_eq_iff)
    have "Suc i + length (dec_str (unat (n div 10))) \<le> length (tmp[i := ?c])"
      using "1.prems"(2) ds by simp
    then show ?thesis
      using step "1.IH" [OF "1.prems"(1) _ pos, of "tmp[i := ?c]"] i ds
      by (simp add: digit_word overwrite_Cons del: of_nat_add)
  qed
qed

lemma copy_back_correct:
  "i \<le> length tmp \<Longrightarrow> j + i \<le> length buf \<Longrightarrow>
    copy_back i tmp j buf = Inr (j + i, overwrite buf j (rev (take i tmp)))"
proof (induction i arbitrary: j buf)
  case 0
  then show ?case by simp
next
  case (Suc i)
  then show ?case by (simp add: overwrite_Cons take_Suc_conv_app_nth)
qed

lemma length_dec_str_u32: "length (dec_str (unat (n :: u32))) \<le> 10"
  using length_dec_str [of "unat n" 9] unat_less_32 [of n] by simp

lemma digits_copied:
  assumes "0 < n" and "j + length (dec_str (unat n)) < length buf"
  shows "bind_r (digits_loop n 0 (replicate 11 0)) (\<lambda>(i, tmp).
      bind_r (copy_back i tmp j buf) (\<lambda>(j, buf). store buf j 0))
    = Inr (overwrite buf j (dec_str (unat n) @ [0]))"
proof -
  let ?ds = "dec_str (unat n)"
  have len: "length ?ds \<le> 10" by (rule length_dec_str_u32)
  then have "digits_loop n 0 (replicate 11 0)
      = Inr (length ?ds, overwrite (replicate 11 0) 0 (rev ?ds))"
    using assms(1) by (simp add: digits_loop_correct)
  moreover have "copy_back (length ?ds) (overwrite (replicate 11 0) 0 (rev ?ds)) j buf
      = Inr (j + length ?ds, overwrite buf j ?ds)"
    using len assms(2) by (subst copy_back_correct) (simp_all add: overwrite_def)
  moreover have "store (overwrite buf j ?ds) (j + length ?ds) 0 = Inr (overwrite buf j (?ds @ [0]))"
    using assms(2) by (simp add: overwrite_snoc)
  ultimately show ?thesis by simp
qed

section \<open>Decimal output\<close>

lemma store_zero_str:
  "1 < length buf \<Longrightarrow> bind_r (store buf 0 48) (\<lambda>buf. store buf 1 0) =
    Inr (overwrite buf 0 (dec_str 0 @ [0]))"
  by (cases buf; cases "tl buf") (auto simp: dec_str.simps [of 0] overwrite_def)

lemma uint_to_str_fits:
  assumes "11 \<le> length buf"
  shows "uint_to_str n buf = Inr (overwrite buf 0 (dec_str (unat n) @ [0]))"
proof (cases "n = 0")
  case True
  then show ?thesis using assms store_zero_str [of buf] by (simp add: uint_to_str_def)
next
  case False
  then have "0 < n" by (simp add: word_gt_0)
  with assms False digits_copied [of n 0 buf] length_dec_str_u32 [of n] show ?thesis
    by (simp add: uint_to_str_def)
qed

text \<open>
  with a buffer of 11 bytes, \<open>uint_to_str\<close> never leaves its own \<open>tmp[11]\<close> nor the buffer;
  it writes a string at the start of the buffer and nothing behind its terminator, the string has
  at most ten characters, all decimal digits, and it reads back as the argument.
\<close>

theorem uint_to_str_roundtrip:
  assumes "11 \<le> length buf"
  shows "\<exists>ds. uint_to_str n buf = Inr (overwrite buf 0 (ds @ [0]))
    \<and> length ds \<le> 10 \<and> (\<forall>d \<in> set ds. 48 \<le> unat d \<and> unat d \<le> 57) \<and> dec_value ds = unat n"
  using uint_to_str_fits [OF assms, of n] length_dec_str_u32 [of n] dec_str_digits
  by (intro exI [of _ "dec_str (unat n)"]) auto

theorem uint_to_str_roundtrip_witness:
  "\<exists>ds. uint_to_str 4096 (replicate 11 7) = Inr (overwrite (replicate 11 7) 0 (ds @ [0]))
    \<and> dec_value ds = 4096"
  using uint_to_str_roundtrip [of "replicate 11 7" 4096] by auto

lemma int_to_str_fits:
  assumes "12 \<le> length buf"
  shows "int_to_str n buf =
    (if sint n = - (2 ^ 31) then Inl Signed_overflow
     else if sint n < 0 then Inr (overwrite buf 0 (45 # dec_str (nat (- sint n)) @ [0]))
     else Inr (overwrite buf 0 (dec_str (nat (sint n)) @ [0])))"
proof (cases "n = 0")
  case True
  then show ?thesis using assms store_zero_str [of buf] by (simp add: int_to_str_def)
next
  case False
  show ?thesis
  proof (cases "sint n < 0")
    case True
    show ?thesis
    proof (cases "sint n = - (2 ^ 31)")
      case minimum: True
      moreover have "buf \<noteq> []" using assms by auto
      ultimately show ?thesis using False True by (simp add: int_to_str_def)
    next
      case no_minimum: False
      have "unat (- n) = nat (- sint n)" using True no_minimum by (rule unat_uminus_s32)
      moreover from this True have "0 < - n" by (metis False neg_equal_0_iff_equal word_gt_0)
      moreover have "buf \<noteq> []" using assms by auto
      ultimately show ?thesis
        using False True no_minimum assms digits_copied [of "- n" 1 "buf[0 := 45]"]
          length_dec_str_u32 [of "- n"]
        by (simp add: int_to_str_def overwrite_Cons)
    qed
  next
    case nonneg: False
    have "unat n = nat (sint n)" using nonneg by (intro unat_sint_s32) simp
    with False nonneg assms digits_copied [of n 0 buf] length_dec_str_u32 [of n] show ?thesis
      by (simp add: int_to_str_def word_gt_0)
  qed
qed

text \<open>The number a decimal string with an optional minus sign denotes.\<close>

definition signed_dec_value :: "u8 list \<Rightarrow> int" where
  "signed_dec_value ds =
    (if ds \<noteq> [] \<and> hd ds = 45 then - int (dec_value (tl ds)) else int (dec_value ds))"

lemma signed_dec_value_dec_str [simp]:
  "signed_dec_value (dec_str k) = int k"
  "signed_dec_value (45 # dec_str k) = - int k"
proof -
  have "hd (dec_str k) \<in> set (dec_str k)" using length_dec_str_pos [of k] by simp
  then have "hd (dec_str k) \<noteq> 45" using dec_str_digits [of "hd (dec_str k)" k] by auto
  then show "signed_dec_value (dec_str k) = int k" by (simp add: signed_dec_value_def)
qed (simp add: signed_dec_value_def)

text \<open>
  C39: with a buffer of 12 bytes, \<open>int_to_str\<close> writes a terminated string that reads back as the
  signed argument, for every \<open>int\<close> except \<open>INT_MIN\<close>, whose negation \<open>n = -n\<close> overflows.
\<close>

theorem int_to_str_roundtrip:
  assumes "12 \<le> length buf"
  shows "if sint n = - (2 ^ 31) then int_to_str n buf = Inl Signed_overflow
    else \<exists>ds. int_to_str n buf = Inr (overwrite buf 0 (ds @ [0])) \<and> signed_dec_value ds = sint n"
proof -
  have "signed_dec_value (45 # dec_str (nat (- sint n))) = sint n" if "sint n < 0"
    using that by simp
  moreover have "signed_dec_value (dec_str (nat (sint n))) = sint n" if "\<not> sint n < 0"
    using that by simp
  ultimately show ?thesis using int_to_str_fits [OF assms, of n] by (metis append_Cons)
qed

theorem int_to_str_roundtrip_witness:
  "(\<exists>ds. int_to_str (- 7) (replicate 12 1) = Inr (overwrite (replicate 12 1) 0 (ds @ [0]))
      \<and> signed_dec_value ds = - 7)
    \<and> int_to_str 0x80000000 (replicate 12 1) = Inl Signed_overflow"
  using int_to_str_roundtrip [of "replicate 12 1" "- 7"]
    int_to_str_roundtrip [of "replicate 12 1" "0x80000000"]
  by simp

section \<open>Hexadecimal output\<close>

text \<open>The reference: the \<open>k\<close> low hexadecimal digits of \<open>n\<close>, most significant first.\<close>

fun hex_str :: "(nat \<Rightarrow> u8) \<Rightarrow> nat \<Rightarrow> nat \<Rightarrow> u8 list" where
  "hex_str dig 0 n = []"
| "hex_str dig (Suc k) n = hex_str dig k (n div 16) @ [dig (n mod 16)]"

definition upper_digit :: "nat \<Rightarrow> u8" where
  "upper_digit d = of_nat (if d < 10 then 48 + d else 55 + d)"

definition lower_digit :: "nat \<Rightarrow> u8" where
  "lower_digit d = of_nat (if d < 10 then 48 + d else 87 + d)"

definition hex_digit_value :: "u8 \<Rightarrow> nat" where
  "hex_digit_value c = (if 97 \<le> unat c then unat c - 87 else if 65 \<le> unat c then unat c - 55
     else unat c - 48)"

definition hex_value :: "u8 list \<Rightarrow> nat" where
  "hex_value ds = foldl (\<lambda>v d. 16 * v + hex_digit_value d) 0 ds"

lemma length_hex_str [simp]: "length (hex_str dig k n) = k"
  by (induction k arbitrary: n) auto

lemma hex_digit_values:
  "d < 16 \<Longrightarrow> hex_digit_value (upper_digit d) = d"
  "d < 16 \<Longrightarrow> hex_digit_value (lower_digit d) = d"
  by (auto simp: hex_digit_value_def upper_digit_def lower_digit_def unat_of_nat
      take_bit_nat_eq_self simp del: of_nat_add)

lemma hex_value_hex_str:
  assumes "\<And>d. d < 16 \<Longrightarrow> hex_digit_value (dig d) = d"
  shows "n < 16 ^ k \<Longrightarrow> hex_value (hex_str dig k n) = n"
proof (induction k arbitrary: n)
  case 0
  then show ?case by (simp add: hex_value_def)
next
  case (Suc k)
  then have "n div 16 < 16 ^ k" by (simp add: less_mult_imp_div_less)
  from Suc.IH [OF this] assms [of "n mod 16"] show ?case by (simp add: hex_value_def)
qed

lemma unat_low_nibble_32: "unat (w AND 15 :: u32) = unat w mod 16"
proof -
  have "w AND 15 = take_bit 4 w" by (simp add: take_bit_eq_mask mask_eq_exp_minus_1)
  then show ?thesis by (simp only: unsigned_take_bit_eq) (simp add: take_bit_eq_mod)
qed

lemma unat_low_nibble_64: "unat (w AND 15 :: u64) = unat w mod 16"
proof -
  have "w AND 15 = take_bit 4 w" by (simp add: take_bit_eq_mask mask_eq_exp_minus_1)
  then show ?thesis by (simp only: unsigned_take_bit_eq) (simp add: take_bit_eq_mod)
qed

lemma unat_shift_nibble: "unat (drop_bit 4 w :: 'a::len word) = unat w div 16"
  by (simp only: unat_drop_bit_eq) (simp add: drop_bit_eq_div)

lemma hex_digits_upper: "hex_digits = map upper_digit [0..<16] @ [0]"
  by (simp add: hex_digits_def lit_def upper_digit_def upt_conv_Cons)

lemma hex_digits_nth: "d < 16 \<Longrightarrow> fetch hex_digits d = Inr (upper_digit d)"
  by (simp add: hex_digits_upper nth_append)

lemma hex_loop_correct:
  "k + 2 \<le> length buf \<Longrightarrow> hex_loop k n buf = Inr (overwrite buf 2 (hex_str upper_digit k (unat n)))"
proof (induction k arbitrary: n buf)
  case 0
  then show ?case by simp
next
  case (Suc k)
  have "fetch hex_digits (unat (n AND 15)) = Inr (upper_digit (unat n mod 16))"
    by (simp only: unat_low_nibble_32) (simp add: hex_digits_nth)
  moreover have "k + 2 < length buf" using Suc.prems by simp
  ultimately show ?case
    using Suc.IH [of "buf[k + 2 := upper_digit (unat n mod 16)]" "drop_bit 4 n"]
      overwrite_update_end [of 2 "hex_str upper_digit k (unat n div 16)" buf]
    by (simp add: unat_shift_nibble add.commute)
qed

lemma addr_digit:
  "(let nibble = (ucast (addr AND 15 :: u64) :: u8)
    in if nibble < 10 then 48 + nibble else 97 + nibble - 10) = lower_digit (unat addr mod 16)"
proof -
  define d where "d = unat addr mod 16"
  have d: "d < 16" by (simp add: d_def)
  have "unat (ucast (addr AND 15) :: u8) = d"
    using d unat_low_nibble_64 [of addr] by (subst unat_ucast_small) (simp_all add: d_def)
  then have nib: "(ucast (addr AND 15) :: u8) = of_nat d" by (metis of_nat_unat ucast_id)
  have "(of_nat d :: u8) < 10 \<longleftrightarrow> d < 10"
    using d by (simp add: word_less_nat_alt unat_of_nat take_bit_nat_eq_self)
  then show ?thesis by (simp add: nib lower_digit_def flip: d_def)
qed

lemma addr_loop_correct:
  "k + 2 \<le> length buf \<Longrightarrow>
    addr_loop k a buf = Inr (overwrite buf 2 (hex_str lower_digit k (unat a)))"
proof (induction k arbitrary: a buf)
  case 0
  then show ?case by simp
next
  case (Suc k)
  have step: "addr_loop (Suc k) a buf =
      addr_loop k (drop_bit 4 a) (buf[k + 2 := lower_digit (unat a mod 16)])"
    using Suc.prems addr_digit [of a] by (simp add: Let_def add.commute)
  show ?case
    using Suc step Suc.IH [of "buf[k + 2 := lower_digit (unat a mod 16)]" "drop_bit 4 a"]
      overwrite_update_end [of 2 "hex_str lower_digit k (unat a div 16)" buf]
    by (simp add: unat_shift_nibble add.commute)
qed

text \<open>The common frame of the two hexadecimal formatters: the prefix, the digits, the terminator.\<close>

lemma hex_frame:
  assumes "k + 2 < length buf" and "length ds = k"
    and "\<And>b. length b = length buf \<Longrightarrow> loop b = Inr (overwrite b 2 ds)"
  shows "bind_r (store buf 0 48) (\<lambda>buf. bind_r (store buf 1 120) (\<lambda>buf.
      bind_r (loop buf) (\<lambda>buf. store buf (k + 2) 0))) = Inr (overwrite buf 0 (48 # 120 # ds @ [0]))"
proof -
  have "buf \<noteq> []" using assms(1) by auto
  then have "store buf 0 48 = Inr (buf[0 := 48])" by simp
  moreover have "store (buf[0 := 48]) 1 120 = Inr (overwrite buf 0 [48, 120])"
    using assms(1) by (cases buf; cases "tl buf") (auto simp: overwrite_def)
  moreover have "loop (overwrite buf 0 [48, 120]) = Inr (overwrite buf 0 (48 # 120 # ds))"
    using assms overwrite_prefix [of "[48, 120]" ds buf] by (simp add: numeral_2_eq_2)
  moreover have "store (overwrite buf 0 (48 # 120 # ds)) (k + 2) 0
      = Inr (overwrite buf 0 (48 # 120 # ds @ [0]))"
    using assms(1,2) store_append [of "48 # 120 # ds" buf 0] by simp
  ultimately show ?thesis by simp
qed

text \<open>
  \<open>uint_to_hex\<close> writes \<open>0x\<close>, the eight upper-case digits and a terminator into 11 bytes, and
  the digits read back as the argument.
\<close>

theorem uint_to_hex_roundtrip:
  assumes "11 \<le> length buf"
  shows "\<exists>ds. uint_to_hex n buf = Inr (overwrite buf 0 (48 # 120 # ds @ [0]))
    \<and> length ds = 8 \<and> hex_value ds = unat n"
proof (intro exI conjI)
  let ?ds = "hex_str upper_digit 8 (unat n)"
  show "uint_to_hex n buf = Inr (overwrite buf 0 (48 # 120 # ?ds @ [0]))"
    using assms hex_frame [of 8 buf ?ds "hex_loop 8 n"]
    by (simp add: uint_to_hex_def hex_loop_correct)
  show "hex_value ?ds = unat n"
    using unat_less_32 [of n] by (intro hex_value_hex_str) (simp_all add: hex_digit_values)
qed simp

theorem uint_to_hex_roundtrip_witness:
  "\<exists>ds. uint_to_hex 0xBEEF (replicate 11 1) = Inr (overwrite (replicate 11 1) 0 (48 # 120 # ds @ [0]))
    \<and> length ds = 8 \<and> hex_value ds = 48879"
  using uint_to_hex_roundtrip [of "replicate 11 1" "0xBEEF"] by simp

definition addr_digits :: "u64 \<Rightarrow> u8 list" where
  "addr_digits a = hex_str lower_digit 16 (unat a)"

lemma lower_digit_no_nul: "d < 16 \<Longrightarrow> lower_digit d \<noteq> 0"
  by (auto simp: lower_digit_def word_unat_eq_iff unat_of_nat take_bit_nat_eq_self simp del: of_nat_add)

lemma addr_digits_no_nul: "0 \<notin> set (addr_digits a)" "length (addr_digits a) = 16"
proof -
  have "0 \<notin> set (hex_str lower_digit k n)" for k n
    by (induction k arbitrary: n) (simp_all add: lower_digit_no_nul [symmetric])
  then show "0 \<notin> set (addr_digits a)" "length (addr_digits a) = 16" by (simp_all add: addr_digits_def)
qed

lemma addr_to_str_fits:
  assumes "19 \<le> length buf"
  shows "addr_to_str a buf = Inr (overwrite buf 0 (48 # 120 # addr_digits a @ [0]))"
  using assms hex_frame [of 16 buf "addr_digits a" "addr_loop 16 a"]
  by (simp add: addr_to_str_def addr_loop_correct addr_digits_def)

text \<open>
  \<open>addr_to_str\<close> writes \<open>0x\<close>, the sixteen lower-case digits and a terminator into 19 bytes (the
  page-fault handler passes 20), and the digits read back as the address.
\<close>

theorem addr_to_str_roundtrip:
  assumes "19 \<le> length buf"
  shows "\<exists>ds. addr_to_str a buf = Inr (overwrite buf 0 (48 # 120 # ds @ [0]))
    \<and> length ds = 16 \<and> hex_value ds = unat a"
proof (intro exI conjI)
  show "addr_to_str a buf = Inr (overwrite buf 0 (48 # 120 # addr_digits a @ [0]))"
    by (rule addr_to_str_fits [OF assms])
  show "hex_value (addr_digits a) = unat a"
    using unsigned_less [of a, where 'a = nat] unfolding addr_digits_def
    by (intro hex_value_hex_str) (simp_all add: hex_digit_values)
qed (simp add: addr_digits_def)

theorem addr_to_str_roundtrip_witness:
  "\<exists>ds. addr_to_str 0xFD000000 (replicate 20 1)
      = Inr (overwrite (replicate 20 1) 0 (48 # 120 # ds @ [0]))
    \<and> length ds = 16 \<and> hex_value ds = 0xFD000000"
  using addr_to_str_roundtrip [of "replicate 20 1" "0xFD000000"] by simp

section \<open>Sizes\<close>

lemma copy_str_correct:
  "terminated num \<Longrightarrow> p + length (cstr num) \<le> length buf \<Longrightarrow>
    copy_str num p buf = Inr (p + length (cstr num), overwrite buf p (cstr num))"
  by (induction num p buf rule: copy_str.induct) (auto simp: terminated_def overwrite_Cons)

text \<open>The text \<open>size_to_str\<close> is to produce for a number of kilobytes.\<close>

definition size_text :: "nat \<Rightarrow> u8 list" where
  "size_text kb = (if 1024 \<le> kb then dec_str (kb div 1024) @ [32, 77, 66] else dec_str kb @ [32, 75, 66])"

lemma length_size_text:
  assumes "kb < 2 ^ 32"
  shows "length (size_text kb) \<le> 10"
proof -
  have "length (dec_str (kb div 1024)) \<le> 7"
    using assms length_dec_str [of "kb div 1024" 6] by (simp add: less_mult_imp_div_less)
  moreover have "length (dec_str kb) \<le> 4" if "kb < 1024"
    using that length_dec_str [of kb 3] by simp
  ultimately show ?thesis by (auto simp: size_text_def)
qed

text \<open>
  \<open>size_to_str\<close> prints the number of whole KiB (kept to 32 bits) as \<open>"N MB"\<close> from 1024 KiB
  on and as \<open>"N KB"\<close> below; 11 bytes hold every result, one fewer than the header asks for.
\<close>

theorem size_to_str_correct:
  assumes "11 \<le> length buf"
  shows "size_to_str bytes buf
    = Inr (overwrite buf 0 (size_text (unat bytes div 1024 mod 2 ^ 32) @ [0]))"
proof -
  define kb :: u32 where "kb = ucast (bytes div 1024)"
  define n where "n = (if kb \<ge> 1024 then kb div 1024 else kb)"
  define ds where "ds = dec_str (unat n)"
  define unit where "unit = (if kb \<ge> 1024 then 77 else 75 :: u8)"
  have kb: "unat kb = unat bytes div 1024 mod 2 ^ 32"
    by (simp add: kb_def unsigned_ucast_eq take_bit_eq_mod unat_div)
  have shown: "ds @ [32, unit, 66] = size_text (unat kb)"
    by (auto simp: ds_def n_def unit_def size_text_def unat_div word_le_nat_alt)
  have "length (ds @ [32, unit, 66]) \<le> 10"
    unfolding shown using unat_less_32 [of kb] by (intro length_size_text) simp
  then have len: "length ds + 3 \<le> 10" by simp
  have num: "uint_to_str n (replicate 11 0) = Inr (ds @ 0 # replicate (10 - length ds) 0)"
    using uint_to_str_fits [of "replicate 11 0" n] len by (simp add: overwrite_def ds_def)
  have "copy_str (ds @ 0 # replicate (10 - length ds) 0) 0 buf
      = Inr (length ds, overwrite buf 0 ds)"
    using copy_str_correct [of "ds @ 0 # replicate (10 - length ds) 0" 0 buf] len assms
    by (simp add: ds_def)
  moreover have "store (overwrite buf 0 ds) (length ds) 32 = Inr (overwrite buf 0 (ds @ [32]))"
    "store (overwrite buf 0 (ds @ [32])) (length ds + 1) unit = Inr (overwrite buf 0 (ds @ [32, unit]))"
    "store (overwrite buf 0 (ds @ [32, unit])) (length ds + 2) 66
      = Inr (overwrite buf 0 (ds @ [32, unit, 66]))"
    "store (overwrite buf 0 (ds @ [32, unit, 66])) (length ds + 3) 0
      = Inr (overwrite buf 0 (ds @ [32, unit, 66, 0]))"
    using store_append [of ds buf 32] store_append [of "ds @ [32]" buf unit]
      store_append [of "ds @ [32, unit]" buf 66] store_append [of "ds @ [32, unit, 66]" buf 0]
      len assms by (simp_all add: numeral_2_eq_2 numeral_3_eq_3)
  ultimately have "size_to_str bytes buf = Inr (overwrite buf 0 (ds @ [32, unit, 66, 0]))"
    using num by (simp add: size_to_str_def Let_def kb_def [symmetric] n_def [symmetric]
        unit_def [symmetric])
  then show ?thesis using shown kb by (metis append.assoc append_Cons append_Nil)
qed

theorem size_to_str_correct_witness:
  "size_to_str 0x200000 (replicate 11 1) = Inr (overwrite (replicate 11 1) 0 [50, 32, 77, 66, 0])"
  using size_to_str_correct [of "replicate 11 1" "0x200000"]
  by (simp add: size_text_def dec_str.simps [of 2])

end
