(* ===== verification/Pmm.thy ===== *)
theory Pmm
  imports Multiboot
begin

text \<open>
  The physical memory manager \<open>kernel/pmm.c\<close>: the page bitmap, its initialisation from the
  Multiboot memory map, and the page allocator. The static array \<open>bitmap[32768]\<close> is a function of
  the word index with the bound checked at every access; the counters are \<open>uint32_t\<close>.

  Two interfaces are stated as locales and interpreted on the code's model: \<open>bit_table\<close> (the
  bitmap as the allocator sees it) and \<open>page_source\<close> (the allocator as the heap sees it).
\<close>

section \<open>State and operations\<close>

record pmm =
  bitmap :: "u32 \<Rightarrow> u32"
  pages_num :: u32
  free_pages :: u32

definition bitmap_set :: "u32 \<Rightarrow> pmm \<Rightarrow> pmm result" where
  "bitmap_set page p =
     (if page div 32 < 32768
      then Inr (p\<lparr>bitmap := (bitmap p)(page div 32 :=
             bitmap p (page div 32) OR push_bit (unat (page mod 32)) 1)\<rparr>)
      else Inl Out_of_bounds)"

definition bitmap_clear :: "u32 \<Rightarrow> pmm \<Rightarrow> pmm result" where
  "bitmap_clear page p =
     (if page div 32 < 32768
      then Inr (p\<lparr>bitmap := (bitmap p)(page div 32 :=
             bitmap p (page div 32) AND NOT (push_bit (unat (page mod 32)) 1))\<rparr>)
      else Inl Out_of_bounds)"

definition bitmap_test :: "u32 \<Rightarrow> pmm \<Rightarrow> u32 result" where
  "bitmap_test page p =
     (if page div 32 < 32768
      then Inr (bitmap p (page div 32) AND push_bit (unat (page mod 32)) 1)
      else Inl Out_of_bounds)"

text \<open>The static variables at boot: all zero.\<close>

definition pmm_boot :: pmm where
  "pmm_boot = \<lparr>bitmap = (\<lambda>_. 0), pages_num = 0, free_pages = 0\<rparr>"

text \<open>The bodies of the two counting loops of \<open>pmm_init\<close>.\<close>

definition add_free_page :: "pmm \<Rightarrow> pmm result" where
  "add_free_page p =
     bind_r (bitmap_clear (pages_num p) p) (\<lambda>p.
     Inr (p\<lparr>pages_num := pages_num p + 1, free_pages := free_pages p + 1\<rparr>))"

definition add_used_page :: "pmm \<Rightarrow> pmm result" where
  "add_used_page p =
     bind_r (bitmap_set (pages_num p) p) (\<lambda>p. Inr (p\<lparr>pages_num := pages_num p + 1\<rparr>))"

text \<open>One memory-map entry; \<open>byte_size\<close> is a \<open>uint32_t\<close>, so the 64-bit length is cut off.\<close>

definition add_region :: "u64 \<Rightarrow> u32 \<Rightarrow> pmm \<Rightarrow> pmm result" where
  "add_region len ty p =
     (let byte_size = (ucast len :: u32)
      in if ty = 1 then for_r (unat (byte_size div 4096)) (\<lambda>i. add_free_page) p
         else for_r (unat (byte_size div 4096)) (\<lambda>i. add_used_page) p)"

partial_function (option) pmm_init_loop ::
  "memory \<Rightarrow> u64 \<Rightarrow> u64 \<Rightarrow> pmm \<Rightarrow> pmm result option" where
  "pmm_init_loop m mbi entry p =
     (if entry \<noteq> 0 then
        case add_region (entry_length m entry) (entry_type m entry) p of
          Inl e \<Rightarrow> Some (Inl e)
        | Inr p \<Rightarrow> Option.bind (mmap_next m mbi entry) (\<lambda>entry. pmm_init_loop m mbi entry p)
      else Some (Inr p))"

definition pmm_init :: "memory \<Rightarrow> u64 \<Rightarrow> pmm \<Rightarrow> pmm result option" where
  "pmm_init m mbi p =
     Option.bind (mmap_first m mbi) (\<lambda>entry.
       pmm_init_loop m mbi entry (p\<lparr>pages_num := 0, free_pages := 0\<rparr>))"

function pmm_alloc_from :: "u32 \<Rightarrow> pmm \<Rightarrow> (u64 \<times> pmm) result" where
  "pmm_alloc_from i p =
     (if i < pages_num p then
        bind_r (bitmap_test i p) (\<lambda>used.
          if used = 0 then
            bind_r (bitmap_set i p) (\<lambda>p.
            Inr (ucast (i * 4096), p\<lparr>free_pages := free_pages p - 1\<rparr>))
          else pmm_alloc_from (i + 1) p)
      else Inr (0, p))"
  by pat_completeness auto
termination
  by (relation "measure (\<lambda>(i, p). unat (pages_num p) - unat i)")
    (auto simp: unat_inc_u32, simp add: word_less_nat_alt)

declare pmm_alloc_from.simps [simp del]

definition pmm_alloc :: "pmm \<Rightarrow> (u64 \<times> pmm) result" where
  "pmm_alloc p = pmm_alloc_from 0 p"

definition pmm_free :: "u64 \<Rightarrow> pmm \<Rightarrow> pmm result" where
  "pmm_free addr p =
     bitmap_clear ((ucast addr :: u32) div 4096) (p\<lparr>free_pages := free_pages p + 1\<rparr>)"

definition pmm_get_total_pages :: "pmm \<Rightarrow> u32" where
  "pmm_get_total_pages p = pages_num p"

definition pmm_get_free_pages :: "pmm \<Rightarrow> u32" where
  "pmm_get_free_pages p = free_pages p"

section \<open>The bitmap as a table of bits\<close>

text \<open>
  The contract of a bit table with indices below \<open>limit\<close>: \<open>bits\<close> is its contents, and an access at
  or above the limit is an error.
\<close>

locale bit_table =
  fixes set_b clear_b :: "u32 \<Rightarrow> 's \<Rightarrow> 's result"
    and test_b :: "u32 \<Rightarrow> 's \<Rightarrow> u32 result"
    and bits :: "'s \<Rightarrow> u32 \<Rightarrow> bool"
    and limit :: u32
  assumes set_in: "i < limit \<Longrightarrow> \<exists>t. set_b i s = Inr t \<and> bits t = (bits s)(i := True)"
    and clear_in: "i < limit \<Longrightarrow> \<exists>t. clear_b i s = Inr t \<and> bits t = (bits s)(i := False)"
    and test_in: "i < limit \<Longrightarrow> \<exists>v. test_b i s = Inr v \<and> (v \<noteq> 0 \<longleftrightarrow> bits s i)"
    and set_out: "limit \<le> i \<Longrightarrow> set_b i s = Inl Out_of_bounds"
    and clear_out: "limit \<le> i \<Longrightarrow> clear_b i s = Inl Out_of_bounds"
    and test_out: "limit \<le> i \<Longrightarrow> test_b i s = Inl Out_of_bounds"
begin

lemma set_returns_iff: "(\<exists>t. set_b i s = Inr t) \<longleftrightarrow> i < limit"
  using set_in [of i s] set_out [of i s] by (cases "i < limit") auto

lemma clear_returns_iff: "(\<exists>t. clear_b i s = Inr t) \<longleftrightarrow> i < limit"
  using clear_in [of i s] clear_out [of i s] by (cases "i < limit") auto

lemma set_bits: "set_b i s = Inr t \<Longrightarrow> bits t = (bits s)(i := True)"
  using set_in [of i s] set_returns_iff [of i s] by auto

lemma clear_bits: "clear_b i s = Inr t \<Longrightarrow> bits t = (bits s)(i := False)"
  using clear_in [of i s] clear_returns_iff [of i s] by auto

lemma test_bits: "test_b i s = Inr v \<Longrightarrow> v = 0 \<longleftrightarrow> \<not> bits s i"
  using test_in [of i s] test_out [of i s] by (cases "i < limit") auto

lemma set_clear_restores:
  assumes "set_b i s = Inr t" and "clear_b i t = Inr u" and "\<not> bits s i"
  shows "bits u = bits s"
  using set_bits [OF assms(1)] clear_bits [OF assms(2)] assms(3) by (auto simp: fun_eq_iff)

end

definition page_bit :: "pmm \<Rightarrow> u32 \<Rightarrow> bool" where
  "page_bit p i = bit (bitmap p (i div 32)) (unat (i mod 32))"

lemma div_mod_32_eq: "i div 32 = j div 32 \<Longrightarrow> unat (i mod 32) = unat (j mod 32) \<Longrightarrow> i = (j :: u32)"
  by (metis div_mult_mod_eq word_unat_eq_iff)

lemma unat_mod_32: "unat (i mod 32 :: u32) < 32"
  by (simp add: unat_mod)

lemma bit_or_one: "n < 32 \<Longrightarrow> bit (w OR 2 ^ n :: u32) k \<longleftrightarrow> bit w k \<or> k = n"
  by (auto simp: bit_simps)

lemma bit_and_not_one: "n < 32 \<Longrightarrow> bit (w AND NOT (2 ^ n) :: u32) k \<longleftrightarrow> bit w k \<and> k \<noteq> n"
  by (auto simp: bit_simps dest: bit_imp_le_length)

lemma and_one_eq_0: "w AND 2 ^ n = (0 :: u32) \<longleftrightarrow> \<not> bit w n"
  by (simp add: and_exp_eq_0_iff_not_bit)

lemma div_32_bound: "i div 32 < 32768 \<longleftrightarrow> i < (1048576 :: u32)"
  by (simp add: word_less_nat_alt unat_div div_less_iff_less_mult)

lemma page_bit_set:
  "page_bit (p\<lparr>bitmap := (bitmap p)(i div 32 := bitmap p (i div 32) OR 2 ^ unat (i mod 32))\<rparr>)
    = (page_bit p)(i := True)"
proof
  fix j show "page_bit (p\<lparr>bitmap := (bitmap p)(i div 32 :=
      bitmap p (i div 32) OR 2 ^ unat (i mod 32))\<rparr>) j = ((page_bit p)(i := True)) j"
    using div_mod_32_eq [of i j] unat_mod_32 [of i]
    by (cases "j div 32 = i div 32") (auto simp: page_bit_def bit_or_one simp del: bit_or_iff)
qed

lemma page_bit_clear:
  "page_bit (p\<lparr>bitmap := (bitmap p)(i div 32 := bitmap p (i div 32) AND NOT (2 ^ unat (i mod 32)))\<rparr>)
    = (page_bit p)(i := False)"
proof
  fix j show "page_bit (p\<lparr>bitmap := (bitmap p)(i div 32 :=
      bitmap p (i div 32) AND NOT (2 ^ unat (i mod 32)))\<rparr>) j = ((page_bit p)(i := False)) j"
    using div_mod_32_eq [of i j] unat_mod_32 [of i]
    by (cases "j div 32 = i div 32") (auto simp: page_bit_def bit_and_not_one)
qed

interpretation bm: bit_table bitmap_set bitmap_clear bitmap_test page_bit 1048576
proof (unfold_locales, goal_cases)
  case (1 i s)
  then show ?case by (simp add: bitmap_set_def div_32_bound page_bit_set)
next
  case (2 i s)
  then show ?case by (simp add: bitmap_clear_def div_32_bound page_bit_clear)
next
  case (3 i s)
  then show ?case by (simp add: bitmap_test_def div_32_bound page_bit_def and_one_eq_0)
qed (simp_all add: bitmap_set_def bitmap_clear_def bitmap_test_def div_32_bound)

text \<open>The bitmap operations leave the counters alone.\<close>

lemma bitmap_set_frame:
  "bitmap_set i p = Inr q \<Longrightarrow> pages_num q = pages_num p \<and> free_pages q = free_pages p"
  by (auto simp: bitmap_set_def split: if_splits)

lemma bitmap_clear_frame:
  "bitmap_clear i p = Inr q \<Longrightarrow> pages_num q = pages_num p \<and> free_pages q = free_pages p"
  by (auto simp: bitmap_clear_def split: if_splits)

section \<open>The abstract page map\<close>

text \<open>
  What the manager stands for: one boolean per managed page, true when the page is free. The
  invariant \<open>pmm_ok\<close>: the pages fit the bitmap and \<open>free_pages\<close> counts the free ones.
\<close>

definition page_view :: "pmm \<Rightarrow> bool list" where
  "page_view p = map (\<lambda>i. \<not> page_bit p (of_nat i)) [0..<unat (pages_num p)]"

definition pmm_ok :: "pmm \<Rightarrow> bool" where
  "pmm_ok p \<longleftrightarrow> unat (pages_num p) \<le> 1048576
     \<and> unat (free_pages p) = count_list (page_view p) True"

lemma length_page_view [simp]: "length (page_view p) = unat (pages_num p)"
  by (simp add: page_view_def)

lemma page_view_nth: "i < unat (pages_num p) \<Longrightarrow> page_view p ! i = (\<not> page_bit p (of_nat i))"
  by (simp add: page_view_def)

lemma page_view_cong:
  "pages_num q = pages_num p \<Longrightarrow> page_bit q = page_bit p \<Longrightarrow> page_view q = page_view p"
  by (simp add: page_view_def)

lemma page_bit_counters [simp]:
  "page_bit (p\<lparr>pages_num := n\<rparr>) = page_bit p" "page_bit (p\<lparr>free_pages := k\<rparr>) = page_bit p"
  by (simp_all add: page_bit_def fun_eq_iff)

lemma page_view_update:
  assumes "page_bit q = (page_bit p)(i := b)" and "pages_num q = pages_num p"
    and "i < pages_num p"
  shows "page_view q = (page_view p)[unat i := \<not> b]"
proof (rule nth_equalityI)
  fix k assume "k < length (page_view q)"
  then have k: "k < unat (pages_num p)" using assms(2) by simp
  then have "(of_nat k :: u32) = i \<longleftrightarrow> k = unat i"
    using unat_less_32 [of "pages_num p"] by (auto simp: word_unat_eq_iff)
  then show "page_view q ! k = (page_view p)[unat i := \<not> b] ! k"
    using k assms by (auto simp: page_view_nth nth_list_update)
qed (use assms in simp)

lemma page_view_snoc:
  assumes "unat (pages_num p) < 1048576" and "page_bit q = (page_bit p)(pages_num p := b)"
    and "pages_num q = pages_num p + 1"
  shows "page_view q = page_view p @ [\<not> b]"
proof -
  have num: "unat (pages_num q) = Suc (unat (pages_num p))"
    using assms(1,3) unat_add_u32 [of "pages_num p" 1] by simp
  have "page_bit q (of_nat k) = page_bit p (of_nat k)" if "k < unat (pages_num p)" for k
  proof -
    have "(of_nat k :: u32) \<noteq> pages_num p"
      using that unat_less_32 [of "pages_num p"] by (auto simp: word_unat_eq_iff)
    then show ?thesis by (simp add: assms(2))
  qed
  then show ?thesis unfolding page_view_def num by (simp add: assms(2))
qed

lemma count_list_update:
  "i < length xs \<Longrightarrow> xs ! i \<Longrightarrow> count_list xs True = Suc (count_list (xs[i := False]) True)"
  "i < length xs \<Longrightarrow> \<not> xs ! i \<Longrightarrow> count_list (xs[i := True]) True = Suc (count_list xs True)"
  by (induction xs arbitrary: i) (auto split: nat.splits simp: nth_Cons)

lemma count_list_le_length: "count_list xs x \<le> length xs"
  by (induction xs) auto

section \<open>Initialisation\<close>

text \<open>The pages one region adds to the map, and the map of a list of regions.\<close>

definition region_map :: "u64 \<times> u32 \<Rightarrow> bool list" where
  "region_map r = replicate (unat (ucast (fst r) :: u32) div 4096) (snd r = 1)"

definition page_map :: "(u64 \<times> u32) list \<Rightarrow> bool list" where
  "page_map rs = concat (map region_map rs)"

text \<open>
  The sizes that a memory map announces, in pages. The page map has these sizes if no region reaches 4 GiB, where
  the code cuts lengths off.
\<close>

definition total_pages :: "(u64 \<times> u32) list \<Rightarrow> nat" where
  "total_pages rs = sum_list (map (\<lambda>r. unat (fst r) div 4096) rs)"

definition ram_pages :: "(u64 \<times> u32) list \<Rightarrow> nat" where
  "ram_pages rs = total_pages (filter (\<lambda>r. snd r = 1) rs)"

lemma page_map_sizes:
  "\<forall>r \<in> set rs. unat (fst r) < 2 ^ 32 \<Longrightarrow> length (page_map rs) = total_pages rs \<and> count_list (page_map rs) True = ram_pages rs"
proof (induction rs)
  case Nil
  then show ?case by (simp add: page_map_def total_pages_def ram_pages_def)
next
  case (Cons r rs)
  then have "unat (ucast (fst r) :: u32) = unat (fst r)" by (intro unat_ucast_small) simp
  moreover have "count_list (replicate n b) True = (if b then n else 0)" for n b by (induction n) auto
  ultimately show ?case using Cons by (simp add: page_map_def region_map_def total_pages_def ram_pages_def)
qed

text \<open>The state while pages are being added: the map so far and the counters.\<close>

definition pmm_built :: "bool list \<Rightarrow> pmm \<Rightarrow> bool" where
  "pmm_built pm p \<longleftrightarrow> pmm_ok p \<and> page_view p = pm"

lemma pmm_built_length: "pmm_built pm p \<Longrightarrow> length pm = unat (pages_num p) \<and> length pm \<le> 1048576"
  by (auto simp: pmm_built_def pmm_ok_def)

lemma add_free_page_built:
  assumes "pmm_built pm p" and "length pm < 1048576"
  shows "ok_r (pmm_built (pm @ [True])) (add_free_page p)"
proof -
  have n: "unat (pages_num p) < 1048576" using assms pmm_built_length by force
  then have "pages_num p < 1048576" by (simp add: word_less_nat_alt)
  then obtain q where q: "bitmap_clear (pages_num p) p = Inr q"
    "page_bit q = (page_bit p)(pages_num p := False)" using bm.clear_in by blast
  note frame = bitmap_clear_frame [OF q(1)]
  let ?q = "q\<lparr>pages_num := pages_num q + 1, free_pages := free_pages q + 1\<rparr>"
  have view: "page_view ?q = pm @ [True]"
    using page_view_snoc [OF n, of ?q False] q(2) frame assms(1) by (simp add: pmm_built_def)
  have "count_list pm True \<le> 1048576"
    using count_list_le_length [of pm True] assms(2) by linarith
  then have "unat (free_pages p + 1) = unat (free_pages p) + 1"
    using assms(1) unat_add_u32 [of "free_pages p" 1] by (simp add: pmm_built_def pmm_ok_def)
  moreover have "unat (pages_num p + 1) = unat (pages_num p) + 1"
    using n unat_add_u32 [of "pages_num p" 1] by simp
  ultimately have "pmm_built (pm @ [True]) ?q"
    using view frame assms n by (simp add: pmm_built_def pmm_ok_def)
  then show ?thesis by (simp add: add_free_page_def q(1))
qed

lemma add_used_page_built:
  assumes "pmm_built pm p" and "length pm < 1048576"
  shows "ok_r (pmm_built (pm @ [False])) (add_used_page p)"
proof -
  have n: "unat (pages_num p) < 1048576" using assms pmm_built_length by force
  then have "pages_num p < 1048576" by (simp add: word_less_nat_alt)
  then obtain q where q: "bitmap_set (pages_num p) p = Inr q"
    "page_bit q = (page_bit p)(pages_num p := True)" using bm.set_in by blast
  note frame = bitmap_set_frame [OF q(1)]
  let ?q = "q\<lparr>pages_num := pages_num q + 1\<rparr>"
  have view: "page_view ?q = pm @ [False]"
    using page_view_snoc [OF n, of ?q True] q(2) frame assms(1) by (simp add: pmm_built_def)
  moreover have "unat (pages_num p + 1) = unat (pages_num p) + 1"
    using n unat_add_u32 [of "pages_num p" 1] by simp
  ultimately have "pmm_built (pm @ [False]) ?q"
    using frame assms n by (simp add: pmm_built_def pmm_ok_def)
  then show ?thesis by (simp add: add_used_page_def q(1))
qed

lemma add_page_full:
  assumes "pmm_built pm p" and "length pm = 1048576"
  shows "add_free_page p = Inl Out_of_bounds" and "add_used_page p = Inl Out_of_bounds"
proof -
  have "1048576 \<le> pages_num p"
    using pmm_built_length [OF assms(1)] assms(2) by (simp add: word_le_nat_alt)
  then show "add_free_page p = Inl Out_of_bounds" and "add_used_page p = Inl Out_of_bounds"
    by (simp_all add: add_free_page_def add_used_page_def bm.clear_out bm.set_out)
qed

text \<open>Progress of the initialisation: the map \<open>pm\<close> is built, or it does not fit the bitmap.\<close>

definition builds :: "bool list \<Rightarrow> pmm result \<Rightarrow> bool" where
  "builds pm r \<longleftrightarrow> (if length pm \<le> 1048576 then ok_r (pmm_built pm) r else r = Inl Out_of_bounds)"

lemma builds_loop:
  assumes "\<And>pm p. pmm_built pm p \<Longrightarrow> length pm < 1048576 \<Longrightarrow> ok_r (pmm_built (pm @ [b])) (f p)"
    and "\<And>pm p. pmm_built pm p \<Longrightarrow> length pm = 1048576 \<Longrightarrow> f p = Inl Out_of_bounds"
    and "pmm_built pm p"
  shows "builds (pm @ replicate n b) (for_r n (\<lambda>i. f) p)"
proof (induction n)
  case 0
  then show ?case using assms(3) pmm_built_length [OF assms(3)] by (auto simp: builds_def)
next
  case (Suc n)
  let ?pm = "pm @ replicate n b"
  have app: "pm @ replicate (Suc n) b = ?pm @ [b]" by (simp add: replicate_append_same)
  consider "length ?pm < 1048576" | "length ?pm = 1048576" | "1048576 < length ?pm" by linarith
  then show ?case
  proof cases
    case 1
    with Suc obtain q where "for_r n (\<lambda>i. f) p = Inr q" "pmm_built ?pm q"
      by (auto simp: builds_def ok_r_iff)
    with 1 assms(1) [of ?pm q] show ?thesis unfolding app by (simp add: builds_def)
  next
    case 2
    with Suc obtain q where "for_r n (\<lambda>i. f) p = Inr q" "pmm_built ?pm q"
      by (auto simp: builds_def ok_r_iff)
    with 2 assms(2) [of ?pm q] show ?thesis unfolding app by (simp add: builds_def)
  next
    case 3
    with Suc show ?thesis unfolding app by (simp add: builds_def)
  qed
qed

lemma add_region_builds:
  "pmm_built pm p \<Longrightarrow> builds (pm @ region_map (len, ty)) (add_region len ty p)"
  using builds_loop [of True add_free_page pm p] builds_loop [of False add_used_page pm p]
    add_free_page_built add_used_page_built add_page_full
  by (simp add: add_region_def region_map_def Let_def unat_div)

definition regions :: "memory \<Rightarrow> u64 \<Rightarrow> nat \<Rightarrow> nat \<Rightarrow> nat \<Rightarrow> (u64 \<times> u32) list" where
  "regions m t es i k =
     map (\<lambda>j. (entry_length m (entry_at t es j), entry_type m (entry_at t es j))) [i..<k]"

lemma regions_Cons:
  "i < k \<Longrightarrow> regions m t es i k =
    (entry_length m (entry_at t es i), entry_type m (entry_at t es i)) # regions m t es (Suc i) k"
  by (simp add: regions_def upt_conv_Cons)

lemma pmm_init_loop_end: "pmm_init_loop m mbi 0 p = Some (Inr p)"
  by (simp add: pmm_init_loop.simps)

lemma pmm_init_loop_builds:
  assumes "mmap_at m mbi t es k" and "i < k" and "pmm_built pm p"
  shows "\<exists>r. pmm_init_loop m mbi (entry_at t es i) p = Some r
    \<and> builds (pm @ page_map (regions m t es i k)) r"
  using assms(2,3)
proof (induction "k - i" arbitrary: i pm p)
  case 0
  then show ?case by simp
next
  case (Suc d)
  let ?e = "entry_at t es i"
  let ?r = "(entry_length m ?e, entry_type m ?e)"
  let ?rest = "page_map (regions m t es (Suc i) k)"
  have rest: "page_map (regions m t es i k) = region_map ?r @ ?rest"
    using Suc.prems by (simp add: regions_Cons page_map_def)
  have e: "?e \<noteq> 0" using entry_at_nonzero [OF assms(1)] Suc.prems by simp
  note added = add_region_builds [OF Suc.prems(2), of "fst ?r" "snd ?r"]
  show ?case
  proof (cases "add_region (fst ?r) (snd ?r) p")
    case (Inl err)
    with added have "err = Out_of_bounds" "1048576 < length (pm @ region_map ?r)"
      by (auto simp: builds_def split: if_splits)
    with Inl e show ?thesis by (simp add: pmm_init_loop.simps [of m mbi ?e] builds_def rest)
  next
    case (Inr q)
    with added have q: "pmm_built (pm @ region_map ?r) q"
      by (auto simp: builds_def split: if_splits)
    have step: "pmm_init_loop m mbi ?e p
        = pmm_init_loop m mbi (if Suc i < k then entry_at t es (Suc i) else 0) q"
      using e Inr mmap_next_at [OF assms(1) Suc.prems(1)]
      by (simp add: pmm_init_loop.simps [of m mbi ?e])
    show ?thesis
    proof (cases "Suc i < k")
      case True
      with Suc.hyps(1) [of "Suc i", OF _ True q] Suc.hyps(2) step rest show ?thesis by simp
    next
      case False
      then have "?rest = []" by (simp add: regions_def page_map_def)
      with False step rest q pmm_built_length [OF q] show ?thesis
        by (simp add: pmm_init_loop_end builds_def)
    qed
  qed
qed

lemma pmm_built_empty: "pmm_built [] (p\<lparr>pages_num := 0, free_pages := 0\<rparr>)"
  by (simp add: pmm_built_def pmm_ok_def page_view_def)

text \<open>
  C24: on a well-formed memory map \<open>pmm_init\<close> returns. If the map's pages (each region's length cut
  to 32 bits and divided by 4096) fit the 2^20 bits of the bitmap, the resulting page map is the
  regions' pages one after the other, free exactly for regions of type 1, and the free counter is
  exact; otherwise the initialisation runs over the end of the bitmap.
\<close>

theorem pmm_init_correct:
  assumes "mmap_at m mbi t es k"
  shows "\<exists>r. pmm_init m mbi p = Some r \<and>
    (let pm = page_map (regions m t es 0 k)
     in if length pm \<le> 1048576 then \<exists>q. r = Inr q \<and> page_view q = pm \<and> pmm_ok q
        else r = Inl Out_of_bounds)"
proof -
  have "0 < k" using assms by (simp add: mmap_at_def)
  then obtain r where "pmm_init m mbi p = Some r" "builds (page_map (regions m t es 0 k)) r"
    using pmm_init_loop_builds [OF assms _ pmm_built_empty, of 0 p]
    by (auto simp: pmm_init_def mmap_first_at [OF assms])
  then show ?thesis
    by (cases "length (page_map (regions m t es 0 k)) \<le> 1048576")
      (auto simp: builds_def ok_r_iff pmm_built_def Let_def)
qed

theorem pmm_init_correct_witness:
  "\<exists>q. pmm_init sample_mbi 0 pmm_boot = Some (Inr q) \<and> page_view q = replicate 3 True @ replicate 2 False
    \<and> pmm_ok q"
proof -
  have "page_map (regions sample_mbi 24 24 0 2) = replicate 3 True @ replicate 2 False"
    by (simp add: regions_def page_map_def region_map_def upt_conv_Cons entry_at_def
        entry_length_def entry_type_def ld64_def ld32_def sample_mbi_def)
  with pmm_init_correct [OF sample_mmap, of pmm_boot] show ?thesis by (auto simp: Let_def)
qed

section \<open>Allocation\<close>

text \<open>The reference: first fit on the page map; the address of page \<open>i\<close> is \<open>4096 * i\<close>.\<close>

definition free_index :: "bool list \<Rightarrow> nat" where
  "free_index pm = length (takeWhile Not pm)"

lemma free_index_eqI:
  assumes "i < length pm" and "pm ! i" and "\<And>j. j < i \<Longrightarrow> \<not> pm ! j"
  shows "free_index pm = i"
proof -
  have "takeWhile Not pm = take i pm"
    using assms by (intro takeWhile_eq_take_P_nth) auto
  with assms(1) show ?thesis by (simp add: free_index_def)
qed

lemma free_index_less: "True \<in> set pm \<Longrightarrow> free_index pm < length pm \<and> pm ! free_index pm"
proof -
  assume "True \<in> set pm"
  then have "length (takeWhile Not pm) < length pm"
    by (induction pm) auto
  then show ?thesis using nth_length_takeWhile [of Not pm] by (simp add: free_index_def)
qed

definition page_addr :: "nat \<Rightarrow> u64" where
  "page_addr i = of_nat (4096 * i)"

lemma unat_page_addr: "i \<le> 1048576 \<Longrightarrow> unat (page_addr i) = 4096 * i"
  unfolding page_addr_def by (intro unat_of_nat_u64) linarith

lemma page_addr_word: "unat (i :: u32) < 1048576 \<Longrightarrow> ucast (i * 4096) = page_addr (unat i)"
proof -
  assume "unat i < 1048576"
  then have "unat (i * 4096) = 4096 * unat i"
    using unat_mult_u32 [of i 4096] by simp
  then show ?thesis by (metis page_addr_def of_nat_unat)
qed

lemma pmm_ok_index: "pmm_ok p \<Longrightarrow> i < pages_num p \<Longrightarrow> i < 1048576"
  by (auto simp: pmm_ok_def word_less_nat_alt)

text \<open>Taking page \<open>i\<close>: the state after a successful search.\<close>

lemma take_page:
  assumes "pmm_ok p" and "i < pages_num p" and "\<not> page_bit p i"
  shows "\<exists>q. bitmap_set i p = Inr q
    \<and> page_view (q\<lparr>free_pages := free_pages q - 1\<rparr>) = (page_view p)[unat i := False]
    \<and> pmm_ok (q\<lparr>free_pages := free_pages q - 1\<rparr>)
    \<and> pages_num q = pages_num p"
proof -
  obtain q where q: "bitmap_set i p = Inr q" "page_bit q = (page_bit p)(i := True)"
    using bm.set_in pmm_ok_index [OF assms(1,2)] by blast
  note frame = bitmap_set_frame [OF q(1)]
  let ?q = "q\<lparr>free_pages := free_pages q - 1\<rparr>"
  have view: "page_view ?q = (page_view p)[unat i := False]"
    using page_view_update [of ?q p i True] q(2) frame assms(2) by simp
  have "unat i < length (page_view p)" "page_view p ! unat i"
    using assms(2,3) by (simp_all add: word_less_nat_alt page_view_nth)
  from count_list_update(1) [OF this] view
  have count: "count_list (page_view p) True = Suc (count_list (page_view ?q) True)" by simp
  then have "1 \<le> free_pages p" using assms(1) by (simp add: pmm_ok_def word_le_nat_alt)
  then have "unat (free_pages p - 1) = unat (free_pages p) - 1" by (simp add: unat_sub_u32)
  then have "pmm_ok ?q" using assms(1) count frame by (simp add: pmm_ok_def)
  with q view frame show ?thesis by auto
qed

definition allocates :: "pmm \<Rightarrow> (u64 \<times> pmm) result \<Rightarrow> bool" where
  "allocates p r \<longleftrightarrow>
     (if True \<in> set (page_view p)
      then \<exists>q. r = Inr (page_addr (free_index (page_view p)), q) \<and> pmm_ok q
             \<and> pages_num q = pages_num p
             \<and> page_view q = (page_view p)[free_index (page_view p) := False]
      else r = Inr (0, p))"

lemma pmm_alloc_from_correct:
  "pmm_ok p \<Longrightarrow> i \<le> pages_num p \<Longrightarrow> \<forall>j < unat i. \<not> page_view p ! j \<Longrightarrow>
    allocates p (pmm_alloc_from i p)"
proof (induction i p rule: pmm_alloc_from.induct)
  case (1 i p)
  show ?case
  proof (cases "i < pages_num p")
    case False
    with "1.prems"(2) have "i = pages_num p" by simp
    with "1.prems"(3) have "True \<notin> set (page_view p)" by (auto simp: in_set_conv_nth)
    with False show ?thesis by (simp add: pmm_alloc_from.simps [of i] allocates_def)
  next
    case True
    then have i: "unat i < length (page_view p)" by (simp add: word_less_nat_alt)
    then have nth: "page_view p ! unat i \<longleftrightarrow> \<not> page_bit p i" by (simp add: page_view_nth)
    obtain v where v: "bitmap_test i p = Inr v" "v \<noteq> 0 \<longleftrightarrow> page_bit p i"
      using bm.test_in pmm_ok_index [OF "1.prems"(1) True] by blast
    show ?thesis
    proof (cases "page_bit p i")
      case used: True
      have inc: "unat (i + 1) = unat i + 1" using True by (rule unat_inc_u32)
      have "i + 1 \<le> pages_num p" using inc i by (simp add: word_le_nat_alt)
      moreover have "\<forall>j < unat (i + 1). \<not> page_view p ! j"
        using "1.prems"(3) used nth inc by (auto simp: less_Suc_eq)
      ultimately have "allocates p (pmm_alloc_from (i + 1) p)"
        using "1.IH" [OF True v(1)] v(2) used "1.prems"(1) by simp
      with True v used show ?thesis by (simp add: pmm_alloc_from.simps [of i])
    next
      case free: False
      have ix: "free_index (page_view p) = unat i"
        using i nth free "1.prems"(3) by (intro free_index_eqI) auto
      have mem: "True \<in> set (page_view p)" using i nth free by (auto simp: in_set_conv_nth)
      have "unat i < 1048576" using i "1.prems"(1) by (simp add: pmm_ok_def)
      note addr = page_addr_word [OF this]
      from take_page [OF "1.prems"(1) True free] True v free ix mem addr show ?thesis
        by (auto simp: pmm_alloc_from.simps [of i] allocates_def)
    qed
  qed
qed

lemma pmm_alloc_allocates: "pmm_ok p \<Longrightarrow> allocates p (pmm_alloc p)"
  unfolding pmm_alloc_def by (rule pmm_alloc_from_correct) simp_all

text \<open>
  \<open>pmm_alloc\<close> on a consistent state returns the address of the first free page and marks
  exactly that page as used, or returns 0 and changes nothing when no page is free; either way
  the free counter stays exact.
\<close>

theorem pmm_alloc_correct:
  assumes "pmm_ok p"
  shows "if True \<in> set (page_view p)
    then \<exists>i q. pmm_alloc p = Inr (of_nat (4096 * i), q) \<and> i < unat (pages_num p)
        \<and> page_view p ! i \<and> (\<forall>j < i. \<not> page_view p ! j)
        \<and> page_view q = (page_view p)[i := False] \<and> pmm_ok q
    else pmm_alloc p = Inr (0, p)"
proof (cases "True \<in> set (page_view p)")
  case True
  let ?i = "free_index (page_view p)"
  have "\<not> page_view p ! j" if "j < ?i" for j
    using that nth_mem [of j "takeWhile Not (page_view p)"] takeWhile_nth [of j Not "page_view p"]
    by (auto simp: free_index_def dest: set_takeWhileD)
  with True free_index_less [OF True] pmm_alloc_allocates [OF assms] show ?thesis
    by (auto simp: allocates_def page_addr_def intro!: exI [of _ ?i])
next
  case False
  with pmm_alloc_allocates [OF assms] show ?thesis by (simp add: allocates_def)
qed

text \<open>A small manager state the properties are applied to: three pages, the first in use.\<close>

definition sample_pmm :: pmm where
  "sample_pmm = \<lparr>bitmap = (\<lambda>_. 0)(0 := 1), pages_num = 3, free_pages = 2\<rparr>"

lemma sample_view: "page_view sample_pmm = [False, True, True]"
  by (simp add: page_view_def sample_pmm_def page_bit_def upt_conv_Cons)

lemma sample_pages: "pages_num sample_pmm = 3" "free_pages sample_pmm = 2"
  by (simp_all add: sample_pmm_def)

lemma sample_ok: "pmm_ok sample_pmm"
  by (simp add: pmm_ok_def sample_view sample_pages)

theorem pmm_alloc_correct_witness:
  "\<exists>q. pmm_alloc sample_pmm = Inr (4096, q) \<and> page_view q = [False, False, True] \<and> pmm_ok q"
proof -
  obtain i q where i: "pmm_alloc sample_pmm = Inr (of_nat (4096 * i), q)" "i < 3"
      "[False, True, True] ! i" "\<forall>j < i. \<not> [False, True, True] ! j"
      "page_view q = [False, True, True][i := False]" "pmm_ok q"
    using pmm_alloc_correct [OF sample_ok] by (auto simp: sample_view sample_pages)
  then have "i = 1" by (auto simp: less_Suc_eq numeral_3_eq_3)
  with i show ?thesis by simp
qed

lemma pmm_alloc_zero:
  assumes "pmm_ok p" and "0 < pages_num p" and "page_view p ! 0"
  shows "\<exists>q. pmm_alloc p = Inr (0, q) \<and> pmm_ok q \<and> page_view q = (page_view p)[0 := False]"
proof -
  have len: "0 < length (page_view p)" using assms(2) by (simp add: word_less_nat_alt)
  then have mem: "True \<in> set (page_view p)" using assms(3) by (auto simp: in_set_conv_nth)
  have "free_index (page_view p) = 0" using len assms(3) by (intro free_index_eqI) simp_all
  with mem pmm_alloc_allocates [OF assms(1)] show ?thesis
    by (auto simp: allocates_def page_addr_def)
qed

text \<open>
  when page 0 is free (a memory map that starts with available memory), the first allocation
  takes page 0 and returns its address, which is the null pointer its callers read as failure:
  the page is gone from the free count and no caller can own it.
\<close>

theorem pmm_alloc_page_zero:
  assumes "pmm_ok p" and "0 < pages_num p" and "page_view p ! 0"
  shows "\<exists>q. pmm_alloc p = Inr (0, q) \<and> page_view q = (page_view p)[0 := False]
    \<and> unat (free_pages p) = Suc (unat (free_pages q))"
proof -
  have "0 < length (page_view p)" using assms(2) by (simp add: word_less_nat_alt)
  with pmm_alloc_zero [OF assms] assms(1,3) count_list_update(1) [of 0 "page_view p"]
  show ?thesis by (auto simp: pmm_ok_def)
qed

theorem pmm_alloc_page_zero_witness:
  "\<exists>q. pmm_alloc (pmm_boot\<lparr>pages_num := 2, free_pages := 2\<rparr>) = Inr (0, q)
    \<and> page_view q = [False, True]"
proof -
  let ?p = "pmm_boot\<lparr>pages_num := 2, free_pages := 2\<rparr>"
  have view: "page_view ?p = [True, True]"
    by (simp add: page_view_def pmm_boot_def page_bit_def upt_conv_Cons)
  then have "pmm_ok ?p" by (simp add: pmm_ok_def)
  with view pmm_alloc_page_zero [of ?p] show ?thesis by auto
qed

section \<open>Freeing\<close>

lemma page_of_addr: "i < 1048576 \<Longrightarrow> (ucast (page_addr i) :: u32) div 4096 = of_nat i"
proof -
  assume i: "i < 1048576"
  then have "unat (ucast (page_addr i) :: u32) = 4096 * i"
    by (subst unat_ucast_small) (simp_all add: unat_page_addr)
  then show ?thesis using i by (simp add: word_unat_eq_iff unat_div)
qed

text \<open>Clearing the bit of a managed page; the counter is the caller's.\<close>

lemma pmm_free_page:
  assumes "pmm_ok p" and "i < unat (pages_num p)"
  shows "\<exists>q. pmm_free (page_addr i) p = Inr q \<and> page_view q = (page_view p)[i := True]
    \<and> page_bit q = (page_bit p)(of_nat i := False)
    \<and> pages_num q = pages_num p \<and> unat (free_pages q) = unat (free_pages p) + 1"
proof -
  have i: "i < 1048576" using assms by (simp add: pmm_ok_def)
  then have small: "(of_nat i :: u32) < 1048576" "unat (of_nat i :: u32) = i"
    by (simp_all add: word_less_nat_alt)
  let ?p = "p\<lparr>free_pages := free_pages p + 1\<rparr>"
  obtain q where q: "bitmap_clear (of_nat i) ?p = Inr q"
    "page_bit q = (page_bit ?p)(of_nat i := False)" using bm.clear_in [OF small(1), of ?p] by blast
  note frame = bitmap_clear_frame [OF q(1)]
  have "page_view q = (page_view p)[i := True]"
    using page_view_update [of q p "of_nat i" False] q(2) frame assms(2) small
    by (simp add: word_less_nat_alt)
  moreover have "unat (free_pages p) \<le> 1048576"
    using assms(1) count_list_le_length [of "page_view p" True] by (simp add: pmm_ok_def)
  then have "unat (free_pages p + 1) = unat (free_pages p) + 1"
    using unat_add_u32 [of "free_pages p" 1] by simp
  ultimately show ?thesis using q frame by (auto simp: pmm_free_def page_of_addr [OF i])
qed

text \<open>
  freeing a page that is in use makes exactly that page free and keeps the state consistent;
  freeing a page that is already free changes no page but still counts it, so the free counter is
  one too high from then on.
\<close>

theorem pmm_free_correct:
  assumes "pmm_ok p" and "i < unat (pages_num p)"
  shows "\<exists>q. pmm_free (of_nat (4096 * i)) p = Inr q
    \<and> (\<not> page_view p ! i \<longrightarrow> page_view q = (page_view p)[i := True] \<and> pmm_ok q)
    \<and> (page_view p ! i \<longrightarrow> page_view q = page_view p \<and> \<not> pmm_ok q
        \<and> unat (free_pages q) = count_list (page_view q) True + 1)"
proof -
  from pmm_free_page [OF assms] obtain q where q: "pmm_free (page_addr i) p = Inr q"
    "page_view q = (page_view p)[i := True]" "pages_num q = pages_num p"
    "unat (free_pages q) = unat (free_pages p) + 1" by blast
  have len: "i < length (page_view p)" using assms(2) by simp
  have "page_view p ! i \<Longrightarrow> (page_view p)[i := True] = page_view p"
    by (metis (full_types) list_update_id)
  then show ?thesis
    using q assms(1) count_list_update(2) [OF len] by (auto simp: pmm_ok_def page_addr_def)
qed

theorem pmm_free_correct_witness:
  "\<exists>q r. pmm_free 0 sample_pmm = Inr q \<and> page_view q = [True, True, True] \<and> pmm_ok q
    \<and> pmm_free 4096 sample_pmm = Inr r \<and> page_view r = [False, True, True] \<and> \<not> pmm_ok r"
  using pmm_free_correct [OF sample_ok, of 0] pmm_free_correct [OF sample_ok, of 1]
  by (auto simp: sample_view sample_pages)

text \<open>
  allocating a page and freeing it again restores every bit of the bitmap and both counters.
\<close>

theorem pmm_alloc_free_roundtrip:
  assumes "pmm_ok p" and "True \<in> set (page_view p)"
  shows "\<exists>a q r. pmm_alloc p = Inr (a, q) \<and> pmm_free a q = Inr r
    \<and> page_view r = page_view p \<and> pages_num r = pages_num p \<and> free_pages r = free_pages p"
proof -
  let ?i = "free_index (page_view p)"
  from pmm_alloc_allocates [OF assms(1)] assms(2) obtain q where
    q: "pmm_alloc p = Inr (page_addr ?i, q)" "pmm_ok q" "pages_num q = pages_num p"
      "page_view q = (page_view p)[?i := False]" by (auto simp: allocates_def)
  note ix = free_index_less [OF assms(2)]
  with q(3) have "?i < unat (pages_num q)" by simp
  from pmm_free_page [OF q(2) this] obtain r where r: "pmm_free (page_addr ?i) q = Inr r"
    "page_view r = (page_view q)[?i := True]" "pages_num r = pages_num q"
    "unat (free_pages r) = unat (free_pages q) + 1" by blast
  have "page_view r = page_view p" using ix r(2) q(4) by (metis (full_types) list_update_id list_update_overwrite)
  moreover have "unat (free_pages r) = unat (free_pages p)"
    using r(4) q(2,4) assms(1) count_list_update(1) [of ?i "page_view p"] ix by (simp add: pmm_ok_def)
  ultimately show ?thesis using q r by (auto simp: word_unat_eq_iff)
qed

theorem pmm_alloc_free_roundtrip_witness:
  "\<exists>a q r. pmm_alloc sample_pmm = Inr (a, q) \<and> pmm_free a q = Inr r
    \<and> page_view r = [False, True, True] \<and> free_pages r = 2"
  using pmm_alloc_free_roundtrip [OF sample_ok]
  by (auto simp: sample_view sample_pages)

section \<open>The allocator as a source of pages\<close>

text \<open>
  The contract a client of the page allocator relies on: while pages are available an allocation
  returns one of them and takes it out of the supply; with none available it returns 0 and
  changes nothing; every address is that of a 4096-byte page below 4 GiB.
\<close>

locale page_source =
  fixes alloc :: "'s \<Rightarrow> (u64 \<times> 's) result"
    and avail :: "'s \<Rightarrow> u64 set"
    and ok :: "'s \<Rightarrow> bool"
  assumes alloc_page: "ok s \<Longrightarrow> avail s \<noteq> {} \<Longrightarrow>
      \<exists>a t. alloc s = Inr (a, t) \<and> a \<in> avail s \<and> avail t = avail s - {a} \<and> ok t"
    and alloc_empty: "ok s \<Longrightarrow> avail s = {} \<Longrightarrow> alloc s = Inr (0, s)"
    and avail_pages: "ok s \<Longrightarrow> a \<in> avail s \<Longrightarrow> \<exists>i < 1048576. a = page_addr i"
    and avail_finite: "ok s \<Longrightarrow> finite (avail s)"

text \<open>A run of allocations, and the addresses it returned.\<close>

fun alloc_many :: "('s \<Rightarrow> (u64 \<times> 's) result) \<Rightarrow> nat \<Rightarrow> 's \<Rightarrow> (u64 list \<times> 's) result" where
  "alloc_many alloc 0 s = Inr ([], s)"
| "alloc_many alloc (Suc n) s =
     bind_r (alloc s) (\<lambda>(a, s). bind_r (alloc_many alloc n s) (\<lambda>(as, s). Inr (a # as, s)))"

context page_source begin

lemma alloc_many_distinct:
  "ok s \<Longrightarrow> n \<le> card (avail s) \<Longrightarrow>
    \<exists>as t. alloc_many alloc n s = Inr (as, t) \<and> length as = n \<and> distinct as
      \<and> set as \<subseteq> avail s \<and> avail t = avail s - set as \<and> ok t"
proof (induction n arbitrary: s)
  case 0
  then show ?case by simp
next
  case (Suc n)
  then have "avail s \<noteq> {}" by auto
  with alloc_page Suc.prems(1) obtain a t where
    t: "alloc s = Inr (a, t)" "a \<in> avail s" "avail t = avail s - {a}" "ok t" by blast
  have "n \<le> card (avail t)" using Suc.prems t(2,3) avail_finite by simp
  from Suc.IH [OF t(4) this] t show ?case by auto
qed

lemma alloc_cases:
  assumes "ok s"
  obtains (page) a t where "alloc s = Inr (a, t)" "a \<in> avail s" "avail t = avail s - {a}" "ok t"
  | (none) "alloc s = Inr (0, s)" "avail s = {}"
  using alloc_page [OF assms] alloc_empty [OF assms] by blast

lemma avail_disjoint:
  assumes "ok s" and "a \<in> avail s" and "b \<in> avail s" and "a \<noteq> b"
  shows "unat a + 4096 \<le> unat b \<or> unat b + 4096 \<le> unat a"
proof -
  obtain i j where "i < 1048576" "j < 1048576" "a = page_addr i" "b = page_addr j"
    using avail_pages assms by metis
  moreover from this assms(4) have "i < j \<or> j < i" by (metis nat_neq_iff)
  ultimately show ?thesis by (auto simp: unat_page_addr)
qed

end

definition page_avail :: "pmm \<Rightarrow> u64 set" where
  "page_avail p = page_addr ` {i. i < unat (pages_num p) \<and> page_view p ! i}"

lemma page_addr_inj: "i \<le> 1048576 \<Longrightarrow> j \<le> 1048576 \<Longrightarrow> page_addr i = page_addr j \<Longrightarrow> i = j"
  using unat_page_addr [of i] unat_page_addr [of j] by (metis mult_left_cancel zero_neq_numeral)

lemma page_avail_empty: "page_avail p = {} \<longleftrightarrow> True \<notin> set (page_view p)"
  by (auto simp: page_avail_def in_set_conv_nth)

lemma page_avail_take:
  assumes "pmm_ok p" and "i < unat (pages_num p)" and "page_view q = (page_view p)[i := False]"
    and "pages_num q = pages_num p"
  shows "page_avail q = page_avail p - {page_addr i}"
proof -
  let ?F = "{j. j < unat (pages_num p) \<and> page_view p ! j}"
  have eq: "{j. j < unat (pages_num q) \<and> page_view q ! j} = ?F - {i}"
    unfolding assms(3,4) using assms(2) by (auto simp: nth_list_update split: if_splits)
  have num: "unat (pages_num p) \<le> 1048576" using assms(1) by (simp add: pmm_ok_def)
  have inj: "page_addr j \<noteq> page_addr i" if "j \<in> ?F" "j \<noteq> i" for j
  proof
    assume "page_addr j = page_addr i"
    then have "j = i" using that(1) assms(2) num by (intro page_addr_inj) simp_all
    with that(2) show False by simp
  qed
  show ?thesis unfolding page_avail_def eq
  proof (intro equalityI subsetI)
    fix a assume "a \<in> page_addr ` (?F - {i})"
    then show "a \<in> page_addr ` ?F - {page_addr i}" using inj by fastforce
  next
    fix a assume "a \<in> page_addr ` ?F - {page_addr i}"
    then show "a \<in> page_addr ` (?F - {i})" by fastforce
  qed
qed

interpretation pages: page_source pmm_alloc page_avail pmm_ok
proof (unfold_locales, goal_cases)
  case (1 p)
  then have mem: "True \<in> set (page_view p)" using page_avail_empty by blast
  note ix = free_index_less [OF mem]
  from mem pmm_alloc_allocates [OF 1(1)] obtain q where
    q: "pmm_alloc p = Inr (page_addr (free_index (page_view p)), q)" "pmm_ok q"
      "pages_num q = pages_num p" "page_view q = (page_view p)[free_index (page_view p) := False]"
    by (auto simp: allocates_def)
  then show ?case using ix page_avail_take [OF 1(1) _ q(4,3)] by (auto simp: page_avail_def)
next
  case (2 p)
  with pmm_alloc_allocates [of p] show ?case by (simp add: page_avail_empty allocates_def)
next
  case (3 p a)
  then show ?case by (force simp: page_avail_def pmm_ok_def)
next
  case (4 p)
  then show ?case by (simp add: page_avail_def)
qed

lemma card_page_avail:
  assumes "pmm_ok p"
  shows "card (page_avail p) = unat (free_pages p)"
proof -
  have "inj_on page_addr {i. i < unat (pages_num p) \<and> page_view p ! i}"
    using assms by (intro inj_onI page_addr_inj) (auto simp: pmm_ok_def)
  then have "card (page_avail p) = card {i. i < length (page_view p) \<and> page_view p ! i}"
    by (simp add: page_avail_def card_image)
  also have "\<dots> = count_list (page_view p) True"
  proof -
    have "(=) True = (\<lambda>b. b)" by auto
    then show ?thesis
      by (simp add: count_list_eq_length_filter length_filter_conv_card del: length_page_view)
  qed
  finally show ?thesis using assms by (simp add: pmm_ok_def)
qed

text \<open>
  C25: as many allocations as \<open>free_pages\<close> says succeed, return pairwise different page addresses
  that were free before, and leave exactly the other free pages available.
\<close>

theorem pmm_allocations_distinct:
  assumes "pmm_ok p" and "n \<le> unat (pmm_get_free_pages p)"
  shows "\<exists>as q. alloc_many pmm_alloc n p = Inr (as, q) \<and> length as = n \<and> distinct as
    \<and> set as \<subseteq> page_avail p \<and> page_avail q = page_avail p - set as \<and> pmm_ok q"
  using assms pages.alloc_many_distinct [of p n] card_page_avail [of p]
  by (simp add: pmm_get_free_pages_def)

theorem pmm_allocations_distinct_witness:
  "\<exists>a b q. alloc_many pmm_alloc 2 sample_pmm = Inr ([a, b], q) \<and> a \<noteq> b"
proof -
  have "2 \<le> unat (pmm_get_free_pages sample_pmm)"
    by (simp add: pmm_get_free_pages_def sample_pages)
  from pmm_allocations_distinct [OF sample_ok this] obtain as q where
    "alloc_many pmm_alloc 2 sample_pmm = Inr (as, q)" "length as = 2" "distinct as" by blast
  then show ?thesis by (auto simp: length_Suc_conv numeral_2_eq_2)
qed

end
