(* ===== verification/Ports.thy ===== *)
theory Ports
  imports Kernel_Base "HOL-Library.Signed_Division"
begin

text \<open>
  Port I/O and the three devices programmed by a few port writes each: \<open>io.h\<close>, the interrupt
  controllers (\<open>pic.c\<close>), the interval timer (\<open>pit.c\<close>) and the speaker (\<open>beep.c\<close>).

  The kernel's port accesses are a trace of events, the oldest first. What a device answers to a
  read is not kernel code: it is a parameter \<open>d\<close>, an arbitrary function of the whole trace
  so far and the port. The specifications read the trace back the way the programmed chip does.
\<close>

section \<open>Port accesses (io.h)\<close>

text \<open>
  \<open>Spin n\<close> is not a port access: it records one busy-wait of \<open>n\<close> iterations on a volatile
  counter, the only other effect of these files that the outside can observe.
\<close>

datatype io_event = Out8 u16 u8 | In8 u16 u8 | In16 u16 u16 | Spin u32

type_synonym trace = "io_event list"

record device =
  dev_in8 :: "trace \<Rightarrow> u16 \<Rightarrow> u8"
  dev_in16 :: "trace \<Rightarrow> u16 \<Rightarrow> u16"

definition outb :: "u16 \<Rightarrow> u8 \<Rightarrow> trace \<Rightarrow> trace" where
  "outb port val tr = tr @ [Out8 port val]"

definition inb :: "device \<Rightarrow> u16 \<Rightarrow> trace \<Rightarrow> u8 \<times> trace" where
  "inb d port tr = (let val = dev_in8 d tr port in (val, tr @ [In8 port val]))"

definition io_wait :: "trace \<Rightarrow> trace" where
  "io_wait tr = outb 0x80 0x00 tr"

text \<open>The string instruction \<open>rep insw\<close>: \<open>n\<close> words from one port, in order.\<close>

primrec insw :: "device \<Rightarrow> u16 \<Rightarrow> nat \<Rightarrow> trace \<Rightarrow> u16 list \<times> trace" where
  "insw d port 0 tr = ([], tr)"
| "insw d port (Suc n) tr =
    (let w = dev_in16 d tr port; (ws, tr') = insw d port n (tr @ [In16 port w]) in (w # ws, tr'))"

section \<open>The interrupt controllers (pic.c)\<close>

definition pic_init :: "trace \<Rightarrow> trace" where
  "pic_init tr =
    (let tr = io_wait (outb 0x20 0x11 tr);
         tr = io_wait (outb 0x21 0x20 tr);
         tr = io_wait (outb 0x21 0x04 tr);
         tr = io_wait (outb 0x21 0x01 tr);
         tr = io_wait (outb 0xA0 0x11 tr);
         tr = io_wait (outb 0xA1 0x28 tr);
         tr = io_wait (outb 0xA1 0x02 tr);
         tr = io_wait (outb 0xA1 0x01 tr);
         tr = outb 0x21 0xFF tr
     in outb 0xA1 0xFF tr)"

definition pic_eoi :: "s32 \<Rightarrow> trace \<Rightarrow> trace" where
  "pic_eoi irq tr =
    (let tr = io_wait (outb 0x20 0x20 tr)
     in if 7 < sint irq then outb 0xA0 0x20 tr else tr)"

text \<open>
  \<open>irq % 8\<close> is negative for a negative \<open>irq\<close> that is not a multiple of 8, and the shift is
  then undefined.
\<close>

definition pic_unmask :: "device \<Rightarrow> s32 \<Rightarrow> trace \<Rightarrow> trace result" where
  "pic_unmask d irq tr =
    (let port = (if sint irq < 8 then 0x21 else 0xA1 :: u16);
         (currval, tr) = inb d port tr;
         tr = io_wait tr;
         k = sint irq smod 8
     in if k < 0 then Inl Bad_shift
        else let newval = ucast (ucast currval AND NOT (push_bit (nat k) 1 :: s32)) :: u8
             in Inr (io_wait (outb port newval tr)))"

section \<open>The interval timer (pit.c) and the speaker (beep.c)\<close>

definition TICK_HZ :: int where "TICK_HZ = 100"

definition pit_init :: "device \<Rightarrow> trace \<Rightarrow> trace result" where
  "pit_init d tr =
    (let divisor = of_int (1193182 div TICK_HZ) :: u16;
         tr = outb 0x43 0x36 tr;
         tr = outb 0x40 (ucast (divisor AND 0xFF)) tr;
         tr = outb 0x40 (ucast (drop_bit 8 divisor AND 0xFF)) tr
     in pic_unmask d 0 tr)"

text \<open>\<open>tick_count\<close> is the state of \<open>pit.c\<close>; it wraps at 32 bits.\<close>

definition pit_get_ticks :: "u32 \<Rightarrow> u32" where "pit_get_ticks tick_count = tick_count"

definition inc_ticks :: "u32 \<Rightarrow> u32" where "inc_ticks tick_count = tick_count + 1"

definition speaker_delay :: "u32 \<Rightarrow> trace \<Rightarrow> trace" where
  "speaker_delay iterations tr = tr @ [Spin iterations]"

definition beep :: "device \<Rightarrow> u32 \<Rightarrow> u32 \<Rightarrow> trace \<Rightarrow> trace result" where
  "beep d freq duration tr =
    (if freq = 0 then Inl Div_by_zero
     else
       let divisor = ucast (1193180 div freq) :: u16;
           tr = outb 0x43 0xB6 tr;
           tr = outb 0x42 (ucast (divisor AND 0xFF)) tr;
           tr = outb 0x42 (ucast (drop_bit 8 divisor)) tr;
           (tmp, tr) = inb d 0x61 tr;
           tr = outb 0x61 (tmp OR 0x03) tr;
           tr = speaker_delay duration tr;
           tr = outb 0x61 (tmp AND NOT 0x03) tr
       in Inr (speaker_delay (duration div 2) tr))"

definition beep_n :: "device \<Rightarrow> s32 \<Rightarrow> trace \<Rightarrow> trace result" where
  "beep_n d n tr = for_r (nat (sint n)) (\<lambda>i. beep d 1000 1500000000) tr"

lemmas port_defs = outb_def inb_def io_wait_def

section \<open>What the programmed interrupt controllers make of the trace\<close>

text \<open>
  The two controllers as far as the kernel's writes reach them: a command byte with bit 4 set
  starts the four-word initialisation, whose remaining words arrive at the data port; a ready
  controller takes a data byte as its new mask. The state before the trace is arbitrary.
\<close>

record pic_chip =
  chip_step :: nat
  chip_base :: u8
  chip_link :: u8
  chip_mode :: u8
  chip_mask :: u8

definition chip_command :: "u8 \<Rightarrow> pic_chip \<Rightarrow> pic_chip" where
  "chip_command v c = (if bit v 4 then c\<lparr>chip_step := 2, chip_mask := 0\<rparr> else c)"

definition chip_data :: "u8 \<Rightarrow> pic_chip \<Rightarrow> pic_chip" where
  "chip_data v c =
    (if chip_step c = 2 then c\<lparr>chip_base := v AND 0xF8, chip_step := 3\<rparr>
     else if chip_step c = 3 then c\<lparr>chip_link := v, chip_step := 4\<rparr>
     else if chip_step c = 4 then c\<lparr>chip_mode := v, chip_step := 0\<rparr>
     else c\<lparr>chip_mask := v\<rparr>)"

record pics =
  master :: pic_chip
  slave :: pic_chip

fun pics_event :: "io_event \<Rightarrow> pics \<Rightarrow> pics" where
  "pics_event (Out8 port v) p =
    (if port = 0x20 then p\<lparr>master := chip_command v (master p)\<rparr>
     else if port = 0x21 then p\<lparr>master := chip_data v (master p)\<rparr>
     else if port = 0xA0 then p\<lparr>slave := chip_command v (slave p)\<rparr>
     else if port = 0xA1 then p\<lparr>slave := chip_data v (slave p)\<rparr>
     else p)"
| "pics_event (In8 port v) p = p"
| "pics_event (In16 port v) p = p"
| "pics_event (Spin n) p = p"

definition pics_after :: "pics \<Rightarrow> trace \<Rightarrow> pics" where
  "pics_after p tr = fold pics_event tr p"

lemma pics_after_append [simp]: "pics_after p (tr @ es) = fold pics_event es (pics_after p tr)"
  by (simp add: pics_after_def)

text \<open>Accesses that do not reach the controllers; an end of interrupt does not change their setup.\<close>

fun pic_free :: "io_event \<Rightarrow> bool" where
  "pic_free (Out8 port v) = (port \<notin> {0x20, 0x21, 0xA0, 0xA1} \<or> port = 0x20 \<and> v = 0x20)"
| "pic_free (In8 port v) = True"
| "pic_free (In16 port v) = True"
| "pic_free (Spin n) = True"

lemma pics_after_free: "list_all pic_free es \<Longrightarrow> fold pics_event es p = p"
proof (induction es)
  case (Cons e es)
  then have "pics_event e p = p" by (cases e) (auto simp: chip_command_def bit_simps)
  with Cons show ?case by simp
qed simp

definition pics_ready :: "pics \<Rightarrow> bool" where
  "pics_ready p = (chip_step (master p) = 0 \<and> chip_step (slave p) = 0)"

definition irq_masked :: "pics \<Rightarrow> nat \<Rightarrow> bool" where
  "irq_masked p n = (if n < 8 then bit (chip_mask (master p)) n else bit (chip_mask (slave p)) (n - 8))"

definition irq_vector :: "pics \<Rightarrow> nat \<Rightarrow> nat" where
  "irq_vector p n =
    (if n < 8 then unat (chip_base (master p)) + n else unat (chip_base (slave p)) + (n - 8))"

definition pics_set :: pics where
  "pics_set =
    \<lparr>master = \<lparr>chip_step = 0, chip_base = 0x20, chip_link = 4, chip_mode = 1, chip_mask = 0xFF\<rparr>,
     slave = \<lparr>chip_step = 0, chip_base = 0x28, chip_link = 2, chip_mode = 1, chip_mask = 0xFF\<rparr>\<rparr>"

lemma pic_init_sets: "pics_after p (pic_init tr) = pics_set"
  by (simp add: pic_init_def Let_def port_defs chip_command_def chip_data_def pics_set_def bit_simps)

lemma pics_set_ready [simp]: "pics_ready pics_set"
  by (simp add: pics_set_def pics_ready_def)

lemma pics_set_masked: "n < 16 \<Longrightarrow> irq_masked pics_set n"
  by (auto simp: pics_set_def irq_masked_def bit_simps less_Suc_eq numeral_eq_Suc)

lemma pics_set_vector: "n < 16 \<Longrightarrow> irq_vector pics_set n = 32 + n"
  by (simp add: pics_set_def irq_vector_def)

text \<open>
  whatever state the two controllers were in, after \<open>pic_init\<close> both are initialised, request
  line \<open>n\<close> raises vector \<open>32 + n\<close> (0x20 to 0x2F, clear of the CPU exceptions), and all sixteen
  lines are masked.
\<close>

theorem pic_init_remaps:
  assumes "n < 16"
  shows "pics_ready (pics_after p (pic_init tr)) \<and> irq_vector (pics_after p (pic_init tr)) n = 32 + n
    \<and> irq_masked (pics_after p (pic_init tr)) n"
  using assms by (simp add: pic_init_sets pics_set_masked pics_set_vector)

theorem pic_init_remaps_witness:
  "irq_vector (pics_after pics_set (pic_init [Out8 0x20 0x11])) 15 = 47"
  using pic_init_remaps [of 15 pics_set "[Out8 0x20 0x11]"] by simp

subsection \<open>Unmasking one line\<close>

text \<open>A ready controller answers a read of its data port with its mask.\<close>

definition mask_readback :: "device \<Rightarrow> pics \<Rightarrow> bool" where
  "mask_readback d p =
    (\<forall>tr. pics_ready (pics_after p tr) \<longrightarrow>
       dev_in8 d tr 0x21 = chip_mask (master (pics_after p tr))
       \<and> dev_in8 d tr 0xA1 = chip_mask (slave (pics_after p tr)))"

lemma mask_bit:
  assumes "k < 8" and "n < 8"
  shows "bit (ucast (ucast (m :: u8) AND NOT (push_bit k 1 :: s32)) :: u8) n \<longleftrightarrow> bit m n \<and> n \<noteq> k"
  using assms by (auto simp: bit_simps simp del: push_bit_of_1)

definition unmasked :: "pics \<Rightarrow> nat \<Rightarrow> pics \<Rightarrow> bool" where
  "unmasked p irq q \<longleftrightarrow> pics_ready q
    \<and> (\<forall>n<16. irq_masked q n = (irq_masked p n \<and> n \<noteq> irq) \<and> irq_vector q n = irq_vector p n)"

lemma pic_unmask_clears:
  assumes "mask_readback d p" and "pics_ready (pics_after p tr)" and "0 \<le> sint irq" and "sint irq < 16"
  shows "ok_r (\<lambda>tr'. unmasked (pics_after p tr) (nat (sint irq)) (pics_after p tr')) (pic_unmask d irq tr)"
proof -
  define k where "k = nat (sint irq)"
  have k: "sint irq = int k" "k < 16" using assms(3,4) by (auto simp: k_def)
  have rem: "int k smod 8 = int (k mod 8)" by (cases "k = 0") (simp_all add: signed_modulo_int_def zmod_int)
  have ready: "chip_step (master (pics_after p tr)) = 0" "chip_step (slave (pics_after p tr)) = 0"
    using assms(2) by (simp_all add: pics_ready_def)
  have answer: "dev_in8 d tr 0x21 = chip_mask (master (pics_after p tr))"
    "dev_in8 d tr 0xA1 = chip_mask (slave (pics_after p tr))"
    using assms(1,2) by (simp_all add: mask_readback_def)
  show ?thesis
  proof (cases "k < 8")
    case True
    then show ?thesis
      by (auto simp: pic_unmask_def k rem port_defs Let_def chip_data_def ready answer unmasked_def
          pics_ready_def irq_masked_def irq_vector_def mask_bit simp del: push_bit_of_1)
  next
    case False
    then have "k mod 8 = k - 8" "k - 8 < 8" using k(2) by (simp_all add: mod_if)
    with False show ?thesis
      by (auto simp: pic_unmask_def k rem port_defs Let_def chip_data_def ready answer unmasked_def
          pics_ready_def irq_masked_def irq_vector_def mask_bit simp del: push_bit_of_1)
  qed
qed

text \<open>
  on initialised controllers that answer a read of the data port with their mask,
  \<open>pic_unmask irq\<close> for any line 0 to 15 returns and unmasks exactly that line: every other line
  keeps its mask and every line keeps its vector.
\<close>

theorem pic_unmask_correct:
  assumes "mask_readback d p" and "pics_ready (pics_after p tr)" and "0 \<le> sint irq" and "sint irq < 16"
  shows "\<exists>tr'. pic_unmask d irq tr = Inr tr' \<and> pics_ready (pics_after p tr')
    \<and> (\<forall>n<16. irq_masked (pics_after p tr') n = (irq_masked (pics_after p tr) n \<and> n \<noteq> nat (sint irq))
        \<and> irq_vector (pics_after p tr') n = irq_vector (pics_after p tr) n)"
  using pic_unmask_clears [OF assms] by (auto simp: ok_r_iff unmasked_def)

definition sample_device :: device where
  "sample_device =
    \<lparr>dev_in8 = (\<lambda>tr port. if port = 0x21 then chip_mask (master (pics_after pics_set tr))
        else if port = 0xA1 then chip_mask (slave (pics_after pics_set tr)) else 0x58),
     dev_in16 = (\<lambda>tr port. 0)\<rparr>"

lemma sample_device_readback: "mask_readback sample_device pics_set"
  by (simp add: mask_readback_def sample_device_def)

theorem pic_unmask_correct_witness:
  "\<exists>tr'. pic_unmask sample_device 12 (pic_init []) = Inr tr' \<and> \<not> irq_masked (pics_after pics_set tr') 12
    \<and> irq_masked (pics_after pics_set tr') 1"
proof -
  have "pics_ready (pics_after pics_set (pic_init []))" by (simp add: pic_init_sets)
  from pic_unmask_correct [OF sample_device_readback this, of 12] show ?thesis
    by (auto simp: pic_init_sets pics_set_masked)
qed

section \<open>What the programmed timer makes of the trace\<close>

text \<open>
  One channel of the interval timer: a control byte for the channel selects its mode (all of the
  kernel's control bytes ask for both count bytes, low one first) and starts a count load.
\<close>

record timer_channel =
  ch_high_next :: bool
  ch_low :: u8
  ch_mode :: u8
  ch_reload :: u16

fun channel_event :: "u8 \<Rightarrow> io_event \<Rightarrow> timer_channel \<Rightarrow> timer_channel" where
  "channel_event c (Out8 port v) ch =
    (if port = 0x43 then
       (if drop_bit 6 v = c then ch\<lparr>ch_mode := drop_bit 1 v AND 7, ch_high_next := False\<rparr> else ch)
     else if port = 0x40 + ucast c then
       (if ch_high_next ch
        then ch\<lparr>ch_reload := push_bit 8 (ucast v) OR ucast (ch_low ch), ch_high_next := False\<rparr>
        else ch\<lparr>ch_low := v, ch_high_next := True\<rparr>)
     else ch)"
| "channel_event c (In8 port v) ch = ch"
| "channel_event c (In16 port v) ch = ch"
| "channel_event c (Spin n) ch = ch"

definition channel_after :: "u8 \<Rightarrow> timer_channel \<Rightarrow> trace \<Rightarrow> timer_channel" where
  "channel_after c ch tr = fold (channel_event c) tr ch"

lemma channel_after_append [simp]:
  "channel_after c ch (tr @ es) = fold (channel_event c) es (channel_after c ch tr)"
  by (simp add: channel_after_def)

text \<open>The accesses to the speaker's port 0x61 and the busy-waits, in order.\<close>

fun speaker_event :: "io_event \<Rightarrow> bool" where
  "speaker_event (Out8 port v) = (port = 0x61)"
| "speaker_event (In8 port v) = False"
| "speaker_event (In16 port v) = False"
| "speaker_event (Spin n) = True"

lemma pic_unmask_channel:
  assumes "pic_unmask d irq tr = Inr tr'" and "c = 0 \<or> c = 2"
  shows "channel_after c ch tr' = channel_after c ch tr"
proof -
  have "\<exists>port v. tr' = tr @ [In8 port (dev_in8 d tr port), Out8 0x80 0, Out8 port v, Out8 0x80 0]
      \<and> (port = 0x21 \<or> port = 0xA1)"
    using assms(1) by (auto simp: pic_unmask_def port_defs Let_def split: if_splits)
  with assms(2) show ?thesis by auto
qed

lemma word_bytes: "push_bit 8 (ucast (ucast (drop_bit 8 w) :: u8)) OR ucast (ucast w :: u8) = (w :: u16)"
  by (rule bit_word_eqI) (auto simp: bit_simps)

text \<open>
  on initialised controllers that answer a read of the data port with their mask,
  \<open>pit_init\<close> programs channel 0 as a square-wave generator with reload value 11931, which divides
  the timer's 1193182 Hz to \<open>TICK_HZ\<close> (100) interrupts a second, and unmasks line 0 and no other.
\<close>

theorem pit_init_correct:
  assumes "mask_readback d p" and "pics_ready (pics_after p tr)"
  shows "\<exists>tr'. pit_init d tr = Inr tr'
    \<and> ch_mode (channel_after 0 ch tr') = 3 \<and> ch_reload (channel_after 0 ch tr') = 11931
    \<and> 1193182 div uint (ch_reload (channel_after 0 ch tr')) = TICK_HZ
    \<and> (\<forall>n<16. irq_masked (pics_after p tr') n = (irq_masked (pics_after p tr) n \<and> n \<noteq> 0))"
proof -
  let ?tr = "tr @ [Out8 0x43 0x36, Out8 0x40 0x9B, Out8 0x40 0x2E]"
  have run: "pit_init d tr = pic_unmask d 0 ?tr"
    by (simp add: pit_init_def Let_def port_defs TICK_HZ_def)
  have "pics_after p ?tr = pics_after p tr" by simp
  with assms pic_unmask_clears [of d p ?tr 0] have "ok_r (\<lambda>tr'. unmasked (pics_after p tr) 0 (pics_after p tr')) (pit_init d tr)"
    by (simp add: run)
  then obtain tr' where tr': "pit_init d tr = Inr tr'" "unmasked (pics_after p tr) 0 (pics_after p tr')"
    by (auto simp: ok_r_iff)
  have "channel_after 0 ch tr' = channel_after 0 ch ?tr"
    using tr'(1) by (intro pic_unmask_channel) (simp_all add: run)
  with tr' show ?thesis by (auto simp: unmasked_def TICK_HZ_def)
qed

theorem pit_init_correct_witness:
  "\<exists>tr'. pit_init sample_device (pic_init []) = Inr tr'
    \<and> \<not> irq_masked (pics_after pics_set tr') 0 \<and> irq_masked (pics_after pics_set tr') 14"
proof -
  have "pics_ready (pics_after pics_set (pic_init []))" by (simp add: pic_init_sets)
  from pit_init_correct [OF sample_device_readback this, of undefined] show ?thesis
    by (auto simp: pic_init_sets pics_set_masked)
qed

lemma beep_runs:
  assumes "f \<noteq> 0"
  shows "\<exists>es tmp. beep d f n tr = Inr (tr @ es) \<and> In8 0x61 tmp \<in> set es
    \<and> filter speaker_event es =
        [Out8 0x61 (tmp OR 3), Spin n, Out8 0x61 (tmp AND NOT 3), Spin (n div 2)]
    \<and> ch_mode (channel_after 2 ch (tr @ es)) = 3
    \<and> ch_reload (channel_after 2 ch (tr @ es)) = ucast (1193180 div f)"
proof -
  let ?div = "ucast (1193180 div f) :: u16"
  let ?pre = "[Out8 0x43 0xB6, Out8 0x42 (ucast (?div AND 0xFF)), Out8 0x42 (ucast (drop_bit 8 ?div))]"
  let ?tmp = "dev_in8 d (tr @ ?pre) 0x61"
  let ?es = "?pre @ [In8 0x61 ?tmp, Out8 0x61 (?tmp OR 3), Spin n, Out8 0x61 (?tmp AND NOT 3), Spin (n div 2)]"
  have low: "ucast (w AND 0xFF) = (ucast w :: u8)" for w :: u16
    by (rule bit_word_eqI) (auto simp: bit_simps bit_numeral_rec less_Suc_eq numeral_eq_Suc)
  have "beep d f n tr = Inr (tr @ ?es)"
    using assms by (simp add: beep_def Let_def port_defs speaker_delay_def)
  moreover have "ch_mode (channel_after 2 ch (tr @ ?es)) = 3"
    "ch_reload (channel_after 2 ch (tr @ ?es)) = ?div"
    by (simp_all add: low word_bytes)
  ultimately show ?thesis by (intro exI [of _ ?es] exI [of _ ?tmp]) simp
qed

text \<open>
  \<open>beep\<close> divides by the frequency, so 0 is an error; for any other frequency it programs
  channel 2 with 1193180 divided by the frequency (cut to 16 bits, so frequencies below 19 Hz are
  not reached), switches the speaker on for \<open>duration\<close> iterations and off for half of that, and
  leaves the six other bits of port 0x61 as it read them.
\<close>

theorem beep_correct:
  "if f = 0 then beep d f n tr = Inl Div_by_zero
   else \<exists>es tmp. beep d f n tr = Inr (tr @ es) \<and> In8 0x61 tmp \<in> set es
     \<and> filter speaker_event es =
         [Out8 0x61 (tmp OR 3), Spin n, Out8 0x61 (tmp AND NOT 3), Spin (n div 2)]
     \<and> ch_mode (channel_after 2 ch (tr @ es)) = 3
     \<and> ch_reload (channel_after 2 ch (tr @ es)) = ucast (1193180 div f)"
  using beep_runs [of f d n tr ch] by (simp add: beep_def)

text \<open>\<open>beep_n n\<close> plays \<open>n\<close> tones (none for a negative \<open>n\<close>) and always returns.\<close>

lemma beep_n_tones:
  "ok_r (\<lambda>tr'. length (filter (\<lambda>e. e = Spin 1500000000) tr')
      = length (filter (\<lambda>e. e = Spin 1500000000) tr) + nat (sint n)) (beep_n d n tr)"
proof -
  let ?tones = "\<lambda>t. length (filter (\<lambda>e. e = Spin 1500000000) t)"
  have tone: "ok_r (\<lambda>t'. ?tones t' = Suc (?tones t)) (beep d 1000 1500000000 t)" for t
    by (simp add: beep_def Let_def port_defs speaker_delay_def)
  have "ok_r (\<lambda>t. ?tones t = ?tones tr + nat (sint n)) (for_r (nat (sint n)) (\<lambda>i. beep d 1000 1500000000) tr)"
    by (rule for_r_inv [where I = "\<lambda>i t. ?tones t = ?tones tr + i"], simp) (rule ok_r_mono [OF tone], simp)
  then show ?thesis by (simp add: beep_n_def)
qed

end
