(* ===== verification/Ata.thy ===== *)
theory Ata
  imports Ports
begin

text \<open>
  The ATA disk driver of \<open>ata.c\<close>: identification with its two bounded polls, the drive record
  built from the answer, and polled sector reads. The disk is the device parameter of
  \<open>Ports\<close>; the console that \<open>ata_init\<close> reports a failure on is an argument, instantiated with
  the framebuffer console where the kernel is put together.
\<close>

section \<open>The driver\<close>

record ata_drive =
  model :: "u8 list"
  present :: u8
  total_sectors :: u64

text \<open>\<open>static ata_drive_t drive\<close> at boot: all zero.\<close>

definition drive_boot :: ata_drive where
  "drive_boot = \<lparr>model = replicate 41 0, present = 0, total_sectors = 0\<rparr>"

definition ata_get_drive :: "ata_drive \<Rightarrow> ata_drive" where
  "ata_get_drive drive = drive"

text \<open>
  \<open>while (cond (inb (0x3F6)) && --timeout);\<close> for a positive \<open>timeout\<close>: the returned count is 0
  when the polls ran out.
\<close>

fun poll_status :: "device \<Rightarrow> (u8 \<Rightarrow> bool) \<Rightarrow> nat \<Rightarrow> trace \<Rightarrow> nat \<times> trace" where
  "poll_status d cond 0 tr = (0, tr)"
| "poll_status d cond (Suc t) tr =
    (let (status, tr) = inb d 0x3F6 tr
     in if cond status then (if t = 0 then (0, tr) else poll_status d cond t tr) else (Suc t, tr))"

definition busy :: "u8 \<Rightarrow> bool" where "busy status = (status AND 0x80 \<noteq> 0)"

definition no_data :: "u8 \<Rightarrow> bool" where "no_data status = (status AND 0x08 = 0)"

definition ata_identify :: "device \<Rightarrow> u16 list \<Rightarrow> trace \<Rightarrow> (s32 \<times> u16 list \<times> trace) result" where
  "ata_identify d buf tr =
    (let tr = outb 0x1F6 0xA0 tr;
         tr = outb 0x1F2 0x00 tr;
         tr = outb 0x1F3 0x00 tr;
         tr = outb 0x1F4 0x00 tr;
         tr = outb 0x1F5 0x00 tr;
         tr = outb 0x1F7 0xEC tr;
         (status, tr) = inb d 0x3F6 tr
     in if status = 0 then Inr (- 1, buf, tr)
        else let (timeout, tr) = poll_status d busy 100000 tr
          in if timeout = 0 then Inr (- 1, buf, tr)
             else let (timeout, tr) = poll_status d no_data 100000 tr
               in if timeout = 0 then Inr (- 1, buf, tr)
                  else let (ws, tr) = insw d 0x1F0 256 tr
                    in bind_r (store_block buf 0 ws) (\<lambda>buf. Inr (0, buf, tr)))"

text \<open>One round of the loop that unpacks the model name, high byte first.\<close>

definition unpack_word :: "u16 list \<Rightarrow> nat \<Rightarrow> u8 list \<Rightarrow> u8 list result" where
  "unpack_word buf i m =
    bind_r (fetch buf (i + 27)) (\<lambda>w.
    bind_r (store m (i * 2) (ucast (drop_bit 8 w))) (\<lambda>m.
    store m (i * 2 + 1) (ucast (w AND 0xFF))))"

text \<open>\<open>trim_model (i + 1)\<close> is the loop that blanks trailing spaces, at index \<open>i\<close>.\<close>

primrec trim_model :: "nat \<Rightarrow> u8 list \<Rightarrow> u8 list result" where
  "trim_model 0 m = Inr m"
| "trim_model (Suc i) m =
    bind_r (fetch m i) (\<lambda>c. if c = 0x20 then bind_r (store m i 0) (trim_model i) else Inr m)"

definition read_model :: "u16 list \<Rightarrow> u8 list \<Rightarrow> u8 list result" where
  "read_model buf m =
    bind_r (for_r 20 (unpack_word buf) m) (\<lambda>m. bind_r (store m 40 0) (trim_model 40))"

definition read_sector_count :: "u16 list \<Rightarrow> u64 result" where
  "read_sector_count buf =
    bind_r (fetch buf 103) (\<lambda>w3. bind_r (fetch buf 102) (\<lambda>w2.
    bind_r (fetch buf 101) (\<lambda>w1. bind_r (fetch buf 100) (\<lambda>w0.
    bind_r (fetch buf 61) (\<lambda>v1. bind_r (fetch buf 60) (\<lambda>v0.
      let lba48 = push_bit 48 (ucast w3) OR push_bit 32 (ucast w2) OR push_bit 16 (ucast w1) OR ucast w0 :: u64;
          lba32 = push_bit 16 (ucast v1) OR ucast v0 :: u32
      in Inr (if lba48 \<noteq> 0 then lba48 else ucast lba32)))))))"

text \<open>\<open>buf\<close> is the uninitialised stack array \<open>buf[256]\<close>.\<close>

definition ata_init_on ::
  "(u8 list \<Rightarrow> 'c \<Rightarrow> 'c result) \<Rightarrow> device \<Rightarrow> u16 list \<Rightarrow> ata_drive \<Rightarrow> 'c \<Rightarrow> trace
    \<Rightarrow> (ata_drive \<times> 'c \<times> trace) result" where
  "ata_init_on println d buf drive con tr =
    bind_r (ata_identify d buf tr) (\<lambda>(r, buf, tr).
      if r \<noteq> 0
      then bind_r (println (lit ''Drive identification failed'') con) (\<lambda>con. Inr (drive, con, tr))
      else bind_r (read_model buf (model drive)) (\<lambda>m.
        bind_r (read_sector_count buf) (\<lambda>n.
          Inr (drive\<lparr>model := m, present := 1, total_sectors := n\<rparr>, con, tr))))"

text \<open>\<open>while (cond (inb (0x3F6)));\<close> may never end: no value.\<close>

partial_function (option) wait_while :: "device \<Rightarrow> (u8 \<Rightarrow> bool) \<Rightarrow> trace \<Rightarrow> trace option" where
  "wait_while d cond tr =
    (let (status, tr) = inb d 0x3F6 tr in if cond status then wait_while d cond tr else Some tr)"

text \<open>
  One execution of \<open>rep insw\<close> with the count \<open>rcx\<close> and the buffer at word \<open>rdi\<close>; with a count of 0
  the instruction does nothing.
\<close>

definition rep_insw :: "device \<Rightarrow> nat \<times> nat \<Rightarrow> u16 list \<Rightarrow> trace \<Rightarrow> (u16 list \<times> trace) result" where
  "rep_insw d = (\<lambda>(rcx, rdi) buf tr.
    if rcx = 0 then Inr (buf, tr)
    else let (ws, tr) = insw d 0x1F0 rcx tr in bind_r (store_block buf rdi ws) (\<lambda>buf. Inr (buf, tr)))"

text \<open>
  The inline assembly of the loop names \<open>rcx\<close> and \<open>rdi\<close> as inputs, changes both, and does not say so.
  In front of its first execution they hold the operands; in front of a later one they hold them only if the
  compiler's code happens to load them again, which it need not. So what round \<open>i\<close> finds there is a parameter
  \<open>regs i\<close>: the count, and the position in words from the start of the buffer.
\<close>

primrec read_sectors ::
  "device \<Rightarrow> (nat \<Rightarrow> nat \<times> nat) \<Rightarrow> nat \<Rightarrow> nat \<Rightarrow> u16 list \<Rightarrow> trace \<Rightarrow> (u16 list \<times> trace) result option" where
  "read_sectors d regs 0 i buf tr = Some (Inr (buf, tr))"
| "read_sectors d regs (Suc n) i buf tr =
    Option.bind (wait_while d busy tr) (\<lambda>tr.
    Option.bind (wait_while d no_data tr) (\<lambda>tr.
      case rep_insw d (regs i) buf tr of
        Inl e \<Rightarrow> Some (Inl e)
      | Inr (buf, tr) \<Rightarrow> read_sectors d regs n (i + 1) buf tr))"

definition ata_read ::
  "device \<Rightarrow> (nat \<Rightarrow> nat \<times> nat) \<Rightarrow> u32 \<Rightarrow> u16 list \<Rightarrow> u8 \<Rightarrow> trace \<Rightarrow> (u16 list \<times> trace) result option" where
  "ata_read d regs lba buf sectors tr =
    (if sectors = 0 then Some (Inr (buf, tr))
     else Option.bind (wait_while d busy tr) (\<lambda>tr.
       let tr = outb 0x1F6 (ucast (0xE0 OR drop_bit 24 lba)) tr;
           tr = outb 0x1F3 (ucast lba) tr;
           tr = outb 0x1F4 (ucast (drop_bit 8 lba)) tr;
           tr = outb 0x1F5 (ucast (drop_bit 16 lba)) tr;
           tr = outb 0x1F2 sectors tr;
           tr = outb 0x1F7 0x20 tr
       in Option.bind (wait_while d busy tr) (\<lambda>tr.
          Option.bind (wait_while d no_data tr) (\<lambda>tr.
            read_sectors d regs (unat sectors) 0 buf tr))))"

section \<open>Identification\<close>

lemma insw_trace: "insw d port n tr = (ws, tr') \<Longrightarrow> tr' = tr @ map (In16 port) ws \<and> length ws = n"
  by (induction n arbitrary: tr ws tr') (fastforce simp: Let_def split: prod.splits)+

lemma poll_status_trace:
  "poll_status d cond t tr = (r, tr') \<Longrightarrow>
    \<exists>vs. tr' = tr @ map (In8 0x3F6) vs \<and> length vs \<le> t \<and> (r \<noteq> 0 \<longrightarrow> vs \<noteq> [] \<and> \<not> cond (last vs))"
proof (induction t arbitrary: tr r tr')
  case 0
  then show ?case by simp
next
  case (Suc t)
  let ?v = "dev_in8 d tr 0x3F6"
  show ?case
  proof (cases "cond ?v \<and> t \<noteq> 0")
    case True
    then have "poll_status d cond t (tr @ [In8 0x3F6 ?v]) = (r, tr')"
      using Suc.prems by (simp add: inb_def Let_def)
    from Suc.IH [OF this] obtain vs where "tr' = tr @ map (In8 0x3F6) (?v # vs)" "length vs \<le> t"
      "r \<noteq> 0 \<longrightarrow> vs \<noteq> [] \<and> \<not> cond (last vs)" by auto
    then show ?thesis by (intro exI [of _ "?v # vs"]) simp
  next
    case False
    then show ?thesis using Suc.prems
      by (intro exI [of _ "[?v]"]) (auto simp: inb_def Let_def split: if_splits)
  qed
qed

text \<open>Identification talks to the disk's ports only.\<close>

lemma ata_identify_ports:
  assumes "ata_identify d buf tr = Inr (r, buf', tr')"
  shows "\<exists>es. tr' = tr @ es \<and> list_all pic_free es"
proof -
  have polls: "\<exists>es. tr' = tr @ es \<and> list_all pic_free es" if "poll_status d cond n tr = (k, tr')" for cond n k tr tr'
    using poll_status_trace [OF that] by (fastforce simp: list_all_iff)
  have words: "\<exists>es. tr' = tr @ es \<and> list_all pic_free es" if "insw d port n tr = (ws, tr')" for port n ws tr tr'
    using insw_trace [OF that] by (fastforce simp: list_all_iff)
  show ?thesis
    using assms
    by (auto simp: ata_identify_def port_defs Let_def store_block_def split: if_splits prod.splits
        dest!: polls words)
qed

text \<open>
  What one identification can have done: on failure the buffer is untouched; on success the last
  status seen had its data bit set, and the buffer holds the 256 words read after it.
\<close>

definition identified :: "trace \<Rightarrow> u16 list \<Rightarrow> s32 \<times> u16 list \<times> trace \<Rightarrow> bool" where
  "identified tr buf = (\<lambda>(r, buf', tr').
    length tr' \<le> length tr + 200263
    \<and> (r = - 1 \<and> buf' = buf
       \<or> r = 0 \<and> length buf' = 256
         \<and> (\<exists>es v. tr' = tr @ es @ [In8 0x3F6 v] @ map (In16 0x1F0) buf' \<and> \<not> no_data v)))"

lemma ata_identify_runs:
  assumes "length buf = 256"
  shows "ok_r (identified tr buf) (ata_identify d buf tr)"
proof -
  let ?cmd = "[Out8 0x1F6 0xA0, Out8 0x1F2 0, Out8 0x1F3 0, Out8 0x1F4 0, Out8 0x1F5 0, Out8 0x1F7 0xEC]"
  let ?v = "dev_in8 d (tr @ ?cmd) 0x3F6"
  let ?tr0 = "tr @ ?cmd @ [In8 0x3F6 ?v]"
  obtain n1 tr1 where poll1: "poll_status d busy 100000 ?tr0 = (n1, tr1)"
    by (cases "poll_status d busy 100000 ?tr0")
  obtain n2 tr2 where poll2: "poll_status d no_data 100000 tr1 = (n2, tr2)"
    by (cases "poll_status d no_data 100000 tr1")
  obtain ws tr3 where words: "insw d 0x1F0 256 tr2 = (ws, tr3)"
    by (cases "insw d 0x1F0 256 tr2")
  obtain vs1 where vs1: "tr1 = ?tr0 @ map (In8 0x3F6) vs1" "length vs1 \<le> 100000"
    using poll_status_trace [OF poll1] by auto
  obtain vs2 where vs2: "tr2 = tr1 @ map (In8 0x3F6) vs2" "length vs2 \<le> 100000"
    "n2 \<noteq> 0 \<longrightarrow> vs2 \<noteq> [] \<and> \<not> no_data (last vs2)"
    using poll_status_trace [OF poll2] by auto
  note ws = insw_trace [OF words]
  have run: "ata_identify d buf tr =
      (if ?v = 0 then Inr (- 1, buf, ?tr0) else if n1 = 0 then Inr (- 1, buf, tr1)
       else if n2 = 0 then Inr (- 1, buf, tr2) else Inr (0, ws, tr3))"
    using poll1 poll2 words ws assms
    by (simp add: ata_identify_def Let_def port_defs store_block_def overwrite_all)
  show ?thesis
  proof (cases "?v \<noteq> 0 \<and> n1 \<noteq> 0 \<and> n2 \<noteq> 0")
    case True
    then have "map (In8 0x3F6) vs2 = map (In8 0x3F6) (butlast vs2) @ [In8 0x3F6 (last vs2)]"
      using vs2(3) by (metis append_butlast_last_id list.map(1) list.map(2) map_append)
    then have "tr3 = tr @ (?cmd @ [In8 0x3F6 ?v] @ map (In8 0x3F6) vs1 @ map (In8 0x3F6) (butlast vs2))
        @ [In8 0x3F6 (last vs2)] @ map (In16 0x1F0) ws"
      using ws vs1(1) vs2(1) by simp
    with True run show ?thesis
      using ws vs1 vs2 unfolding identified_def by auto
  next
    case False
    with run show ?thesis using vs1 vs2 by (auto simp: identified_def)
  qed
qed

text \<open>
  C35: \<open>ata_identify\<close> always returns, whatever the disk answers, after at most 200263 port
  accesses; the result is -1 with the buffer untouched, or 0 with the 256 data words in the buffer,
  read in order right after a status that announced data.
\<close>

theorem ata_identify_bounded:
  assumes "length buf = 256"
  shows "\<exists>r buf' tr'. ata_identify d buf tr = Inr (r, buf', tr')
    \<and> length tr' \<le> length tr + 200263
    \<and> (r = - 1 \<and> buf' = buf
       \<or> r = 0 \<and> length buf' = 256
         \<and> (\<exists>es v. tr' = tr @ es @ [In8 0x3F6 v] @ map (In16 0x1F0) buf' \<and> \<not> no_data v))"
  using ata_identify_runs [OF assms, of tr d] by (auto simp: ok_r_iff identified_def)

theorem ata_identify_bounded_witness:
  "\<exists>r buf' tr'. ata_identify \<lparr>dev_in8 = (\<lambda>tr p. 0x80), dev_in16 = (\<lambda>tr p. 0)\<rparr> (replicate 256 7) []
      = Inr (r, buf', tr') \<and> length tr' \<le> 200263"
  using ata_identify_bounded [of "replicate 256 7" "\<lparr>dev_in8 = (\<lambda>tr p. 0x80), dev_in16 = (\<lambda>tr p. 0)\<rparr>" "[]"]
  by auto

section \<open>The drive record\<close>

definition word_chars :: "u16 \<Rightarrow> u8 list" where
  "word_chars w = [ucast (drop_bit 8 w), ucast w]"

definition model_bytes :: "u16 list \<Rightarrow> u8 list" where
  "model_bytes ws = concat (map word_chars (take 20 (drop 27 ws)))"

definition rtrim :: "u8 list \<Rightarrow> u8 list" where
  "rtrim bs = rev (dropWhile (\<lambda>b. b = 0x20) (rev bs))"

definition pad :: "nat \<Rightarrow> u8 list \<Rightarrow> u8 list" where
  "pad n bs = bs @ replicate (n - length bs) 0"

lemma length_word_chars [simp]: "length (word_chars w) = 2"
  by (simp add: word_chars_def)

lemma length_chars [simp]: "length (concat (map word_chars ws)) = 2 * length ws"
  by (induction ws) simp_all

lemma length_model_bytes [simp]: "47 \<le> length ws \<Longrightarrow> length (model_bytes ws) = 40"
  by (simp add: model_bytes_def)

lemma ucast_low_byte: "ucast (w AND 0xFF) = (ucast (w :: u16) :: u8)"
  by (rule bit_word_eqI) (auto simp: bit_simps bit_numeral_rec less_Suc_eq numeral_eq_Suc)

lemma unpack_words:
  assumes "k \<le> 20" and "47 \<le> length ws" and "length m = 41"
  shows "for_r k (unpack_word ws) m
    = Inr (overwrite m 0 (concat (map word_chars (take k (drop 27 ws)))))"
  using assms(1)
proof (induction k)
  case 0
  then show ?case by simp
next
  case (Suc k)
  let ?bs = "concat (map word_chars (take k (drop 27 ws)))" and ?w = "ws ! (k + 27)"
  have len: "length ?bs = k * 2" using Suc.prems assms(2) by simp
  have "take (Suc k) (drop 27 ws) = take k (drop 27 ws) @ [?w]"
    using Suc.prems assms(2) by (simp add: take_Suc_conv_app_nth add.commute)
  then have next_bytes: "concat (map word_chars (take (Suc k) (drop 27 ws))) = ?bs @ [ucast (drop_bit 8 ?w), ucast ?w]"
    by (simp add: word_chars_def)
  have first: "(overwrite m 0 ?bs)[k * 2 := x] = overwrite m 0 (?bs @ [x])" for x
    using overwrite_snoc [of 0 ?bs m x] len assms(3) Suc.prems by (simp add: mult.commute)
  have second: "(overwrite m 0 (?bs @ [x]))[Suc (k * 2) := y] = overwrite m 0 (?bs @ [x, y])" for x y
    using overwrite_snoc [of 0 "?bs @ [x]" m y] len assms(3) Suc.prems by (simp add: mult.commute)
  show ?case
    using Suc assms len
    by (simp add: unpack_word_def next_bytes first second ucast_low_byte)
qed

lemma rtrim_snoc: "rtrim (bs @ [b]) = (if b = 0x20 then rtrim bs else bs @ [b])"
  by (simp add: rtrim_def)

lemma length_rtrim: "length (rtrim bs) \<le> length bs"
  using length_dropWhile_le [of "\<lambda>b. b = 0x20" "rev bs"] by (simp add: rtrim_def)

lemma trim_model_correct:
  "trim_model (length bs) (bs @ rest) = Inr (rtrim bs @ replicate (length bs - length (rtrim bs)) 0 @ rest)"
proof (induction bs arbitrary: rest rule: rev_induct)
  case Nil
  then show ?case by (simp add: rtrim_def)
next
  case (snoc b bs)
  show ?case
  proof (cases "b = 0x20")
    case True
    have "replicate (length bs - length (rtrim bs)) (0 :: u8) @ 0 # rest
        = replicate (Suc (length bs) - length (rtrim bs)) 0 @ rest"
      using length_rtrim [of bs] by (simp add: Suc_diff_le replicate_app_Cons_same)
    with True snoc.IH [of "0 # rest"] show ?thesis by (simp add: rtrim_snoc)
  next
    case False
    then show ?thesis by (simp add: rtrim_snoc)
  qed
qed

lemma read_model_correct:
  assumes "47 \<le> length ws" and "length m = 41"
  shows "read_model ws m = Inr (pad 41 (rtrim (model_bytes ws)))"
proof -
  let ?bs = "model_bytes ws"
  have len: "length ?bs = 40" using assms(1) by simp
  have "for_r 20 (unpack_word ws) m = Inr (overwrite m 0 ?bs)"
    using unpack_words [of 20 ws m] assms by (simp add: model_bytes_def)
  moreover have "(overwrite m 0 ?bs)[40 := 0] = ?bs @ [0]"
    using overwrite_snoc [of 0 ?bs m 0] len assms(2) overwrite_all [of "?bs @ [0]" m] by simp
  ultimately have "read_model ws m = trim_model 40 (?bs @ [0])"
    using len assms(2) by (simp add: read_model_def)
  also have "\<dots> = Inr (rtrim ?bs @ replicate (40 - length (rtrim ?bs)) 0 @ [0])"
    using trim_model_correct [of ?bs "[0]"] len by simp
  also have "\<dots> = Inr (pad 41 (rtrim ?bs))"
    using length_rtrim [of ?bs] len
    by (simp add: pad_def replicate_append_same flip: replicate_Suc Suc_diff_le)
  finally show ?thesis .
qed

text \<open>The sector count an identification block announces, as a number.\<close>

definition sector_count :: "u16 list \<Rightarrow> nat" where
  "sector_count ws =
    (let n48 = unat (ws ! 103) * 2 ^ 48 + unat (ws ! 102) * 2 ^ 32 + unat (ws ! 101) * 2 ^ 16 + unat (ws ! 100)
     in if n48 \<noteq> 0 then n48 else unat (ws ! 61) * 2 ^ 16 + unat (ws ! 60))"

lemma unat_join:
  fixes h l :: "'a::len word"
  assumes "unat l < 2 ^ k" and "unat h * 2 ^ k + unat l < 2 ^ LENGTH('a)"
  shows "unat (push_bit k h OR l) = unat h * 2 ^ k + unat l"
proof -
  have "\<not> bit (push_bit k h) n \<or> \<not> bit l n" for n
    using bit_below [OF assms(1), of n] by (auto simp: bit_simps)
  then have "push_bit k h OR l = push_bit k h + l" by (simp add: disjunctive_add)
  also have "push_bit k h + l = h * 2 ^ k + l" by (simp add: push_bit_eq_mult)
  also have "unat (h * 2 ^ k + l) = unat h * 2 ^ k + unat l"
  proof -
    have "h * 2 ^ k + l = of_nat (unat h * 2 ^ k + unat l)" by simp
    then show ?thesis using assms(2) by (simp only: unat_of_nat mod_less)
  qed
  finally show ?thesis .
qed

lemma unat_u16: "unat (w :: u16) < 65536"
  using unsigned_less [of w, where 'a = nat] by simp

lemma unat_ucast_u16 [simp]:
  "unat (ucast (w :: u16) :: u64) = unat w" "unat (ucast w :: u32) = unat w"
  using unat_u16 [of w] by (simp_all add: unat_ucast_small)

lemma read_sector_count_correct:
  assumes "length ws = 256"
  shows "\<exists>n. read_sector_count ws = Inr n \<and> unat n = sector_count ws"
proof -
  let ?w = "\<lambda>i. ws ! i"
  note b = unat_u16 [of "?w 103"] unat_u16 [of "?w 102"] unat_u16 [of "?w 101"] unat_u16 [of "?w 100"]
  note c = unat_u16 [of "?w 61"] unat_u16 [of "?w 60"]
  let ?l1 = "push_bit 16 (ucast (?w 101)) OR ucast (?w 100) :: u64"
  let ?l2 = "push_bit 32 (ucast (?w 102)) OR ?l1 :: u64"
  let ?l3 = "push_bit 48 (ucast (?w 103)) OR ?l2 :: u64"
  let ?v = "push_bit 16 (ucast (?w 61)) OR ucast (?w 60) :: u32"
  have l1: "unat ?l1 = unat (?w 101) * 2 ^ 16 + unat (?w 100)"
    using b by (subst unat_join) simp_all
  have l2: "unat ?l2 = unat (?w 102) * 2 ^ 32 + unat ?l1"
    using b l1 by (subst unat_join) simp_all
  have l3: "unat ?l3 = unat (?w 103) * 2 ^ 48 + unat ?l2"
    using b l1 l2 by (subst unat_join) simp_all
  have v: "unat ?v = unat (?w 61) * 2 ^ 16 + unat (?w 60)"
    using c by (subst unat_join) simp_all
  have v64: "unat (ucast ?v :: u64) = unat ?v"
    using unat_less_32 [of ?v] by (intro unat_ucast_small) simp
  have "read_sector_count ws = Inr (if ?l3 \<noteq> 0 then ?l3 else ucast ?v)"
    using assms by (simp add: read_sector_count_def Let_def or.assoc)
  moreover have "unat (if ?l3 \<noteq> 0 then ?l3 else ucast ?v :: u64) = sector_count ws"
  proof -
    have "?l3 = 0 \<longleftrightarrow> unat ?l3 = 0" by (simp add: unat_eq_0)
    moreover have "sector_count ws = (if unat ?l3 \<noteq> 0 then unat ?l3 else unat ?v)"
      using l1 l2 l3 v by (simp add: sector_count_def Let_def)
    ultimately show ?thesis using v64 by auto
  qed
  ultimately show ?thesis by blast
qed

text \<open>
  \<open>ata_init\<close> always comes back from the disk. When identification fails it reports that on
  the console and leaves the drive record alone; otherwise the record is present, its model is the
  forty name characters (two per word, high byte first) without their trailing spaces and padded
  with zeros to 41 bytes, and its size is the 48-bit sector count or, if that is 0, the 28-bit one.
\<close>

theorem ata_init_correct:
  assumes "length buf = 256" and "length (model drive) = 41"
  shows "case ata_identify d buf tr of
      Inl e \<Rightarrow> False
    | Inr (r, ws, tr') \<Rightarrow>
        if r \<noteq> 0
        then ata_init_on println d buf drive con tr
          = bind_r (println (lit ''Drive identification failed'') con) (\<lambda>con. Inr (drive, con, tr'))
        else \<exists>n. unat n = sector_count ws \<and> ata_init_on println d buf drive con tr
          = Inr (drive\<lparr>model := pad 41 (rtrim (model_bytes ws)), present := 1, total_sectors := n\<rparr>, con, tr')"
proof -
  obtain r ws tr' where run: "ata_identify d buf tr = Inr (r, ws, tr')" and "identified tr buf (r, ws, tr')"
    using ata_identify_runs [OF assms(1), of tr d] by (auto simp: ok_r_iff)
  then have "length ws = 256" using assms(1) by (auto simp: identified_def)
  then have "read_model ws (model drive) = Inr (pad 41 (rtrim (model_bytes ws)))"
    "\<exists>n. read_sector_count ws = Inr n \<and> unat n = sector_count ws"
    using read_model_correct [of ws "model drive"] read_sector_count_correct [of ws] assms(2) by simp_all
  with run show ?thesis by (auto simp: ata_init_on_def)
qed

text \<open>A disk that is always ready and sends the same word over and over.\<close>

definition steady_disk :: "u16 \<Rightarrow> device" where
  "steady_disk w = \<lparr>dev_in8 = (\<lambda>tr port. 0x58), dev_in16 = (\<lambda>tr port. w)\<rparr>"

lemma poll_status_ready: "\<not> cond (dev_in8 d tr 0x3F6) \<Longrightarrow> poll_status d cond (Suc t) tr = (Suc t, tr @ [In8 0x3F6 (dev_in8 d tr 0x3F6)])"
  by (simp add: inb_def Let_def)

lemma steady_polls:
  "poll_status (steady_disk w) busy 100000 tr = (100000, tr @ [In8 0x3F6 0x58])"
  "poll_status (steady_disk w) no_data 100000 tr = (100000, tr @ [In8 0x3F6 0x58])"
  using poll_status_ready [of _ "steady_disk w" tr 99999]
  by (simp_all add: steady_disk_def busy_def no_data_def)

lemma steady_words: "insw (steady_disk w) p n tr = (replicate n w, tr @ replicate n (In16 p w))"
  by (induction n arbitrary: tr) (simp_all add: steady_disk_def Let_def)

lemma steady_identify:
  assumes "length buf = 256"
  shows "\<exists>tr'. ata_identify (steady_disk w) buf tr = Inr (0, replicate 256 w, tr')"
proof -
  have "inb (steady_disk w) 0x3F6 t = (0x58, t @ [In8 0x3F6 0x58])" for t
    by (simp add: inb_def steady_disk_def)
  with assms show ?thesis
    by (simp add: ata_identify_def Let_def steady_polls steady_words store_block_def overwrite_all)
qed

theorem ata_init_correct_witness:
  "\<exists>dr tr'. ata_init_on (\<lambda>s c. Inr (c @ s)) (steady_disk 0x4A4F) (replicate 256 9) drive_boot [] []
      = Inr (dr, [], tr') \<and> present dr = 1
    \<and> model dr = pad 41 (rtrim (model_bytes (replicate 256 0x4A4F)))"
proof -
  obtain tr' where "ata_identify (steady_disk 0x4A4F) (replicate 256 9) [] = Inr (0, replicate 256 0x4A4F, tr')"
    using steady_identify by (metis length_replicate)
  then show ?thesis
    using ata_init_correct [where buf = "replicate 256 9" and drive = drive_boot and d = "steady_disk 0x4A4F"
        and tr = "[]" and println = "\<lambda>s c. Inr (c @ s)" and con = "[]"]
    by (auto simp: drive_boot_def)
qed

section \<open>Sector reads\<close>

text \<open>The trace after \<open>k\<close> status polls, and a disk that, polled long enough, stops answering \<open>cond\<close>.\<close>

primrec polls :: "device \<Rightarrow> nat \<Rightarrow> trace \<Rightarrow> trace" where
  "polls d 0 tr = tr"
| "polls d (Suc k) tr = polls d k (tr @ [In8 0x3F6 (dev_in8 d tr 0x3F6)])"

definition responsive :: "device \<Rightarrow> (u8 \<Rightarrow> bool) \<Rightarrow> bool" where
  "responsive d cond = (\<forall>tr. \<exists>k. \<not> cond (dev_in8 d (polls d k tr) 0x3F6))"

lemma wait_while_polls:
  "\<not> cond (dev_in8 d (polls d k tr) 0x3F6) \<Longrightarrow> \<exists>vs. wait_while d cond tr = Some (tr @ map (In8 0x3F6) vs)"
proof (induction k arbitrary: tr)
  case 0
  then show ?case
    by (intro exI [of _ "[dev_in8 d tr 0x3F6]"]) (simp add: wait_while.simps [of d cond tr] inb_def Let_def)
next
  case (Suc k)
  let ?v = "dev_in8 d tr 0x3F6"
  show ?case
  proof (cases "cond ?v")
    case True
    obtain vs where "wait_while d cond (tr @ [In8 0x3F6 ?v]) = Some (tr @ map (In8 0x3F6) (?v # vs))"
      using Suc.IH [of "tr @ [In8 0x3F6 ?v]"] Suc.prems by auto
    with True show ?thesis
      by (intro exI [of _ "?v # vs"]) (simp add: wait_while.simps [of d cond tr] inb_def Let_def)
  next
    case False
    then show ?thesis
      by (intro exI [of _ "[?v]"]) (simp add: wait_while.simps [of d cond tr] inb_def Let_def)
  qed
qed

lemma wait_while_returns:
  assumes "responsive d cond"
  obtains vs where "wait_while d cond tr = Some (tr @ map (In8 0x3F6) vs)"
  using assms wait_while_polls unfolding responsive_def by blast

text \<open>The words a trace read from the data port, and the registers a trace wrote.\<close>

fun data_word :: "io_event \<Rightarrow> u16 list" where
  "data_word (In16 port w) = (if port = 0x1F0 then [w] else [])"
| "data_word (Out8 port v) = []"
| "data_word (In8 port v) = []"
| "data_word (Spin n) = []"

definition data_words :: "trace \<Rightarrow> u16 list" where
  "data_words es = concat (map data_word es)"

fun write_register :: "io_event \<Rightarrow> (u16 \<Rightarrow> u8) \<Rightarrow> u16 \<Rightarrow> u8" where
  "write_register (Out8 port v) r = r(port := v)"
| "write_register (In8 port v) r = r"
| "write_register (In16 port w) r = r"
| "write_register (Spin n) r = r"

definition registers :: "trace \<Rightarrow> (u16 \<Rightarrow> u8) \<Rightarrow> u16 \<Rightarrow> u8" where
  "registers es r = fold write_register es r"

lemma data_words_simps [simp]:
  "data_words [] = []"
  "data_words (e # es) = data_word e @ data_words es"
  "data_words (es @ es') = data_words es @ data_words es'"
  by (simp_all add: data_words_def)

lemma registers_simps [simp]:
  "registers [] r = r"
  "registers (e # es) r = registers es (write_register e r)"
  "registers (es @ es') r = registers es' (registers es r)"
  by (simp_all add: registers_def)

lemma data_words_status [simp]: "data_words (map (In8 p) vs) = []"
  by (induction vs) simp_all

lemma data_words_data [simp]: "data_words (map (In16 0x1F0) ws) = ws"
  by (induction ws) simp_all

lemma registers_reads [simp]: "registers (map (In8 p) vs) r = r" "registers (map (In16 p) ws) r = r"
  by (induction vs, simp_all) (induction ws, simp_all)

lemma overwrite_twice:
  assumes "i + length xs + length ys \<le> length buf"
  shows "overwrite (overwrite buf i xs) (i + length xs) ys = overwrite buf i (xs @ ys)"
  using assms by (cases "length buf = i") (simp_all add: overwrite_def min_def add.commute add.left_commute)

text \<open>The operands in the registers: the round reads its sector. A count of 0 left there: it reads nothing.\<close>

lemma rep_insw_sector:
  assumes "256 * i + 256 \<le> length buf"
  obtains ws where "rep_insw d (256, 256 * i) buf tr = Inr (overwrite buf (256 * i) ws, tr @ map (In16 0x1F0) ws)"
    and "length ws = 256"
proof -
  obtain ws tr' where words: "insw d 0x1F0 256 tr = (ws, tr')" by (cases "insw d 0x1F0 256 tr")
  have ws: "tr' = tr @ map (In16 0x1F0) ws" "length ws = 256" using insw_trace [OF words] by simp_all
  then show ?thesis using that [of ws] words assms by (simp add: rep_insw_def store_block_def)
qed

lemma rep_insw_stale: "fst r = 0 \<Longrightarrow> rep_insw d r buf tr = Inr (buf, tr)"
  by (cases r) (simp add: rep_insw_def)

lemma read_sectors_stale:
  assumes "responsive d busy" and "responsive d no_data"
  shows "\<forall>j<n. fst (regs (i + j)) = 0 \<Longrightarrow>
    \<exists>es. read_sectors d regs n i buf tr = Some (Inr (buf, tr @ es)) \<and> data_words es = [] \<and> (\<forall>r. registers es r = r)"
proof (induction n arbitrary: i tr)
  case 0
  then show ?case by (intro exI [of _ "[]"]) simp
next
  case (Suc n)
  obtain vs where vs: "wait_while d busy tr = Some (tr @ map (In8 0x3F6) vs)"
    using wait_while_returns [OF assms(1)] .
  let ?tr1 = "tr @ map (In8 0x3F6) vs"
  obtain us where us: "wait_while d no_data ?tr1 = Some (?tr1 @ map (In8 0x3F6) us)"
    using wait_while_returns [OF assms(2)] .
  have "fst (regs i) = 0" using Suc.prems by (metis add.right_neutral zero_less_Suc)
  moreover have "\<forall>j<n. fst (regs (Suc i + j)) = 0" using Suc.prems by (metis Suc_less_eq add_Suc_shift)
  then obtain es where "read_sectors d regs n (Suc i) buf (?tr1 @ map (In8 0x3F6) us)
      = Some (Inr (buf, (?tr1 @ map (In8 0x3F6) us) @ es))" "data_words es = []" "\<forall>r. registers es r = r"
    using Suc.IH by blast
  ultimately show ?case using vs us
    by (intro exI [of _ "map (In8 0x3F6) vs @ map (In8 0x3F6) us @ es"]) (simp add: rep_insw_stale)
qed

text \<open>Rounds \<open>i\<close> to \<open>i + n - 1\<close>, of which the first \<open>m\<close> find their operands and the others a count of 0.\<close>

lemma read_sectors_runs:
  assumes "responsive d busy" and "responsive d no_data"
  shows "\<lbrakk>m \<le> n; 256 * i + 256 * m \<le> length buf; \<forall>j<m. regs (i + j) = (256, 256 * (i + j));
      \<forall>j. m \<le> j \<and> j < n \<longrightarrow> fst (regs (i + j)) = 0\<rbrakk> \<Longrightarrow>
    \<exists>es. read_sectors d regs n i buf tr = Some (Inr (overwrite buf (256 * i) (data_words es), tr @ es))
      \<and> length (data_words es) = 256 * m \<and> (\<forall>r. registers es r = r)"
proof (induction n arbitrary: m i buf tr)
  case 0
  then show ?case by (intro exI [of _ "[]"]) simp
next
  case (Suc n)
  obtain vs where vs: "wait_while d busy tr = Some (tr @ map (In8 0x3F6) vs)"
    using wait_while_returns [OF assms(1)] .
  let ?tr1 = "tr @ map (In8 0x3F6) vs"
  obtain us where us: "wait_while d no_data ?tr1 = Some (?tr1 @ map (In8 0x3F6) us)"
    using wait_while_returns [OF assms(2)] .
  let ?tr2 = "?tr1 @ map (In8 0x3F6) us"
  show ?case
  proof (cases m)
    case 0
    then show ?thesis
      using read_sectors_stale [OF assms, of "Suc n" regs i buf tr] Suc.prems(4) by (auto simp: overwrite_def)
  next
    case (Suc m')
    note prems = Suc.prems [unfolded Suc]
    obtain ws where ws: "rep_insw d (256, 256 * i) buf ?tr2
        = Inr (overwrite buf (256 * i) ws, ?tr2 @ map (In16 0x1F0) ws)" "length ws = 256"
      using rep_insw_sector [of i buf d ?tr2] prems(2) by auto
    have now: "regs i = (256, 256 * i)" using prems(3) by (metis add.right_neutral zero_less_Suc)
    have later: "\<forall>j<m'. regs (Suc i + j) = (256, 256 * (Suc i + j))" using prems(3) by (metis Suc_less_eq add_Suc_shift)
    have stale: "\<forall>j. m' \<le> j \<and> j < n \<longrightarrow> fst (regs (Suc i + j)) = 0" using prems(4) by (metis Suc_le_mono Suc_less_eq add_Suc_shift)
    let ?buf = "overwrite buf (256 * i) ws" and ?tr3 = "?tr2 @ map (In16 0x1F0) ws"
    have len: "length ?buf = length buf" using prems(2) ws(2) by simp
    obtain es where es: "read_sectors d regs n (Suc i) ?buf ?tr3
        = Some (Inr (overwrite ?buf (256 * Suc i) (data_words es), ?tr3 @ es))"
      "length (data_words es) = 256 * m'" "\<forall>r. registers es r = r"
      using Suc.IH [of m' "Suc i" ?buf ?tr3] prems len later stale by auto
    have "overwrite ?buf (256 * Suc i) (data_words es) = overwrite buf (256 * i) (ws @ data_words es)"
      using overwrite_twice [of "256 * i" ws "data_words es" buf] prems(2) ws(2) es(2) by (simp add: add.commute)
    with es have "read_sectors d regs (Suc n) i buf tr = Some (Inr (overwrite buf (256 * i) (ws @ data_words es), ?tr3 @ es))"
      using vs us ws(1) now by simp
    then show ?thesis using ws(2) es(2,3) Suc
      by (intro exI [of _ "map (In8 0x3F6) vs @ map (In8 0x3F6) us @ map (In16 0x1F0) ws @ es"]) simp
  qed
qed

text \<open>What the task-file registers select: the 28-bit sector address, the mode and the drive.\<close>

definition selected_lba :: "(u16 \<Rightarrow> u8) \<Rightarrow> nat" where
  "selected_lba r = unat (r 0x1F3) + unat (r 0x1F4) * 2 ^ 8 + unat (r 0x1F5) * 2 ^ 16
    + unat (r 0x1F6 AND 0x0F) * 2 ^ 24"

definition lba_mode :: "(u16 \<Rightarrow> u8) \<Rightarrow> bool" where "lba_mode r = bit (r 0x1F6) 6"

definition second_drive :: "(u16 \<Rightarrow> u8) \<Rightarrow> bool" where "second_drive r = bit (r 0x1F6) 4"

lemma mod_bytes:
  "(N :: nat) mod 268435456 = N mod 256 + N div 256 mod 256 * 256 + N div 65536 mod 256 * 65536
    + N div 16777216 mod 16 * 16777216"
  using mod_mult2_eq [of N 256 1048576] mod_mult2_eq [of "N div 256" 256 4096]
    mod_mult2_eq [of "N div 65536" 256 16]
  by (simp add: div_mult2_eq [symmetric])

lemma lba_bytes:
  "unat (ucast lba :: u8) + unat (ucast (drop_bit 8 lba) :: u8) * 2 ^ 8
    + unat (ucast (drop_bit 16 lba) :: u8) * 2 ^ 16
    + unat (ucast (0xE0 OR drop_bit 24 lba) AND 0x0F :: u8) * 2 ^ 24 = unat (lba :: u32) mod 2 ^ 28"
proof -
  have b0: "unat (ucast lba :: u8) = unat lba mod 256"
    by (simp add: unsigned_ucast_eq take_bit_eq_mod)
  have b1: "unat (ucast (drop_bit 8 lba) :: u8) = unat lba div 256 mod 256"
    by (simp only: unsigned_ucast_eq take_bit_eq_mod unat_drop_bit) simp
  have b2: "unat (ucast (drop_bit 16 lba) :: u8) = unat lba div 65536 mod 256"
    by (simp only: unsigned_ucast_eq take_bit_eq_mod unat_drop_bit) simp
  have "ucast (0xE0 OR drop_bit 24 lba) AND 0x0F = (take_bit 4 (ucast (drop_bit 24 lba)) :: u8)"
    by (rule bit_word_eqI) (auto simp: bit_simps bit_numeral_rec less_Suc_eq numeral_eq_Suc)
  also have "unat \<dots> = unat lba div 16777216 mod 16"
    by (simp only: unsigned_take_bit_eq unsigned_ucast_eq unat_drop_bit) (simp add: take_bit_eq_mod mod_mod_cancel)
  finally show ?thesis by (simp add: b0 b1 b2 mod_bytes)
qed

lemma head_bits:
  "bit (ucast (0xE0 OR drop_bit 24 lba) :: u8) 6"
  "bit (ucast (0xE0 OR drop_bit 24 (lba :: u32)) :: u8) 4 = bit lba 28"
  by (simp_all add: bit_simps bit_numeral_rec)

text \<open>What a read command leaves in the task-file registers.\<close>

definition read_command :: "u32 \<Rightarrow> u8 \<Rightarrow> (u16 \<Rightarrow> u8) \<Rightarrow> bool" where
  "read_command lba sectors r \<longleftrightarrow> selected_lba r = unat lba mod 2 ^ 28 \<and> second_drive r = bit lba 28 \<and> lba_mode r
    \<and> r 0x1F2 = sectors \<and> r 0x1F7 = 0x20"

lemma ata_read_runs:
  assumes "responsive d busy" and "responsive d no_data" and "m \<le> unat sectors" and "256 * m \<le> length buf"
    and "\<forall>i<m. regs i = (256, 256 * i)" and "\<forall>i. m \<le> i \<and> i < unat sectors \<longrightarrow> fst (regs i) = 0"
  shows "\<exists>es. ata_read d regs lba buf sectors tr = Some (Inr (overwrite buf 0 (data_words es), tr @ es))
    \<and> length (data_words es) = 256 * m
    \<and> (if sectors = 0 then es = [] else read_command lba sectors (registers es (\<lambda>p. 0)))"
proof (cases "sectors = 0")
  case True
  then show ?thesis using assms(3) by (intro exI [of _ "[]"]) (simp add: ata_read_def)
next
  case False
  let ?cmd = "[Out8 0x1F6 (ucast (0xE0 OR drop_bit 24 lba)), Out8 0x1F3 (ucast lba),
    Out8 0x1F4 (ucast (drop_bit 8 lba)), Out8 0x1F5 (ucast (drop_bit 16 lba)), Out8 0x1F2 sectors, Out8 0x1F7 0x20]"
  obtain vs where vs: "wait_while d busy tr = Some (tr @ map (In8 0x3F6) vs)"
    using wait_while_returns [OF assms(1)] .
  let ?tr1 = "tr @ map (In8 0x3F6) vs @ ?cmd"
  obtain us where us: "wait_while d busy ?tr1 = Some (?tr1 @ map (In8 0x3F6) us)"
    using wait_while_returns [OF assms(1)] .
  let ?tr2 = "?tr1 @ map (In8 0x3F6) us"
  obtain xs where xs: "wait_while d no_data ?tr2 = Some (?tr2 @ map (In8 0x3F6) xs)"
    using wait_while_returns [OF assms(2)] .
  let ?tr3 = "?tr2 @ map (In8 0x3F6) xs"
  obtain es where es: "read_sectors d regs (unat sectors) 0 buf ?tr3
      = Some (Inr (overwrite buf 0 (data_words es), ?tr3 @ es))"
      "length (data_words es) = 256 * m" "\<And>r. registers es r = r"
    using read_sectors_runs [OF assms(1,2), of m "unat sectors" 0 buf regs ?tr3] assms(3-6) by auto
  let ?es = "map (In8 0x3F6) vs @ ?cmd @ map (In8 0x3F6) us @ map (In8 0x3F6) xs @ es"
  have "ata_read d regs lba buf sectors tr = Some (Inr (overwrite buf 0 (data_words ?es), tr @ ?es))"
    using False vs us xs es(1) by (simp add: ata_read_def Let_def outb_def)
  then show ?thesis using False es(2,3) lba_bytes [of lba] head_bits [of lba]
    by (intro exI [of _ ?es]) (simp add: read_command_def selected_lba_def lba_mode_def second_drive_def)
qed

text \<open>
  C33: \<open>ata_read\<close>, with what its inline assembly does not guarantee. On a disk whose status stops being busy
  and announces data when polled long enough, and with the operands of \<open>rep insw\<close> in \<open>rcx\<close> and \<open>rdi\<close> in
  front of its first execution (all that its constraints ask of the compiler): a read of one sector returns with the
  buffer filled with its 256 words, and the task-file registers select LBA mode, the sector count and the address
  modulo \<open>2^28\<close>, with bit 28 of the address choosing the drive. A read of more sectors does the same for all of
  them if the compiler's code loads both registers again in front of every round. If it leaves the
  count that \<open>rep insw\<close> has used up, the read still returns as if all were well, but has
  fetched the first sector only and left the rest of the buffer as it was.
\<close>

theorem ata_read_correct:
  assumes "responsive d busy" and "responsive d no_data" and "256 * unat sectors \<le> length buf"
    and "regs 0 = (256, 0)"
  shows "(sectors = 1 \<or> (\<forall>i<unat sectors. regs i = (256, 256 * i)) \<longrightarrow>
      (\<exists>es. ata_read d regs lba buf sectors tr = Some (Inr (overwrite buf 0 (data_words es), tr @ es))
        \<and> length (data_words es) = 256 * unat sectors
        \<and> (if sectors = 0 then es = [] else read_command lba sectors (registers es (\<lambda>p. 0)))))
    \<and> (1 < sectors \<and> (\<forall>i. 0 < i \<and> i < unat sectors \<longrightarrow> fst (regs i) = 0) \<longrightarrow>
      (\<exists>es. ata_read d regs lba buf sectors tr = Some (Inr (overwrite buf 0 (data_words es), tr @ es))
        \<and> length (data_words es) = 256 \<and> read_command lba sectors (registers es (\<lambda>p. 0))))"
proof (intro conjI impI)
  assume "sectors = 1 \<or> (\<forall>i<unat sectors. regs i = (256, 256 * i))"
  with assms(4) have "\<forall>i<unat sectors. regs i = (256, 256 * i)" by auto
  then show "\<exists>es. ata_read d regs lba buf sectors tr = Some (Inr (overwrite buf 0 (data_words es), tr @ es))
      \<and> length (data_words es) = 256 * unat sectors
      \<and> (if sectors = 0 then es = [] else read_command lba sectors (registers es (\<lambda>p. 0)))"
    using ata_read_runs [OF assms(1,2) order_refl assms(3)] by simp
next
  assume many: "1 < sectors \<and> (\<forall>i. 0 < i \<and> i < unat sectors \<longrightarrow> fst (regs i) = 0)"
  then have one: "1 \<le> unat sectors" and "sectors \<noteq> 0" by (auto simp: word_less_nat_alt)
  show "\<exists>es. ata_read d regs lba buf sectors tr = Some (Inr (overwrite buf 0 (data_words es), tr @ es))
      \<and> length (data_words es) = 256 \<and> read_command lba sectors (registers es (\<lambda>p. 0))"
    using ata_read_runs [OF assms(1,2) one, of buf regs lba tr] many one \<open>sectors \<noteq> 0\<close> assms(3,4) by auto
qed

lemma steady_responsive: "responsive (steady_disk w) busy" "responsive (steady_disk w) no_data"
  by (simp_all add: responsive_def steady_disk_def busy_def no_data_def)

theorem ata_read_correct_witness:
  "(\<exists>es. ata_read (steady_disk 5) (\<lambda>i. (256, 256 * i)) 0x12345678 (replicate 512 0) 2 [] = Some (Inr (data_words es, es)))
    \<and> (\<exists>es. ata_read (steady_disk 5) (\<lambda>i. if i = 0 then (256, 0) else (0, 512)) 0x12345678 (replicate 512 0) 2 []
      = Some (Inr (data_words es @ replicate 256 0, es)) \<and> length (data_words es) = 256)"
proof (intro conjI)
  obtain es where "ata_read (steady_disk 5) (\<lambda>i. (256, 256 * i)) 0x12345678 (replicate 512 0) 2 []
      = Some (Inr (overwrite (replicate 512 0) 0 (data_words es), es))" "length (data_words es) = 512"
    using ata_read_correct [OF steady_responsive, where sectors = 2 and buf = "replicate 512 0"
        and regs = "\<lambda>i. (256, 256 * i)" and lba = "0x12345678" and tr = "[]"] by auto
  then show "\<exists>es. ata_read (steady_disk 5) (\<lambda>i. (256, 256 * i)) 0x12345678 (replicate 512 0) 2 [] = Some (Inr (data_words es, es))"
    by (auto simp: overwrite_all)
next
  let ?regs = "\<lambda>i. if i = 0 then (256, 0) else (0, 512) :: nat \<times> nat"
  obtain es where "ata_read (steady_disk 5) ?regs 0x12345678 (replicate 512 0) 2 []
      = Some (Inr (overwrite (replicate 512 0) 0 (data_words es), es))" "length (data_words es) = 256"
    using ata_read_correct [OF steady_responsive, where sectors = 2 and buf = "replicate 512 0"
        and regs = ?regs and lba = "0x12345678" and tr = "[]"] by auto
  then show "\<exists>es. ata_read (steady_disk 5) ?regs 0x12345678 (replicate 512 0) 2 []
      = Some (Inr (data_words es @ replicate 256 0, es)) \<and> length (data_words es) = 256"
    by (auto simp: overwrite_def)
qed

end
