(* ===== verification/Shell.thy ===== *)
theory Shell
  imports Tokens Console Numfmt Pmm Ata
begin

text \<open>
  The commands of the shell (\<open>shell_exec_args\<close> in \<open>shell.c\<close>), written over the operations of the console
  contract, and the shell as a whole on the framebuffer console. An argument string is
  the list of bytes from its pointer to the end of the shell's buffer; \<open>argc\<close> is the number of arguments.
  The specification gives for each line the list of console actions that it should cause.
\<close>

section \<open>The commands (shell.c)\<close>

text \<open>A chain \<open>if (strcmp(a, "...") == 0) ... else if ... else d\<close>.\<close>

fun str_switch :: "u8 list \<Rightarrow> (string \<times> 's result) list \<Rightarrow> 's result \<Rightarrow> 's result" where
  "str_switch a [] d = d"
| "str_switch a ((t, r) # cs) d =
    bind_r (strcmp a (lit t)) (\<lambda>k. if k = 0 then r else str_switch a cs d)"

declare str_switch.simps(2) [simp del]

definition cmd_help :: "(u8 list \<Rightarrow> 's \<Rightarrow> 's result) \<Rightarrow> nat \<Rightarrow> 's \<Rightarrow> 's result" where
  "cmd_help println argc s =
    (if argc \<noteq> 1 then println (lit ''help command does not take any arguments'') s
     else seq_r
      [println (lit ''help - display available commands''),
       println (lit ''clear - clear the screen''),
       println (lit ''mem - show memory statistics''),
       println (lit ''disk - show disk information''),
       println (lit ''theme <THEME> - change colors''),
       println (lit ''reboot - reboot computer'')] s)"

definition cmd_clear :: "(u8 list \<Rightarrow> 's \<Rightarrow> 's result) \<Rightarrow> ('s \<Rightarrow> 's) \<Rightarrow> nat \<Rightarrow> 's \<Rightarrow> 's result" where
  "cmd_clear println clear argc s =
    (if argc \<noteq> 1 then println (lit ''clear command does not take any arguments'') s else Inr (clear s))"

text \<open>\<open>junk\<close> is the uninitialised local \<open>buf[16]\<close>. The product \<open>total_pages*4096\<close> is a \<open>uint32_t\<close>.\<close>

definition cmd_mem ::
  "(u8 list \<Rightarrow> 's \<Rightarrow> 's result) \<Rightarrow> (u8 list \<Rightarrow> 's \<Rightarrow> 's result) \<Rightarrow> pmm \<Rightarrow> u8 list \<Rightarrow> nat \<Rightarrow> 's \<Rightarrow> 's result" where
  "cmd_mem print println p junk argc s =
    (if argc \<noteq> 1 then println (lit ''mem command does not take any arguments'') s
     else
       let total_pages = pmm_get_total_pages p; free_pages = pmm_get_free_pages p in
       bind_r (int_to_str (drop_bit 20 (total_pages * 4096)) junk) (\<lambda>buf.
       bind_r (seq_r [print (lit ''Total memory available  ''), print buf, println (lit '' MB'')] s) (\<lambda>s.
       bind_r (int_to_str free_pages buf) (\<lambda>buf.
       bind_r (seq_r [print (lit ''Free pages              ''), println buf] s) (\<lambda>s.
       bind_r (int_to_str (total_pages - free_pages) buf) (\<lambda>buf.
       seq_r [print (lit ''Used pages              ''), println buf] s))))))"

text \<open>Both numbers are \<open>uint64_t\<close> expressions converted to the \<open>int\<close> parameter of \<open>int_to_str\<close>.\<close>

definition cmd_disk ::
  "(u8 list \<Rightarrow> 's \<Rightarrow> 's result) \<Rightarrow> (u8 list \<Rightarrow> 's \<Rightarrow> 's result) \<Rightarrow> ata_drive \<Rightarrow> u8 list \<Rightarrow> nat \<Rightarrow> 's \<Rightarrow> 's result" where
  "cmd_disk print println dr junk argc s =
    (if argc \<noteq> 1 then println (lit ''disk command does not take any arguments'') s
     else
       let drive = ata_get_drive dr in
       bind_r (seq_r [print (lit ''Model:  ''), println (model drive), print (lit ''Size:   '')] s) (\<lambda>s.
       bind_r (int_to_str (ucast (drop_bit 20 (total_sectors drive * 512))) junk) (\<lambda>buf.
       bind_r (seq_r [print buf, print (lit '' MB ('')] s) (\<lambda>s.
       bind_r (int_to_str (ucast (total_sectors drive)) buf) (\<lambda>buf.
       seq_r [print buf, println (lit '' sectors)'')] s)))))"

definition cmd_theme ::
  "(u8 list \<Rightarrow> 's \<Rightarrow> 's result) \<Rightarrow> (u8 list \<Rightarrow> 's \<Rightarrow> 's result) \<Rightarrow> (u32 \<Rightarrow> u32 \<Rightarrow> 's \<Rightarrow> 's result)
    \<Rightarrow> u8 list list \<Rightarrow> 's \<Rightarrow> 's result" where
  "cmd_theme print println theme argv s =
    (if length argv \<noteq> 2 then println (lit ''usage: theme <THEME> OR theme --help'') s
     else str_switch (argv ! 1)
      [(''--help'', seq_r
          [println (lit ''Theme        Text          Background''),
           println (lit ''-------------------------------------''),
           println (lit ''default      white         black''),
           println (lit ''hacker       green         black''),
           println (lit ''amber        amber         black''),
           println (lit ''ocean        light blue    navy blue''),
           println (lit ''paper        black         off-white''),
           println (lit ''rose         pink          purple''),
           println (lit ''solarized    muted blue    dark teal'')] s),
       (''default'', theme FB_WHITE FB_BLACK s),
       (''hacker'', theme 0x00FF00 FB_BLACK s),
       (''amber'', theme 0xFFB000 FB_BLACK s),
       (''ocean'', theme 0xADD8E6 0x00001A s),
       (''paper'', theme 0x1A1A1A 0xF5F0E8 s),
       (''rose'', theme 0xFFB3C6 0x1A0010 s),
       (''solarized'', theme 0x839496 0x002B36 s)]
      (seq_r [print (lit ''Unknown theme ''), println (argv ! 1)] s))"

definition cmd_reboot :: "(u8 list \<Rightarrow> 's \<Rightarrow> 's result) \<Rightarrow> nat \<Rightarrow> 's \<times> trace \<Rightarrow> ('s \<times> trace) result" where
  "cmd_reboot println argc = (\<lambda>(s, tr).
    if argc \<noteq> 1
    then bind_r (println (lit ''reboot command does not take any arguments'') s) (\<lambda>s. Inr (s, tr))
    else Inr (s, outb 0xCF9 0x06 (outb 0x64 0xFE tr)))"

definition cmd_unknown ::
  "(u8 list \<Rightarrow> 's \<Rightarrow> 's result) \<Rightarrow> (u8 list \<Rightarrow> 's \<Rightarrow> 's result) \<Rightarrow> u8 list \<Rightarrow> 's \<Rightarrow> 's result" where
  "cmd_unknown print println name s =
    seq_r [print (lit (''Unknown command '' @ [CHR 0x22])), print name, println (lit [CHR 0x22])] s"

text \<open>Only \<open>reboot\<close> touches the ports.\<close>

definition shell_exec_args_on ::
  "(u8 list \<Rightarrow> 's \<Rightarrow> 's result) \<Rightarrow> (u8 list \<Rightarrow> 's \<Rightarrow> 's result) \<Rightarrow> ('s \<Rightarrow> 's) \<Rightarrow> (u32 \<Rightarrow> u32 \<Rightarrow> 's \<Rightarrow> 's result)
    \<Rightarrow> pmm \<Rightarrow> ata_drive \<Rightarrow> u8 list \<Rightarrow> u8 list list \<Rightarrow> 's \<times> trace \<Rightarrow> ('s \<times> trace) result" where
  "shell_exec_args_on print println clear theme p dr junk argv = (\<lambda>(s, tr).
    let argc = length argv; on_screen = (\<lambda>r. bind_r r (\<lambda>s. Inr (s, tr))) in
    if argc = 0 then Inr (s, tr)
    else str_switch (argv ! 0)
      [(''help'', on_screen (cmd_help println argc s)),
       (''clear'', on_screen (cmd_clear println clear argc s)),
       (''mem'', on_screen (cmd_mem print println p junk argc s)),
       (''disk'', on_screen (cmd_disk print println dr junk argc s)),
       (''theme'', on_screen (cmd_theme print println theme argv s)),
       (''reboot'', cmd_reboot println argc (s, tr))]
      (on_screen (cmd_unknown print println (argv ! 0) s)))"

definition shell_exec_args ::
  "pmm \<Rightarrow> ata_drive \<Rightarrow> u8 list \<Rightarrow> u8 list list \<Rightarrow> fb \<times> trace \<Rightarrow> (fb \<times> trace) result" where
  "shell_exec_args = shell_exec_args_on fb_print fb_println fb_clear_screen fb_update_theme"

text \<open>\<open>buf\<close> is the static buffer of \<open>shell_exec\<close>.\<close>

definition shell_exec ::
  "pmm \<Rightarrow> ata_drive \<Rightarrow> u8 list \<Rightarrow> u8 list \<Rightarrow> u8 list \<times> fb \<times> trace \<Rightarrow> (u8 list \<times> fb \<times> trace) result" where
  "shell_exec p dr junk line = (\<lambda>(buf, s, tr).
    bind_r (shell_tokens line buf) (\<lambda>(argv, buf).
    bind_r (shell_exec_args p dr junk (map (\<lambda>q. drop q buf) argv) (s, tr)) (\<lambda>(s, tr).
      Inr (buf, s, tr))))"

section \<open>What a line should do\<close>

definition bytes :: "string \<Rightarrow> u8 list" where
  "bytes t = map of_char t"

definition say :: "string \<Rightarrow> action" where
  "say t = Println (bytes t)"

text \<open>The colours each theme stands for, text first.\<close>

definition theme_colours :: "(string \<times> u32 \<times> u32) list" where
  "theme_colours =
    [(''default'', 0xFFFFFF, 0x000000), (''hacker'', 0x00FF00, 0x000000), (''amber'', 0xFFB000, 0x000000),
     (''ocean'', 0xADD8E6, 0x00001A), (''paper'', 0x1A1A1A, 0xF5F0E8), (''rose'', 0xFFB3C6, 0x1A0010),
     (''solarized'', 0x839496, 0x002B36)]"

definition theme_list :: "action list" where
  "theme_list = map say
    [''Theme        Text          Background'', ''-------------------------------------'',
     ''default      white         black'', ''hacker       green         black'',
     ''amber        amber         black'', ''ocean        light blue    navy blue'',
     ''paper        black         off-white'', ''rose         pink          purple'',
     ''solarized    muted blue    dark teal'']"

definition theme_plan :: "u8 list list \<Rightarrow> action list" where
  "theme_plan args =
    (case args of
       [t] \<Rightarrow>
         if t = bytes ''--help'' then theme_list
         else (case map_of (map (\<lambda>(n, c). (bytes n, c)) theme_colours) t of
             Some (fg, bg) \<Rightarrow> [Recolour fg bg]
           | None \<Rightarrow> [Print (bytes ''Unknown theme ''), Println t])
     | _ \<Rightarrow> [say ''usage: theme <THEME> OR theme --help''])"

definition help_plan :: "action list" where
  "help_plan = map say
    [''help - display available commands'', ''clear - clear the screen'', ''mem - show memory statistics'',
     ''disk - show disk information'', ''theme <THEME> - change colors'', ''reboot - reboot computer'']"

text \<open>
  A memory report, and the one that the code gives, which is not always the true one: \<open>total_pages*4096\<close> is computed in 32 bits, so
  the size it prints is the true one modulo 4096 MB.
\<close>

definition mem_report :: "nat \<Rightarrow> nat \<Rightarrow> nat \<Rightarrow> action list" where
  "mem_report mb free used =
    [Print (bytes ''Total memory available  ''), Print (dec_str mb), say '' MB'',
     Print (bytes ''Free pages              ''), Println (dec_str free),
     Print (bytes ''Used pages              ''), Println (dec_str used)]"

definition mem_plan :: "nat \<Rightarrow> nat \<Rightarrow> action list" where
  "mem_plan pages free = mem_report (pages div 256 mod 4096) free (pages - free)"

definition disk_plan :: "u8 list \<Rightarrow> nat \<Rightarrow> action list" where
  "disk_plan name sectors =
    [Print (bytes ''Model:  ''), Println name, Print (bytes ''Size:   ''), Print (dec_str (sectors div 2048)),
     Print (bytes '' MB (''), Print (dec_str sectors), say '' sectors)'']"

text \<open>The commands without arguments complain about any.\<close>

definition shell_plan :: "pmm \<Rightarrow> ata_drive \<Rightarrow> u8 list list \<Rightarrow> action list" where
  "shell_plan p dr args =
    (case args of
       [] \<Rightarrow> []
     | c # rest \<Rightarrow>
         let bare = (\<lambda>plan. if rest = [] then plan
               else [Println (c @ bytes '' command does not take any arguments'')])
         in if c = bytes ''help'' then bare help_plan
            else if c = bytes ''clear'' then bare [Clear]
            else if c = bytes ''mem'' then bare (mem_plan (unat (pages_num p)) (unat (free_pages p)))
            else if c = bytes ''disk'' then bare (disk_plan (cstr (model dr)) (unat (total_sectors dr)))
            else if c = bytes ''theme'' then theme_plan rest
            else if c = bytes ''reboot'' then bare []
            else [Print (bytes ''Unknown command '' @ [0x22]), Print c, Println [0x22]])"

text \<open>The port accesses of a line: the reset by the keyboard controller, then by the chipset.\<close>

definition reset_events :: "u8 list list \<Rightarrow> trace" where
  "reset_events args = (if args = [bytes ''reboot''] then [Out8 0x64 0xFE, Out8 0xCF9 0x06] else [])"


section \<open>Strings and numbers\<close>

lemma unat_of_char: "unat (of_char c :: u8) = of_char c"
  by (cases c) (simp add: of_char_def)

lemma of_char_u8_eq [simp]: "(of_char c :: u8) = of_char d \<longleftrightarrow> c = d"
  using unat_of_char [of c] unat_of_char [of d] by (metis of_char_eq_iff)

lemma bytes_eq_iff [simp]: "bytes s = bytes t \<longleftrightarrow> s = t"
proof -
  have "inj (of_char :: char \<Rightarrow> u8)" by (simp add: inj_def)
  then show ?thesis by (simp add: bytes_def inj_map_eq_map)
qed

definition nul_free :: "string \<Rightarrow> bool" where
  "nul_free t \<longleftrightarrow> CHR 0x00 \<notin> set t"

lemma nul_free_simps [simp]: "nul_free []" "nul_free (c # t) \<longleftrightarrow> c \<noteq> CHR 0x00 \<and> nul_free t"
  by (auto simp: nul_free_def)

lemma cstr_lit [simp]: "nul_free t \<Longrightarrow> cstr (lit t) = bytes t"
proof -
  assume "nul_free t"
  have "(of_char c :: u8) \<noteq> 0" if "c \<in> set t" for c
    using \<open>nul_free t\<close> that of_char_u8_eq [of c "CHR 0x00"] by (auto simp: nul_free_def)
  then have "0 \<notin> set (bytes t)" by (force simp: bytes_def)
  then show ?thesis by (simp add: lit_def bytes_def)
qed

lemma bytes_append: "bytes s @ bytes t = bytes (s @ t)"
  by (simp add: bytes_def)

lemma str_switch_Cons:
  assumes "terminated a" and "nul_free t"
  shows "str_switch a ((t, r) # cs) d = (if cstr a = bytes t then r else str_switch a cs d)"
  using strcmp_runs [OF assms(1) terminated_lit, of t] assms(2) by (auto simp: str_switch.simps(2))

lemma number_string:
  assumes "length buf = 16" and "unat n < 2 ^ 31"
  shows "\<exists>b. int_to_str n buf = Inr b \<and> length b = 16 \<and> terminated b \<and> cstr b = dec_str (unat n)"
proof -
  have "sint n = int (unat n)" using sint_of_nat_s32 [OF assms(2)] by simp
  then have "0 \<le> sint n" "nat (sint n) = unat n" by (simp_all only: nat_int of_nat_0_le_iff)
  moreover from this have "sint n \<noteq> - (2 ^ 31)" by auto
  ultimately have "int_to_str n buf = Inr (overwrite buf 0 (dec_str (unat n) @ [0]))"
    using int_to_str_fits [of buf n] assms(1) by simp
  moreover have "length (dec_str (unat n)) \<le> 10" by (rule length_dec_str_u32)
  ultimately show ?thesis using assms(1) by (simp add: overwrite_def)
qed

section \<open>The commands over any console\<close>

definition performs ::
  "(action \<Rightarrow> 't \<Rightarrow> 't) \<Rightarrow> ('s \<Rightarrow> bool) \<Rightarrow> ('s \<Rightarrow> 's \<Rightarrow> bool) \<Rightarrow> ('s \<Rightarrow> 't) \<Rightarrow> action list \<Rightarrow> ('s \<Rightarrow> 's result) \<Rightarrow> bool" where
  "performs act ok keeps tty_view as f \<longleftrightarrow> (\<forall>s. ok s \<longrightarrow> does ok keeps tty_view (fold act as) s (f s))"

named_theorems performs_rules "rules for console programs that perform a list of actions"

text \<open>What the shell needs of the memory manager and the disk to print its numbers.\<close>

definition shell_data_ok :: "pmm \<Rightarrow> ata_drive \<Rightarrow> bool" where
  "shell_data_ok p dr \<longleftrightarrow> unat (pages_num p) \<le> 1048576 \<and> unat (free_pages p) \<le> unat (pages_num p)
    \<and> terminated (model dr) \<and> length (model dr) = 41 \<and> unat (total_sectors dr) < 2 ^ 31"

context console
begin

lemma performs_Nil [performs_rules]: "performs act ok keeps tty_view [] (seq_r [])"
  by (simp add: performs_def does_def keeps_refl)

lemma performs_bind:
  assumes "performs act ok keeps tty_view as f" and "performs act ok keeps tty_view bs g"
  shows "performs act ok keeps tty_view (as @ bs) (\<lambda>s. bind_r (f s) g)"
proof -
  have "does ok keeps tty_view (\<lambda>t. fold act bs (fold act as t)) s (bind_r (f s) g)" if "ok s" for s
    using assms that by (intro does_bind) (simp_all add: performs_def)
  then show ?thesis by (simp add: performs_def comp_def)
qed

lemma performs_Cons [performs_rules]: "performs act ok keeps tty_view [a] f \<Longrightarrow> performs act ok keeps tty_view as (seq_r fs) \<Longrightarrow> performs act ok keeps tty_view (a # as) (seq_r (f # fs))"
  using performs_bind [of "[a]" f as "seq_r fs"] by (simp add: performs_def)

lemma performs_print [performs_rules]:
  "terminated b \<Longrightarrow> length b \<le> 2 ^ 31 \<Longrightarrow> t = cstr b \<Longrightarrow> performs act ok keeps tty_view [Print t] (print b)"
  using print_does by (simp add: performs_def)

lemma performs_println [performs_rules]:
  "terminated b \<Longrightarrow> length b \<le> 2 ^ 31 \<Longrightarrow> t = cstr b \<Longrightarrow> performs act ok keeps tty_view [Println t] (println b)"
  using println_does by (simp add: performs_def)

lemma performs_say [performs_rules]:
  "nul_free t \<Longrightarrow> length t < 2 ^ 31 \<Longrightarrow> performs act ok keeps tty_view [say t] (println (lit t))"
  unfolding say_def by (rule performs_println) simp_all

lemma performs_theme [performs_rules]: "performs act ok keeps tty_view [Recolour fg bg] (theme fg bg)"
  using theme_does by (simp add: performs_def)

lemma performs_if [performs_rules]:
  assumes "b \<Longrightarrow> performs act ok keeps tty_view as f" and "\<not> b \<Longrightarrow> performs act ok keeps tty_view bs g"
  shows "performs act ok keeps tty_view (if b then as else bs) (\<lambda>s. if b then f s else g s)"
  using assms by (cases b) (simp_all add: performs_def)

lemma cmd_help_performs:
  "performs act ok keeps tty_view (if n = 1 then help_plan else [say ''help command does not take any arguments''])
    (cmd_help println n)"
  by (auto simp: cmd_help_def [abs_def] help_plan_def say_def simp del: seq_r.simps intro!: performs_rules)

lemma cmd_clear_performs:
  "performs act ok keeps tty_view (if n = 1 then [Clear] else [say ''clear command does not take any arguments''])
    (cmd_clear println clear n)"
proof -
  have "performs act ok keeps tty_view [Clear] (\<lambda>s. Inr (clear s))"
    using clear_does by (simp add: performs_def)
  then show ?thesis by (auto simp: cmd_clear_def [abs_def] say_def simp del: seq_r.simps intro!: performs_rules)
qed

lemma cmd_mem_performs:
  assumes "unat (pages_num p) \<le> 1048576" and "unat (free_pages p) \<le> unat (pages_num p)" and "length junk = 16"
  shows "performs act ok keeps tty_view
    (if n = 1 then mem_plan (unat (pages_num p)) (unat (free_pages p)) else [say ''mem command does not take any arguments''])
    (cmd_mem print println p junk n)"
proof (cases "n = 1")
  case True
  let ?mb = "drop_bit 20 (pages_num p * 4096)" and ?used = "pages_num p - free_pages p"
  have mb: "unat ?mb = unat (pages_num p) div 256 mod 4096"
  proof -
    have "unat (pages_num p * 4096) = unat (pages_num p) * 4096 mod 4294967296" by (simp add: unat_word_ariths)
    then have "unat ?mb = unat (pages_num p) * 4096 mod (1048576 * 4096) div 1048576" by (simp add: unat_drop_bit)
    also have "\<dots> = unat (pages_num p) * 4096 div (256 * 4096) mod 4096" by (simp only: mod_mult2_eq) simp
    also have "unat (pages_num p) * 4096 div (256 * 4096) = unat (pages_num p) div 256" by (rule div_mult_mult2) simp
    finally show ?thesis .
  qed
  have small: "unat ?mb < 2 ^ 31"
    unfolding mb by (rule order.strict_trans [OF mod_less_divisor]) simp_all
  have used: "unat ?used = unat (pages_num p) - unat (free_pages p)"
    using assms(2) by (simp add: unat_sub word_le_nat_alt)
  obtain b1 where b1: "int_to_str ?mb junk = Inr b1" "length b1 = 16" "terminated b1" "cstr b1 = dec_str (unat ?mb)"
    using number_string [OF assms(3) small] by blast
  obtain b2 where b2: "int_to_str (free_pages p) b1 = Inr b2" "length b2 = 16" "terminated b2"
    "cstr b2 = dec_str (unat (free_pages p))"
    using number_string [OF b1(2), of "free_pages p"] assms by auto
  have "unat ?used < 2 ^ 31" using used assms(1) by simp
  then obtain b3 where b3: "int_to_str ?used b2 = Inr b3" "length b3 = 16" "terminated b3" "cstr b3 = dec_str (unat ?used)"
    using number_string [OF b2(2)] by blast
  have "cmd_mem print println p junk n = seq_r
    [print (lit ''Total memory available  ''), print b1, println (lit '' MB''),
     print (lit ''Free pages              ''), println b2, print (lit ''Used pages              ''), println b3]"
    using True b1(1) b2(1) b3(1)
    by (simp add: fun_eq_iff cmd_mem_def pmm_get_total_pages_def pmm_get_free_pages_def Let_def
        del: seq_r.simps flip: seq_r_append)
  then show ?thesis
    using True b1 b2 b3 mb used by (auto simp: mem_plan_def mem_report_def say_def simp del: seq_r.simps intro!: performs_rules)
next
  case False
  then show ?thesis by (auto simp: cmd_mem_def [abs_def] say_def simp del: seq_r.simps intro!: performs_rules)
qed

lemma cmd_disk_performs:
  assumes "terminated (model dr)" and "length (model dr) = 41" and "unat (total_sectors dr) < 2 ^ 31" and "length junk = 16"
  shows "performs act ok keeps tty_view
    (if n = 1 then disk_plan (cstr (model dr)) (unat (total_sectors dr)) else [say ''disk command does not take any arguments''])
    (cmd_disk print println dr junk n)"
proof (cases "n = 1")
  case True
  let ?mb = "ucast (drop_bit 20 (total_sectors dr * 512)) :: s32" and ?n = "ucast (total_sectors dr) :: s32"
  have n: "unat ?n = unat (total_sectors dr)" using assms(3) by (intro unat_ucast_small) simp
  have "unat (total_sectors dr * 512) = unat (total_sectors dr) * 512"
    using assms(3) by (simp add: unat_word_ariths)
  then have "unat (drop_bit 20 (total_sectors dr * 512)) = unat (total_sectors dr) div 2048"
    by (simp add: unat_drop_bit)
  moreover from this have "unat ?mb = unat (drop_bit 20 (total_sectors dr * 512))"
    using assms(3) by (intro unat_ucast_small) simp
  ultimately have mb: "unat ?mb = unat (total_sectors dr) div 2048" by simp
  have small: "unat ?mb < 2 ^ 31" "unat ?n < 2 ^ 31"
    using assms(3) div_le_dividend [of "unat (total_sectors dr)" 2048] unfolding mb n by linarith+
  obtain b1 where b1: "int_to_str ?mb junk = Inr b1" "length b1 = 16" "terminated b1" "cstr b1 = dec_str (unat ?mb)"
    using number_string [OF assms(4) small(1)] by blast
  obtain b2 where b2: "int_to_str ?n b1 = Inr b2" "length b2 = 16" "terminated b2" "cstr b2 = dec_str (unat ?n)"
    using number_string [OF b1(2) small(2)] by blast
  have "cmd_disk print println dr junk n = seq_r
    [print (lit ''Model:  ''), println (model dr), print (lit ''Size:   ''), print b1, print (lit '' MB (''),
     print b2, println (lit '' sectors)'')]"
    using True b1(1) b2(1) by (simp add: fun_eq_iff cmd_disk_def ata_get_drive_def Let_def del: seq_r.simps flip: seq_r_append)
  then show ?thesis
    using True b1 b2 mb n assms(1,2) by (auto simp: disk_plan_def say_def simp del: seq_r.simps intro!: performs_rules)
next
  case False
  then show ?thesis by (auto simp: cmd_disk_def [abs_def] say_def simp del: seq_r.simps intro!: performs_rules)
qed

lemma performs_switch:
  assumes "terminated a" and "nul_free t"
    and "cstr a = bytes t \<Longrightarrow> performs act ok keeps tty_view as r"
    and "cstr a \<noteq> bytes t \<Longrightarrow> performs act ok keeps tty_view bs (\<lambda>s. str_switch a (cs s) (d s))"
  shows "performs act ok keeps tty_view (if cstr a = bytes t then as else bs) (\<lambda>s. str_switch a ((t, r s) # cs s) (d s))"
  unfolding str_switch_Cons [OF assms(1,2)] using assms(3,4) by (intro performs_if) simp_all

lemma performs_switch_end:
  "performs act ok keeps tty_view as d \<Longrightarrow> performs act ok keeps tty_view as (\<lambda>s. str_switch a [] (d s))"
  by simp

lemma cmd_theme_performs:
  assumes "list_all (\<lambda>a. terminated a \<and> length a \<le> 2 ^ 31) (c # args)"
  shows "performs act ok keeps tty_view (theme_plan (map cstr args)) (cmd_theme print println theme (c # args))"
proof (cases "length args = 1")
  case True
  then obtain a where a: "args = [a]" by (cases args) auto
  then have t: "terminated a" "length a \<le> 2 ^ 31" using assms by simp_all
  have plan: "theme_plan (map cstr args) =
    (if cstr a = bytes ''--help'' then theme_list
     else if cstr a = bytes ''default'' then [Recolour FB_WHITE FB_BLACK]
     else if cstr a = bytes ''hacker'' then [Recolour 0x00FF00 FB_BLACK]
     else if cstr a = bytes ''amber'' then [Recolour 0xFFB000 FB_BLACK]
     else if cstr a = bytes ''ocean'' then [Recolour 0xADD8E6 0x00001A]
     else if cstr a = bytes ''paper'' then [Recolour 0x1A1A1A 0xF5F0E8]
     else if cstr a = bytes ''rose'' then [Recolour 0xFFB3C6 0x1A0010]
     else if cstr a = bytes ''solarized'' then [Recolour 0x839496 0x002B36]
     else [Print (bytes ''Unknown theme ''), Println (cstr a)])"
    by (simp add: a theme_plan_def theme_colours_def FB_WHITE_def FB_BLACK_def)
  have code: "cmd_theme print println theme (c # args) = (\<lambda>s. cmd_theme print println theme [c, a] s)" using a by simp
  show ?thesis
    unfolding plan code unfolding cmd_theme_def theme_list_def
    using t by (simp del: seq_r.simps split del: if_split)
      (intro performs_switch performs_switch_end performs_rules; (simp del: seq_r.simps)?; intro performs_rules; simp)
next
  case False
  then have "theme_plan (map cstr args) = [say ''usage: theme <THEME> OR theme --help'']"
    by (cases args; cases "tl args") (auto simp: theme_plan_def)
  with False show ?thesis
    by (auto simp: cmd_theme_def [abs_def] say_def simp del: seq_r.simps intro!: performs_rules)
qed

lemma cmd_unknown_performs:
  assumes "terminated c" and "length c \<le> 2 ^ 31"
  shows "performs act ok keeps tty_view [Print (bytes ''Unknown command '' @ [0x22]), Print (cstr c), Println [0x22]]
    (cmd_unknown print println c)"
proof -
  have "bytes ''Unknown command '' @ [0x22] = bytes (''Unknown command '' @ [CHR 0x22])" "[0x22] = bytes [CHR 0x22]"
    by (simp_all add: bytes_def)
  then show ?thesis
    using assms by (auto simp: cmd_unknown_def [abs_def] simp del: seq_r.simps intro!: performs_rules)
qed

text \<open>The whole command switch.\<close>

lemma shell_args_do:
  assumes "ok s" and "list_all (\<lambda>a. terminated a \<and> length a \<le> 2 ^ 31) argv" and "length junk = 16"
    and "shell_data_ok p dr"
  shows "\<exists>s'. shell_exec_args_on print println clear theme p dr junk argv (s, tr) = Inr (s', tr @ reset_events (map cstr argv))
    \<and> ok s' \<and> keeps s s' \<and> tty_view s' = fold act (shell_plan p dr (map cstr argv)) (tty_view s)"
proof (cases argv)
  case Nil
  then show ?thesis
    using assms(1) by (simp add: shell_exec_args_on_def reset_events_def shell_plan_def keeps_refl)
next
  case (Cons a args)
  let ?c = "cstr a" and ?n = "length argv" and ?plan = "shell_plan p dr (map cstr argv)"
  let ?on = "\<lambda>r. bind_r r (\<lambda>s. Inr (s, tr))"
  have a: "terminated a" "length a \<le> 2 ^ 31" and bare: "map cstr args = [] \<longleftrightarrow> ?n = 1"
    using assms(2) Cons by auto
  note sw = str_switch_Cons [OF a(1)]
  have data: "unat (pages_num p) \<le> 1048576" "unat (free_pages p) \<le> unat (pages_num p)"
    "terminated (model dr)" "length (model dr) = 41" "unat (total_sectors dr) < 2 ^ 31"
    using assms(4) by (simp_all add: shell_data_ok_def)
  have run: "\<exists>s'. ?on (f s) = Inr (s', tr) \<and> ok s' \<and> keeps s s' \<and> tty_view s' = fold act as (tty_view s)"
    if "performs act ok keeps tty_view as f" for as f
    using that assms(1) by (auto simp: performs_def does_def ok_r_iff)
  consider "?c = bytes ''help''" | "?c = bytes ''clear''" | "?c = bytes ''mem''" | "?c = bytes ''disk''"
    | "?c = bytes ''theme''" | "?c = bytes ''reboot''"
    | "?c \<notin> bytes ` {''help'', ''clear'', ''mem'', ''disk'', ''theme'', ''reboot''}"
    by blast
  then show ?thesis
  proof cases
    case 1
    then show ?thesis using run [OF cmd_help_performs [of ?n]] Cons
      by (auto simp: shell_exec_args_on_def sw reset_events_def shell_plan_def bytes_append say_def)
  next
    case 2
    then show ?thesis using run [OF cmd_clear_performs [of ?n]] Cons
      by (auto simp: shell_exec_args_on_def sw reset_events_def shell_plan_def bytes_append say_def)
  next
    case 3
    then show ?thesis using run [OF cmd_mem_performs [OF data(1,2) assms(3), of ?n]] Cons
      by (auto simp: shell_exec_args_on_def sw reset_events_def shell_plan_def bytes_append say_def)
  next
    case 4
    then show ?thesis using run [OF cmd_disk_performs [OF data(3-5) assms(3), of ?n]] Cons
      by (auto simp: shell_exec_args_on_def sw reset_events_def shell_plan_def bytes_append say_def)
  next
    case 5
    then show ?thesis using run [OF cmd_theme_performs [of a args]] Cons assms(2)
      by (auto simp: shell_exec_args_on_def sw reset_events_def shell_plan_def)
  next
    case 6
    have "performs act ok keeps tty_view [say ''reboot command does not take any arguments'']
        (println (lit ''reboot command does not take any arguments''))" by (rule performs_rules) simp_all
    with 6 show ?thesis using run [of "[say ''reboot command does not take any arguments'']"] Cons assms(1)
      by (auto simp: shell_exec_args_on_def sw cmd_reboot_def reset_events_def shell_plan_def bytes_append say_def
          outb_def keeps_refl)
  next
    case 7
    then show ?thesis using run [OF cmd_unknown_performs [OF a]] Cons
      by (auto simp: shell_exec_args_on_def sw reset_events_def shell_plan_def)
  qed
qed

text \<open>A line: cut into words in the buffer, then the command.\<close>

lemma shell_line_does:
  assumes "ok s" and "terminated line" and "length buf = 256" and "length junk = 16" and "shell_data_ok p dr"
  shows "\<exists>buf' s'. bind_r (shell_tokens line buf) (\<lambda>(argv, buf).
        bind_r (shell_exec_args_on print println clear theme p dr junk (map (\<lambda>q. drop q buf) argv) (s, tr)) (\<lambda>(s, tr).
          Inr (buf, s, tr)))
      = Inr (buf', s', tr @ reset_events (take 16 (words (take 255 (cstr line)))))
    \<and> length buf' = 256 \<and> ok s' \<and> keeps s s'
    \<and> tty_view s' = fold act (shell_plan p dr (take 16 (words (take 255 (cstr line))))) (tty_view s)"
proof -
  let ?args = "take 16 (words (take 255 (cstr line)))"
  obtain argv buf' where tok: "shell_tokens line buf = Inr (argv, buf')" "length buf' = 256"
    "\<forall>q \<in> set argv. terminated (drop q buf')" "map (\<lambda>q. cstr (drop q buf')) argv = ?args"
    using shell_tokens_ok [OF assms(2,3)] by blast
  let ?argv = "map (\<lambda>q. drop q buf') argv"
  have "list_all (\<lambda>a. terminated a \<and> length a \<le> 2 ^ 31) ?argv"
    using tok(2,3) by (auto simp: list_all_iff)
  moreover have "map cstr ?argv = ?args" using tok(4) by (simp add: comp_def)
  ultimately show ?thesis
    using shell_args_do [OF assms(1) _ assms(4,5), of ?argv tr] tok(1,2) by auto
qed

end

section \<open>The shell on the framebuffer console\<close>

lemma pmm_ok_counts: "pmm_ok p \<Longrightarrow> unat (pages_num p) \<le> 1048576 \<and> unat (free_pages p) \<le> unat (pages_num p)"
  using count_le_length [of "page_view p" True] by (simp add: pmm_ok_def)

lemma shell_exec_does:
  assumes "fb_ok st" and "terminated line" and "length buf = 256" and "length junk = 16" and "shell_data_ok p dr"
  shows "\<exists>buf' st'. shell_exec p dr junk line (buf, st, tr)
      = Inr (buf', st', tr @ reset_events (take 16 (words (take 255 (cstr line)))))
    \<and> length buf' = 256 \<and> fb_ok st' \<and> fb_keeps st st'
    \<and> tty_of st' = t_script (shell_plan p dr (take 16 (words (take 255 (cstr line))))) (tty_of st)"
  using fbc.shell_line_does [OF assms, of tr] by (simp add: shell_exec_def shell_exec_args_def t_script_def)

text \<open>
  C4: The shell implements its command table. From a console in order, on any terminated line, with the page
  counts of a well-formed memory manager and a disk below 1 TiB, \<open>shell_exec\<close> returns; the
  terminal afterwards is the one before with the actions of the command table for the line's words applied,
  the console is in order, nothing outside the framebuffer has changed, and the ports are touched by
  the lone word \<open>reboot\<close> only.
\<close>

theorem shell_exec_refines:
  assumes "fb_ok st" and "terminated line" and "length buf = 256" and "length junk = 16" and "shell_data_ok p dr"
  shows "let args = take 16 (words (take 255 (cstr line))) in
    \<exists>buf' st'. shell_exec p dr junk line (buf, st, tr) = Inr (buf', st', tr @ reset_events args)
      \<and> length buf' = 256 \<and> fb_ok st' \<and> tty_of st' = t_script (shell_plan p dr args) (tty_of st)
      \<and> (\<forall>a. a \<notin> region st \<longrightarrow> vram st' a = vram st a)"
  using shell_exec_does [OF assms, of tr] by (auto simp: fb_keeps_def evolves_def Let_def)

lemma sample_data_ok: "shell_data_ok pmm_boot (drive_boot\<lparr>total_sectors := 4096\<rparr>)"
  by (simp add: shell_data_ok_def pmm_boot_def drive_boot_def terminated_def)

theorem shell_exec_refines_witness:
  "\<exists>buf' st'. shell_exec pmm_boot (drive_boot\<lparr>total_sectors := 4096\<rparr>) (replicate 16 9) (lit ''theme hacker'')
      (replicate 256 0, sample_fb, []) = Inr (buf', st', [])
    \<and> fb_ok st' \<and> tty_of st' = t_theme 0x00FF00 0 (tty_of sample_fb)"
proof -
  have args: "take 16 (words (take 255 (cstr (lit ''theme hacker'')))) = [bytes ''theme'', bytes ''hacker'']"
    by (simp add: lit_def words.simps) (simp add: bytes_def)
  have "t_script (shell_plan p dr [bytes ''theme'', bytes ''hacker'']) t = t_theme 0x00FF00 0 t" for p dr t
    by (simp add: shell_plan_def theme_plan_def theme_colours_def t_script_def)
  with shell_exec_refines [OF sample_fb_ok terminated_lit _ _ sample_data_ok, of "replicate 256 0" "replicate 16 9"
      "''theme hacker''" "[]"] args
  show ?thesis by (auto simp: Let_def reset_events_def)
qed

text \<open>
  The disk command on a disk of exactly \<open>2 ^ 31\<close> sectors (1 TiB) hands the smallest \<open>int\<close> to \<open>int_to_str\<close>,
  whose negation overflows.
\<close>

theorem shell_disk_overflow:
  assumes "fb_ok st" and "terminated (model dr)" and "length (model dr) = 41" and "total_sectors dr = 2147483648"
    and "length junk = 16"
  shows "shell_exec_args p dr junk [lit ''disk''] (st, tr) = Inl Signed_overflow"
proof -
  let ?seq1 = "seq_r [fb_print (lit ''Model:  ''), fb_println (model dr), fb_print (lit ''Size:   '')]"
  let ?as1 = "[Print (bytes ''Model:  ''), Println (cstr (model dr)), Print (bytes ''Size:   '')]"
  have "performs t_do fb_ok fb_keeps tty_of ?as1 ?seq1"
    using assms(2,3) by (intro fbc.performs_Cons fbc.performs_Nil fbc.performs_print fbc.performs_println) simp_all
  then obtain s1 where s1: "?seq1 st = Inr s1" "fb_ok s1" using assms(1) by (auto simp: performs_def does_def ok_r_iff)
  obtain b where b: "int_to_str 1048576 junk = Inr b" "length b = 16" "terminated b" "cstr b = dec_str 1048576"
    using number_string [OF assms(5), of 1048576] by auto
  let ?seq2 = "seq_r [fb_print b, fb_print (lit '' MB ('')]"
  have "performs t_do fb_ok fb_keeps tty_of [Print (cstr b), Print (bytes '' MB ('')] ?seq2"
    using b by (intro fbc.performs_Cons fbc.performs_Nil fbc.performs_print) simp_all
  then obtain s2 where s2: "?seq2 s1 = Inr s2" using s1 by (auto simp: performs_def does_def ok_r_iff)
  have "int_to_str 2147483648 b = Inl Signed_overflow" using int_to_str_fits [of b 2147483648] b(2) by simp
  moreover have "drop_bit 20 (2147483648 * 512 :: u64) = 1048576" by (simp add: drop_bit_eq_div)
  ultimately have "cmd_disk fb_print fb_println dr junk 1 st = Inl Signed_overflow"
    using s1(1) b(1) s2 assms(4) by (simp add: cmd_disk_def ata_get_drive_def Let_def del: seq_r.simps)
  then show ?thesis by (simp add: shell_exec_args_def shell_exec_args_on_def str_switch_Cons)
qed

theorem shell_disk_overflow_witness:
  "shell_exec_args pmm_boot (drive_boot\<lparr>total_sectors := 2147483648\<rparr>) (replicate 16 0) [lit ''disk''] (sample_fb, [])
    = Inl Signed_overflow"
  by (rule shell_disk_overflow [OF sample_fb_ok]) (simp_all add: drive_boot_def terminated_def)

end
