(* ===== verification/Heap.thy ===== *)
theory Heap
  imports Pmm
begin

text \<open>
  The kernel heap \<open>kernel/heap.c\<close>: block headers in a doubly linked list that runs through the
  pages taken from the page allocator. Memory is the map from an address to the
  \<open>block_header_t\<close> stored there; it is total, and a map of its own: a page of the heap is taken to be
  mapped, and to be none of those that hold the kernel's image, stack, tables or boot information. The code sees to neither:
  \<open>boot.s\<close> maps the first GiB only, and \<open>pmm_init\<close> leaves the kernel's own pages free. The
  headers of different blocks do not overlap, which the layout invariant below shows; \<open>Heap_Bytes\<close> has
  the same operations on bytes, with the data of the callers. \<open>sizeof(block_header_t)\<close> is 24 on x86-64.

  The operations take the page allocator as an argument and are used with \<open>pmm_alloc\<close>; what they
  need of it is the contract \<open>page_source\<close>, under which their lemmas are proved once.
\<close>

section \<open>State and operations\<close>

record block_header =
  b_size :: u32
  b_in_use :: u8
  b_next :: u64
  b_prev :: u64

record heap =
  hdr :: "u64 \<Rightarrow> block_header"
  head :: u64

text \<open>An assignment to a field of the header at an address.\<close>

definition upd :: "u64 \<Rightarrow> (block_header \<Rightarrow> block_header) \<Rightarrow> heap \<Rightarrow> heap" where
  "upd a f h = h\<lparr>hdr := (hdr h)(a := f (hdr h a))\<rparr>"

definition heap_init_on :: "('s \<Rightarrow> (u64 \<times> 's) result) \<Rightarrow> heap \<times> 's \<Rightarrow> (heap \<times> 's) result" where
  "heap_init_on alloc = (\<lambda>(h, s).
     bind_r (alloc s) (\<lambda>(a, s).
       let h = h\<lparr>head := a\<rparr>;
           h = upd (head h) (\<lambda>b. b\<lparr>b_size := 4096 - 24\<rparr>) h;
           h = upd (head h) (\<lambda>b. b\<lparr>b_in_use := 0\<rparr>) h;
           h = upd (head h) (\<lambda>b. b\<lparr>b_next := 0\<rparr>) h;
           h = upd (head h) (\<lambda>b. b\<lparr>b_prev := 0\<rparr>) h
       in Inr (h, s)))"

definition resize_block :: "u64 \<Rightarrow> u32 \<Rightarrow> heap \<Rightarrow> heap" where
  "resize_block block sz h =
     (let new_block = block + 24 + ucast sz;
          h = upd new_block (\<lambda>b. b\<lparr>b_size := b_size (hdr h block) - (sz + 24)\<rparr>) h;
          h = upd new_block (\<lambda>b. b\<lparr>b_in_use := 0\<rparr>) h;
          h = upd new_block (\<lambda>b. b\<lparr>b_next := b_next (hdr h block)\<rparr>) h;
          h = upd new_block (\<lambda>b. b\<lparr>b_prev := block\<rparr>) h;
          h = (if b_next (hdr h block) \<noteq> 0
               then upd (b_next (hdr h block)) (\<lambda>b. b\<lparr>b_prev := new_block\<rparr>) h else h);
          h = upd block (\<lambda>b. b\<lparr>b_next := new_block\<rparr>) h
      in upd block (\<lambda>b. b\<lparr>b_size := sz\<rparr>) h)"

text \<open>
  The search loop of \<open>kmalloc\<close>: it returns a block, or runs off the list with the last block
  visited in \<open>old_block\<close>, a local without an initial value (\<open>None\<close>).
\<close>

datatype search = Found u64 heap | Exhausted "u64 option"

partial_function (option) kmalloc_loop :: "u32 \<Rightarrow> u64 \<Rightarrow> u64 option \<Rightarrow> heap \<Rightarrow> search option" where
  "kmalloc_loop sz block old_block h =
     (if block \<noteq> 0 then
        if b_size (hdr h block) \<ge> sz \<and> b_size (hdr h block) - sz \<ge> 24 + 4 then
          let h = resize_block block sz h;
              h = upd block (\<lambda>b. b\<lparr>b_in_use := 1\<rparr>) h
          in Some (Found (block + 24) h)
        else if b_size (hdr h block) \<ge> sz then
          let h = upd block (\<lambda>b. b\<lparr>b_in_use := 1\<rparr>) h
          in Some (Found (block + 24) h)
        else kmalloc_loop sz (b_next (hdr h block)) (Some block) h
      else Some (Exhausted old_block))"

text \<open>The part of \<open>kmalloc\<close> after the loop: a new page becomes the last block.\<close>

definition kmalloc_grow ::
  "('s \<Rightarrow> (u64 \<times> 's) result) \<Rightarrow> u32 \<Rightarrow> u64 option \<Rightarrow> heap \<times> 's \<Rightarrow> (u64 \<times> heap \<times> 's) result" where
  "kmalloc_grow alloc sz old_block = (\<lambda>(h, s).
     bind_r (alloc s) (\<lambda>(new_block, s).
       if new_block = 0 then Inr (0, h, s)
       else case old_block of
         None \<Rightarrow> Inl Uninitialised
       | Some old \<Rightarrow>
           let h = upd old (\<lambda>b. b\<lparr>b_next := new_block\<rparr>) h;
               h = upd new_block (\<lambda>b. b\<lparr>b_prev := old\<rparr>) h;
               h = upd new_block (\<lambda>b. b\<lparr>b_next := 0\<rparr>) h;
               h = upd new_block (\<lambda>b. b\<lparr>b_size := 4096 - 24\<rparr>) h;
               h = (if b_size (hdr h new_block) - sz \<ge> 24 + 4
                    then resize_block new_block sz h else h);
               h = upd new_block (\<lambda>b. b\<lparr>b_in_use := 1\<rparr>) h
           in Inr (new_block + 24, h, s)))"

definition kmalloc_on ::
  "('s \<Rightarrow> (u64 \<times> 's) result) \<Rightarrow> u32 \<Rightarrow> heap \<times> 's \<Rightarrow> (u64 \<times> heap \<times> 's) result option" where
  "kmalloc_on alloc sz = (\<lambda>(h, s).
     if sz > 4096 - 24 then Some (Inr (0, h, s))
     else Option.bind (kmalloc_loop sz (head h) None h) (\<lambda>r.
       case r of
         Found p h \<Rightarrow> Some (Inr (p, h, s))
       | Exhausted old_block \<Rightarrow> Some (kmalloc_grow alloc sz old_block (h, s))))"

text \<open>\<open>kfree\<close>: the merge with the previous block, then the merge with the next one.\<close>

definition merge_prev :: "u64 \<Rightarrow> heap \<Rightarrow> u64 \<times> heap" where
  "merge_prev block h =
     (let prev_block = b_prev (hdr h block);
          next_block = b_next (hdr h block)
      in if prev_block \<noteq> 0 \<and> prev_block + 24 + ucast (b_size (hdr h prev_block)) = block
            \<and> b_in_use (hdr h prev_block) = 0 then
           let h = upd prev_block (\<lambda>b. b\<lparr>b_size := b_size b + (b_size (hdr h block) + 24)\<rparr>) h;
               h = upd prev_block (\<lambda>b. b\<lparr>b_next := next_block\<rparr>) h;
               h = (if next_block \<noteq> 0
                    then upd next_block (\<lambda>b. b\<lparr>b_prev := prev_block\<rparr>) h else h)
           in (prev_block, h)
         else (block, h))"

definition merge_next :: "u64 \<Rightarrow> u64 \<Rightarrow> heap \<Rightarrow> heap" where
  "merge_next next_block block h =
     (if next_block \<noteq> 0 \<and> block + 24 + ucast (b_size (hdr h block)) = next_block
         \<and> b_in_use (hdr h next_block) = 0 then
        let h = upd block (\<lambda>b. b\<lparr>b_size := b_size b + (b_size (hdr h next_block) + 24)\<rparr>) h;
            h = upd block (\<lambda>b. b\<lparr>b_next := b_next (hdr h next_block)\<rparr>) h
        in if b_next (hdr h block) \<noteq> 0
           then upd (b_next (hdr h block)) (\<lambda>b. b\<lparr>b_prev := block\<rparr>) h else h
      else h)"

definition kfree :: "u64 \<Rightarrow> heap \<Rightarrow> heap" where
  "kfree ptr h =
     (let block = ptr - 24;
          next_block = b_next (hdr h block);
          (block, h) = merge_prev block h;
          h = merge_next next_block block h
      in upd block (\<lambda>b. b\<lparr>b_in_use := 0\<rparr>) h)"

text \<open>The heap on the kernel's page allocator.\<close>

definition heap_init :: "heap \<times> pmm \<Rightarrow> (heap \<times> pmm) result" where
  "heap_init = heap_init_on pmm_alloc"

definition kmalloc :: "u32 \<Rightarrow> heap \<times> pmm \<Rightarrow> (u64 \<times> heap \<times> pmm) result option" where
  "kmalloc = kmalloc_on pmm_alloc"

section \<open>The list of blocks\<close>

text \<open>
  The abstract heap is the list of its blocks in link order, each with its address, its size and
  its \<open>in_use\<close> byte. \<open>seg m q p bs p'\<close>: from pointer \<open>p\<close>, whose predecessor is \<open>q\<close>, the headers of
  \<open>m\<close> link exactly the blocks \<open>bs\<close>, and the last \<open>next\<close> is \<open>p'\<close>.
\<close>

type_synonym blk = "u64 \<times> u32 \<times> u8"

fun seg :: "(u64 \<Rightarrow> block_header) \<Rightarrow> u64 \<Rightarrow> u64 \<Rightarrow> blk list \<Rightarrow> u64 \<Rightarrow> bool" where
  "seg m q p [] p' \<longleftrightarrow> p = p'"
| "seg m q p ((a, n, u) # bs) p' \<longleftrightarrow>
     p = a \<and> a \<noteq> 0 \<and> b_size (m a) = n \<and> b_in_use (m a) = u \<and> b_prev (m a) = q
     \<and> seg m a (b_next (m a)) bs p'"

fun last_addr :: "u64 \<Rightarrow> blk list \<Rightarrow> u64" where
  "last_addr q [] = q"
| "last_addr q (b # bs) = last_addr (fst b) bs"

definition heap_rep :: "heap \<Rightarrow> blk list \<Rightarrow> bool" where
  "heap_rep h bs = seg (hdr h) 0 (head h) bs 0"

lemma last_addr_append [simp]: "last_addr q (xs @ ys) = last_addr (last_addr q xs) ys"
  by (induction xs arbitrary: q) auto

lemma last_addr_in: "bs \<noteq> [] \<Longrightarrow> last_addr q bs \<in> fst ` set bs"
  by (induction bs arbitrary: q) (auto, metis last_addr.simps(1) rev_image_eqI)

lemma last_addr_any: "bs \<noteq> [] \<Longrightarrow> last_addr q bs = last_addr q' bs"
  by (cases bs) auto

lemma seg_append: "seg m q p (xs @ ys) p' \<longleftrightarrow>
    (\<exists>r. seg m q p xs r \<and> seg m (last_addr q xs) r ys p')"
  by (induction xs arbitrary: q p) auto

lemma seg_frame: "a \<notin> fst ` set bs \<Longrightarrow> seg (m(a := v)) q p bs p' = seg m q p bs p'"
  by (induction bs arbitrary: q p) auto

text \<open>Blocks as intervals of addresses, and the layout invariant: they do not overlap.\<close>

definition lo :: "blk \<Rightarrow> nat" where "lo b = unat (fst b)"
definition hi :: "blk \<Rightarrow> nat" where "hi b = unat (fst b) + 24 + unat (fst (snd b))"

definition apart :: "blk \<Rightarrow> blk \<Rightarrow> bool" where
  "apart b c \<longleftrightarrow> hi b \<le> lo c \<or> hi c \<le> lo b"

fun layout :: "blk list \<Rightarrow> bool" where
  "layout [] \<longleftrightarrow> True"
| "layout (b # bs) \<longleftrightarrow> 0 < lo b \<and> hi b \<le> 4294967296 \<and> (\<forall>c \<in> set bs. apart b c) \<and> layout bs"

definition heap_bytes :: "blk list \<Rightarrow> nat" where
  "heap_bytes bs = (\<Sum>b \<leftarrow> bs. hi b - lo b)"

lemma lo_hi [simp]: "lo (a, n, u) = unat a" "hi (a, n, u) = unat a + 24 + unat n"
  by (simp_all add: lo_def hi_def)

lemma apart_sym: "apart b c = apart c b"
  by (auto simp: apart_def)

lemma layout_append:
  "layout (xs @ ys) \<longleftrightarrow> layout xs \<and> layout ys \<and> (\<forall>x \<in> set xs. \<forall>y \<in> set ys. apart x y)"
  by (induction xs) auto

lemma layout_addr_notin:
  assumes "layout (xs @ (a, n, u) # ys)"
  shows "a \<notin> fst ` set xs" and "a \<notin> fst ` set ys"
  using assms by (auto simp: layout_append apart_def)

lemma layout_distinct: "layout bs \<Longrightarrow> distinct (map fst bs)"
  by (induction bs) (force simp: apart_def)+

section \<open>Splitting and marking refine list operations\<close>

text \<open>The address of the block behind a header and \<open>s\<close> bytes, and the size left over.\<close>

lemma unat_behind:
  assumes "unat (a :: u64) + 24 + unat (s :: u32) \<le> 4294967296"
  shows "unat (a + 24 + ucast s) = unat a + 24 + unat s"
proof -
  have s: "unat (ucast s :: u64) = unat s"
    using unat_less_32 [of s] by (intro unat_ucast_small) simp
  have "unat (a + 24) = unat a + 24"
    using assms by (simp add: unat_word_ariths)
  with s show ?thesis using assms by (simp add: unat_word_ariths)
qed

lemma unat_remainder:
  assumes "unat s + 24 \<le> unat (n :: u32)"
  shows "unat (n - (s + 24)) = unat n - (unat s + 24)"
proof -
  have "unat (s + 24) = unat s + 24"
    using assms unat_less_32 [of n] unat_add_u32 [of s 24] by simp
  with assms show ?thesis by (simp add: unat_sub_u32 word_le_nat_alt)
qed

lemma layout_split:
  assumes "layout (xs @ (a, n, u) # ys)" and "unat s + 24 \<le> unat n"
  shows "layout (xs @ (a, s, v) # (a + 24 + ucast s, n - (s + 24), w) # ys)"
proof -
  have "unat a + 24 + unat n \<le> 4294967296" using assms(1) by (simp add: layout_append)
  then have c: "unat (a + 24 + ucast s) = unat a + 24 + unat s"
    using assms(2) by (intro unat_behind) simp
  show ?thesis using assms(1)
    by (auto simp: layout_append apart_def c unat_remainder [OF assms(2)]) (use assms(2) in fastforce)+
qed

lemma heap_rep_split:
  assumes "heap_rep h (xs @ (a, n, u) # ys)" and "layout (xs @ (a, n, u) # ys)"
    and "unat s + 24 \<le> unat n"
  shows "heap_rep (resize_block a s h) (xs @ (a, s, u) # (a + 24 + ucast s, n - (s + 24), 0) # ys)"
proof -
  let ?c = "a + 24 + ucast s"
  have lay: "layout (xs @ (a, s, u) # (?c, n - (s + 24), 0) # ys)"
    by (rule layout_split [OF assms(2,3)])
  then have dist: "distinct (map fst (xs @ (a, s, u) # (?c, n - (s + 24), 0) # ys))"
    by (rule layout_distinct)
  have c0: "?c \<noteq> 0" using lay by (auto simp: layout_append)
  show ?thesis
  proof (cases ys)
    case Nil
    then show ?thesis using assms(1) dist c0
      by (auto simp: heap_rep_def resize_block_def upd_def Let_def seg_append seg_frame)
  next
    case (Cons y zs)
    obtain d k v where "y = (d, k, v)" by (cases y)
    with Cons show ?thesis using assms(1) dist c0
      by (auto simp: heap_rep_def resize_block_def upd_def Let_def seg_append seg_frame)
  qed
qed

lemma heap_rep_use:
  assumes "heap_rep h (xs @ (a, n, u) # ys)" and "layout (xs @ (a, n, u) # ys)"
  shows "heap_rep (upd a (\<lambda>b. b\<lparr>b_in_use := v\<rparr>) h) (xs @ (a, n, v) # ys)"
  using assms(1) layout_addr_notin [OF assms(2)]
  by (auto simp: heap_rep_def upd_def seg_append seg_frame)

section \<open>Allocation\<close>

text \<open>
  The reference for the search: first fit by size alone, splitting the block when at least a
  header and four bytes remain. The \<open>in_use\<close> byte of the blocks plays no part in it, as in the
  source.
\<close>

fun take_first :: "u32 \<Rightarrow> blk list \<Rightarrow> (u64 \<times> blk list) option" where
  "take_first s [] = None"
| "take_first s ((a, n, u) # bs) =
     (if n \<ge> s \<and> n - s \<ge> 28 then
        Some (a + 24, (a, s, 1) # (a + 24 + ucast s, n - (s + 24), 0) # bs)
      else if n \<ge> s then Some (a + 24, (a, n, 1) # bs)
      else map_option (\<lambda>(p, bs). (p, (a, n, u) # bs)) (take_first s bs))"

lemma split_room: "n \<ge> s \<Longrightarrow> n - s \<ge> 28 \<Longrightarrow> unat s + 28 \<le> unat (n :: u32)"
  by (simp add: word_le_nat_alt unat_sub_u32)

lemma kmalloc_loop_correct:
  "heap_rep h (xs @ ys) \<Longrightarrow> layout (xs @ ys) \<Longrightarrow> seg (hdr h) (last_addr 0 xs) p ys 0 \<Longrightarrow>
    (case take_first s ys of
       None \<Rightarrow> kmalloc_loop s p old h
         = Some (Exhausted (if ys = [] then old else Some (last_addr 0 ys)))
     | Some (ptr, zs) \<Rightarrow> \<exists>h'. kmalloc_loop s p old h = Some (Found ptr h') \<and> heap_rep h' (xs @ zs))"
proof (induction ys arbitrary: xs p old)
  case Nil
  then show ?case by (simp add: kmalloc_loop.simps)
next
  case (Cons b ys)
  obtain a n u where b: "b = (a, n, u)" by (cases b)
  with Cons.prems(3) have p: "p = a" "a \<noteq> 0" "b_size (hdr h a) = n"
    and rest: "seg (hdr h) a (b_next (hdr h a)) ys 0" by auto
  show ?case
  proof (cases "n \<ge> s")
    case False
    have "kmalloc_loop s p old h = kmalloc_loop s (b_next (hdr h a)) (Some a) h"
      using p False by (simp add: kmalloc_loop.simps [of s a])
    moreover have "heap_rep h ((xs @ [b]) @ ys)" "layout ((xs @ [b]) @ ys)"
      "seg (hdr h) (last_addr 0 (xs @ [b])) (b_next (hdr h a)) ys 0"
      using Cons.prems rest b by simp_all
    note Cons.IH [OF this, of "Some a"]
    ultimately show ?thesis using b False last_addr_any [of ys 0 a]
      by (auto split: option.splits)
  next
    case True
    show ?thesis
    proof (cases "n - s \<ge> 28")
      case split: True
      with True have room: "unat s + 28 \<le> unat n" by (rule split_room)
      let ?h = "resize_block a s h"
      have "heap_rep ?h (xs @ (a, s, u) # (a + 24 + ucast s, n - (s + 24), 0) # ys)"
        using Cons.prems(1,2) room unfolding b by (intro heap_rep_split) simp_all
      moreover have "layout (xs @ (a, s, u) # (a + 24 + ucast s, n - (s + 24), 0) # ys)"
        using Cons.prems(2) room unfolding b by (intro layout_split) simp_all
      ultimately show ?thesis using heap_rep_use [of ?h xs a s u _ 1] p True split b
        by (simp add: kmalloc_loop.simps [of s a] Let_def)
    next
      case no_split: False
      have "heap_rep (upd a (\<lambda>b. b\<lparr>b_in_use := 1\<rparr>) h) (xs @ (a, n, 1) # ys)"
        using Cons.prems(1,2) unfolding b by (rule heap_rep_use)
      then show ?thesis using p True no_split b
        by (simp add: kmalloc_loop.simps [of s a] Let_def)
    qed
  qed
qed

text \<open>Every block of a list lies inside a block of the other.\<close>

definition inside :: "blk list \<Rightarrow> blk list \<Rightarrow> bool" where
  "inside cs bs \<longleftrightarrow> (\<forall>c \<in> set cs. \<exists>b \<in> set bs. lo b \<le> lo c \<and> hi c \<le> hi b)"

lemma inside_refl: "inside bs bs"
  by (auto simp: inside_def)

lemma inside_Cons: "inside cs bs \<Longrightarrow> inside (b # cs) (b # bs)"
  by (auto simp: inside_def)

lemma inside_one: "lo b \<le> lo c \<Longrightarrow> hi c \<le> hi b \<Longrightarrow> inside (c # bs) (b # bs)"
  by (auto simp: inside_def)

lemma inside_two:
  "lo b \<le> lo c \<Longrightarrow> hi c \<le> hi b \<Longrightarrow> lo b \<le> lo d \<Longrightarrow> hi d \<le> hi b \<Longrightarrow>
    inside (c # d # bs) (b # bs)"
  by (auto simp: inside_def)

lemma inside_apart:
  "inside cs bs \<Longrightarrow> \<forall>b \<in> set bs. apart x b \<Longrightarrow> \<forall>c \<in> set cs. apart x c"
  by (fastforce simp: inside_def apart_def)

lemma heap_bytes_simps [simp]:
  "heap_bytes [] = 0"
  "heap_bytes (b # bs) = (hi b - lo b) + heap_bytes bs"
  "heap_bytes (xs @ ys) = heap_bytes xs + heap_bytes ys"
  by (simp_all add: heap_bytes_def)

lemma take_first_inside:
  "layout bs \<Longrightarrow> take_first s bs = Some (p, cs) \<Longrightarrow> inside cs bs"
proof (induction s bs arbitrary: p cs rule: take_first.induct)
  case (2 s a n u bs)
  then show ?case
  proof (cases "n \<ge> s \<and> n - s \<ge> 28")
    case True
    then have room: "unat s + 28 \<le> unat n" using split_room by blast
    moreover have "unat (a + 24 + ucast s) = unat a + 24 + unat s"
      using "2.prems"(1) room by (intro unat_behind) simp
    ultimately show ?thesis
      using "2.prems"(2) True by (auto simp: unat_remainder intro!: inside_two)
  next
    case False
    with 2 show ?thesis
      by (auto simp: inside_Cons split: if_splits intro!: inside_one)
  qed
qed simp

lemma take_first_layout:
  "layout bs \<Longrightarrow> take_first s bs = Some (p, cs) \<Longrightarrow> layout cs"
proof (induction s bs arbitrary: p cs rule: take_first.induct)
  case (2 s a n u bs)
  show ?case
  proof (cases "n \<ge> s")
    case False
    with "2.prems"(2) obtain ds where ds: "take_first s bs = Some (p, ds)" "cs = (a, n, u) # ds"
      by auto
    with False 2 have "layout ds" by auto
    moreover have "\<forall>c \<in> set ds. apart (a, n, u) c"
      using "2.prems"(1) take_first_inside [OF _ ds(1)] inside_apart by simp
    ultimately show ?thesis using ds(2) "2.prems"(1) by simp
  next
    case True
    then show ?thesis
      using "2.prems" layout_split [of "[]" a n u bs s 1 0] split_room [OF True]
      by (auto split: if_splits simp: apart_def)
  qed
qed simp

lemma take_first_bytes:
  "layout bs \<Longrightarrow> take_first s bs = Some (p, cs) \<Longrightarrow> heap_bytes cs = heap_bytes bs"
proof (induction s bs arbitrary: p cs rule: take_first.induct)
  case (2 s a n u bs)
  then show ?case
  proof (cases "n \<ge> s \<and> n - s \<ge> 28")
    case True
    then have "unat s + 28 \<le> unat n" using split_room by blast
    with True "2.prems"(2) show ?thesis by (auto simp: unat_remainder)
  next
    case False
    with 2 show ?thesis by (auto split: if_splits)
  qed
qed simp

text \<open>The block handed out: it is marked, large enough, and found again by the next search.\<close>

lemma take_first_block:
  "take_first s bs = Some (p, cs) \<Longrightarrow> \<exists>a n. p = a + 24 \<and> (a, n, 1) \<in> set cs \<and> s \<le> n"
  by (induction s bs arbitrary: p cs rule: take_first.induct) (fastforce split: if_splits)+

lemma take_first_again: "take_first s bs = Some (p, cs) \<Longrightarrow> take_first s cs = Some (p, cs)"
proof (induction s bs arbitrary: p cs rule: take_first.induct)
  case (2 s a n u bs)
  show ?case
  proof (cases "n \<ge> s")
    case True
    with "2.prems" show ?thesis by (cases "n - s \<ge> 28") auto
  next
    case False
    with "2.prems" obtain ds where "take_first s bs = Some (p, ds)" "cs = (a, n, u) # ds" by auto
    with "2.IH" False show ?thesis by auto
  qed
qed simp

section \<open>Growing by a page\<close>

definition page_blk :: "u64 \<Rightarrow> blk" where "page_blk a = (a, 4072, 0)"

lemma page_blk_simps [simp]: "lo (page_blk a) = unat a" "hi (page_blk a) = unat a + 4096"
  by (simp_all add: page_blk_def)

text \<open>The blocks a new page at \<open>a\<close> contributes.\<close>

definition grown :: "u32 \<Rightarrow> u64 \<Rightarrow> blk list" where
  "grown s a = (if 4072 - s \<ge> 28 then [(a, s, 1), (a + 24 + ucast s, 4072 - (s + 24), 0)]
     else [(a, 4072, 1)])"

lemma grown_take_first:
  "s \<le> 4072 \<Longrightarrow> take_first s [page_blk a] = Some (a + 24, grown s a)"
  by (simp add: page_blk_def grown_def)

text \<open>The blocks fit each other and leave the pages still available alone.\<close>

definition heap_fits :: "u64 set \<Rightarrow> blk list \<Rightarrow> bool" where
  "heap_fits av bs \<longleftrightarrow> bs \<noteq> [] \<and> layout bs \<and> (\<forall>a \<in> av. \<forall>b \<in> set bs. apart (page_blk a) b)"

lemma heap_fits_inside:
  "heap_fits av bs \<Longrightarrow> inside cs bs \<Longrightarrow> layout cs \<Longrightarrow> cs \<noteq> [] \<Longrightarrow> heap_fits av cs"
  using inside_apart by (auto simp: heap_fits_def)

lemma heap_fits_subset: "heap_fits av bs \<Longrightarrow> aw \<subseteq> av \<Longrightarrow> heap_fits aw bs"
  by (auto simp: heap_fits_def)

lemma take_first_fits:
  assumes "heap_fits av bs" and "take_first s bs = Some (p, cs)"
  shows "heap_fits av cs"
proof -
  have "layout bs" using assms(1) by (simp add: heap_fits_def)
  moreover have "cs \<noteq> []" using take_first_block [OF assms(2)] by auto
  ultimately show ?thesis using assms heap_fits_inside take_first_inside take_first_layout by blast
qed

lemma take_first_append:
  "take_first s bs = None \<Longrightarrow>
    take_first s (bs @ cs) = map_option (\<lambda>(p, ds). (p, bs @ ds)) (take_first s cs)"
  by (induction s bs rule: take_first.induct)
    (auto split: if_splits simp: option.map_comp option.map_ident comp_def case_prod_unfold)

text \<open>Linking the page behind the last block; its \<open>in_use\<close> byte is whatever was there.\<close>

definition link_page :: "u64 \<Rightarrow> u64 \<Rightarrow> heap \<Rightarrow> heap" where
  "link_page old a h =
     upd a (\<lambda>b. b\<lparr>b_size := 4072\<rparr>) (upd a (\<lambda>b. b\<lparr>b_next := 0\<rparr>)
       (upd a (\<lambda>b. b\<lparr>b_prev := old\<rparr>) (upd old (\<lambda>b. b\<lparr>b_next := a\<rparr>) h)))"

lemma heap_rep_link:
  assumes "heap_rep h bs" and "layout (bs @ [(a, 4072, g)])" and "bs \<noteq> []"
    and "g = b_in_use (hdr h a)"
  shows "heap_rep (link_page (last_addr 0 bs) a h) (bs @ [(a, 4072, g)])"
proof -
  obtain xs l n u where bs: "bs = xs @ [(l, n, u)]"
    using assms(3) by (metis append_butlast_last_id prod_cases3)
  have "distinct (map fst (bs @ [(a, 4072, g)]))" by (rule layout_distinct [OF assms(2)])
  moreover have "a \<noteq> 0" using assms(2) by (auto simp: layout_append)
  ultimately show ?thesis using assms(1,4) unfolding bs
    by (auto simp: heap_rep_def link_page_def upd_def seg_append seg_frame)
qed

lemma kmalloc_grow_correct:
  assumes "heap_rep h bs" and "heap_fits av bs" and "a \<in> av" and "a \<noteq> 0"
    and "unat a + 4096 \<le> 4294967296" and "alloc s = Inr (a, t)" and "sz \<le> 4072"
  shows "\<exists>h'. kmalloc_grow alloc sz (Some (last_addr 0 bs)) (h, s) = Inr (a + 24, h', t)
    \<and> heap_rep h' (bs @ grown sz a)"
proof -
  define g where "g = b_in_use (hdr h a)"
  let ?l = "link_page (last_addr 0 bs) a h"
  have "0 < unat a" using assms(4) by (simp add: unat_gt_0)
  then have lay: "layout (bs @ [(a, 4072, v)])" for v
    using assms(2,3,5) by (fastforce simp: heap_fits_def layout_append apart_def)
  have rep: "heap_rep ?l (bs @ [(a, 4072, g)])"
    using assms(1,2) lay g_def by (intro heap_rep_link) (simp_all add: heap_fits_def)
  have bsz: "b_size (hdr ?l a) = 4072" by (simp add: link_page_def upd_def)
  let ?r = "if 4072 - sz \<ge> 28 then resize_block a sz ?l else ?l"
  have "kmalloc_grow alloc sz (Some (last_addr 0 bs)) (h, s)
      = Inr (a + 24, upd a (\<lambda>b. b\<lparr>b_in_use := 1\<rparr>) ?r, t)"
    using assms(4,6) bsz by (simp add: kmalloc_grow_def Let_def flip: link_page_def)
  moreover have "heap_rep (upd a (\<lambda>b. b\<lparr>b_in_use := 1\<rparr>) ?r) (bs @ grown sz a)"
  proof (cases "4072 - sz \<ge> 28")
    case True
    with assms(7) have "unat sz + 28 \<le> unat (4072 :: u32)" by (rule split_room)
    then have room: "unat sz + 24 \<le> unat (4072 :: u32)" by simp
    from heap_rep_split [OF rep lay room] layout_split [OF lay room, of g 0] True
    show ?thesis by (simp add: grown_def heap_rep_use)
  next
    case False
    then show ?thesis using heap_rep_use [OF rep lay] by (simp add: grown_def)
  qed
  ultimately show ?thesis by blast
qed

text \<open>What one call of \<open>kmalloc\<close> does, on the abstract heap and the supply of pages.\<close>

definition kmalloc_spec ::
  "u32 \<Rightarrow> blk list \<Rightarrow> u64 set \<Rightarrow> u64 \<Rightarrow> blk list \<Rightarrow> u64 set \<Rightarrow> bool" where
  "kmalloc_spec sz bs av ptr cs aw \<longleftrightarrow>
     (if 4072 < sz then ptr = 0 \<and> cs = bs \<and> aw = av
      else case take_first sz bs of
        Some (p, ds) \<Rightarrow> ptr = p \<and> cs = ds \<and> aw = av
      | None \<Rightarrow>
          if av = {} then ptr = 0 \<and> cs = bs \<and> aw = av
          else \<exists>a \<in> av. aw = av - {a} \<and>
            (if a = 0 then ptr = 0 \<and> cs = bs else ptr = a + 24 \<and> cs = bs @ grown sz a))"

context page_source begin

lemma fits_new_page:
  assumes "ok s" and "heap_fits (avail s) bs" and "a \<in> avail s" and "avail t = avail s - {a}"
    and "a \<noteq> 0" and "unat a + 4096 \<le> 4294967296"
  shows "heap_fits (avail t) (bs @ [page_blk a])"
proof -
  have "apart (page_blk c) (page_blk a)" if "c \<in> avail s" "c \<noteq> a" for c
    using avail_disjoint [OF assms(1) that(1) assms(3) that(2)] by (auto simp: apart_def)
  moreover have "apart b (page_blk a)" if "b \<in> set bs" for b
    using that assms(2,3) by (auto simp: heap_fits_def apart_sym [of b])
  ultimately show ?thesis
    using assms by (auto simp: heap_fits_def layout_append unat_gt_0)
qed

lemma kmalloc_on_correct:
  assumes "ok s" and "heap_rep h bs" and "heap_fits (avail s) bs"
  shows "\<exists>ptr h' t cs. kmalloc_on alloc sz (h, s) = Some (Inr (ptr, h', t)) \<and> ok t
    \<and> heap_rep h' cs \<and> heap_fits (avail t) cs \<and> kmalloc_spec sz bs (avail s) ptr cs (avail t)"
proof (cases "4072 < sz")
  case True
  with assms show ?thesis by (auto simp: kmalloc_on_def kmalloc_spec_def)
next
  case False
  then have sz: "sz \<le> 4072" by simp
  have bs: "bs \<noteq> []" "layout bs" using assms(3) by (auto simp: heap_fits_def)
  note loop = kmalloc_loop_correct [of h "[]" bs "head h" sz None, simplified, OF assms(2) bs(2)]
  have seg0: "seg (hdr h) 0 (head h) bs 0" using assms(2) by (simp add: heap_rep_def)
  show ?thesis
  proof (cases "take_first sz bs")
    case (Some r)
    obtain p cs where r: "r = (p, cs)" by (cases r)
    with Some loop [OF seg0] obtain h' where "kmalloc_loop sz (head h) None h = Some (Found p h')"
      "heap_rep h' cs" by auto
    with Some r False assms(1) take_first_fits [OF assms(3)] show ?thesis
      by (auto simp: kmalloc_on_def kmalloc_spec_def)
  next
    case None
    with loop [OF seg0] bs have run: "kmalloc_on alloc sz (h, s)
        = Some (kmalloc_grow alloc sz (Some (last_addr 0 bs)) (h, s))"
      using False by (simp add: kmalloc_on_def)
    show ?thesis
      using assms(1)
    proof (cases rule: alloc_cases)
      case none
      then show ?thesis using run None False assms
        by (auto simp: kmalloc_grow_def kmalloc_spec_def)
    next
      case (page a t)
      show ?thesis
      proof (cases "a = 0")
        case True
        then show ?thesis using run None False assms page heap_fits_subset [OF assms(3), of "avail t"]
          by (auto simp: kmalloc_grow_def kmalloc_spec_def)
      next
        case nonzero: False
        obtain i where "i < 1048576" "a = page_addr i" using avail_pages [OF assms(1) page(2)] by blast
        then have top: "unat a + 4096 \<le> 4294967296" by (simp add: unat_page_addr)
        from kmalloc_grow_correct [where alloc = alloc, OF assms(2,3) page(2) nonzero top page(1) sz]
        obtain h' where h': "kmalloc_grow alloc sz (Some (last_addr 0 bs)) (h, s) = Inr (a + 24, h', t)"
          "heap_rep h' (bs @ grown sz a)" by blast
        have fits: "heap_fits (avail t) (bs @ [page_blk a])"
          using assms(1,3) page nonzero top by (intro fits_new_page)
        have "take_first sz (bs @ [page_blk a]) = Some (a + 24, bs @ grown sz a)"
          using take_first_append [OF None] grown_take_first [OF sz] by simp
        with fits have "heap_fits (avail t) (bs @ grown sz a)" by (rule take_first_fits)
        with h' run None False page nonzero show ?thesis by (auto simp: kmalloc_spec_def)
      qed
    qed
  qed
qed

end

section \<open>The heap on the page allocator\<close>

definition heap_inv :: "heap \<times> pmm \<Rightarrow> blk list \<Rightarrow> bool" where
  "heap_inv hp bs \<longleftrightarrow>
     pmm_ok (snd hp) \<and> heap_rep (fst hp) bs \<and> heap_fits (page_avail (snd hp)) bs"

lemma kmalloc_runs:
  assumes "heap_inv (h, p) bs"
  shows "\<exists>ptr h' q cs. kmalloc sz (h, p) = Some (Inr (ptr, h', q)) \<and> heap_inv (h', q) cs
    \<and> kmalloc_spec sz bs (page_avail p) ptr cs (page_avail q)"
  using assms pages.kmalloc_on_correct [of p h bs sz] by (simp add: heap_inv_def kmalloc_def)

text \<open>The freshly initialised heap: one free block on the first page allocated.\<close>

lemma heap_init_correct:
  assumes "pmm_ok p" and "page_avail p \<noteq> {}"
  shows "\<exists>a h' q. heap_init (h, p) = Inr (h', q) \<and> a \<in> page_avail p \<and> head h' = a
    \<and> page_avail q = page_avail p - {a} \<and> pmm_ok q
    \<and> (a \<noteq> 0 \<longrightarrow> heap_inv (h', q) [(a, 4072, 0)])"
  using assms(1)
proof (cases rule: pages.alloc_cases)
  case (page a q)
  let ?h = "h\<lparr>head := a, hdr := (hdr h)(a := (hdr h a)\<lparr>b_size := 4072, b_in_use := 0,
      b_next := 0, b_prev := 0\<rparr>)\<rparr>"
  have run: "heap_init (h, p) = Inr (?h, q)"
    using page by (simp add: heap_init_def heap_init_on_def upd_def Let_def)
  have "heap_inv (?h, q) [(a, 4072, 0)]" if "a \<noteq> 0"
  proof -
    obtain i where "i < 1048576" "a = page_addr i"
      using pages.avail_pages [OF assms(1) page(2)] by blast
    then have "unat a + 4096 \<le> 4294967296" by (simp add: unat_page_addr)
    moreover have "apart (page_blk c) (a, 4072, 0)" if "c \<in> page_avail q" for c
    proof -
      from that page(3) have "c \<in> page_avail p" "c \<noteq> a" by simp_all
      from pages.avail_disjoint [OF assms(1) this(1) page(2) this(2)] show ?thesis
        by (auto simp: apart_def)
    qed
    ultimately show ?thesis
      using page that by (simp add: heap_inv_def heap_rep_def heap_fits_def unat_gt_0)
  qed
  with run page show ?thesis by auto
qed (use assms in simp)

lemma heap_init_head:
  "heap_init (h, p) = Inr (h', q') \<Longrightarrow> pmm_alloc p = Inr (a, q) \<Longrightarrow> head h' = a"
  by (auto simp: heap_init_def heap_init_on_def Let_def upd_def)

text \<open>
  from a well-formed heap \<open>kmalloc\<close> always returns (the list walk ends), refuses sizes above
  4072 with the null pointer, and otherwise behaves as first fit by size on the abstract block
  list, taking one page from the page allocator when no block is large enough; the block list,
  the page allocator and their separation stay well formed.
\<close>

theorem kmalloc_refines_first_fit:
  assumes "heap_inv (h, p) bs"
  shows "\<exists>ptr h' q cs. kmalloc sz (h, p) = Some (Inr (ptr, h', q)) \<and> heap_inv (h', q) cs
    \<and> (if 4072 < sz then ptr = 0 \<and> cs = bs \<and> page_avail q = page_avail p
       else case take_first sz bs of
         Some (p', ds) \<Rightarrow> ptr = p' \<and> cs = ds \<and> page_avail q = page_avail p
       | None \<Rightarrow>
           if page_avail p = {} then ptr = 0 \<and> cs = bs \<and> page_avail q = page_avail p
           else \<exists>a \<in> page_avail p. page_avail q = page_avail p - {a} \<and>
             (if a = 0 then ptr = 0 \<and> cs = bs else ptr = a + 24 \<and> cs = bs @ grown sz a))"
  using kmalloc_runs [OF assms, of sz] unfolding kmalloc_spec_def .

text \<open>A sample heap: one free block of a page, and one more page available.\<close>

definition sample_heap :: heap where
  "sample_heap = \<lparr>hdr = (\<lambda>_. \<lparr>b_size = 4072, b_in_use = 0, b_next = 0, b_prev = 0\<rparr>), head = 4096\<rparr>"

definition sample_supply :: pmm where
  "sample_supply = \<lparr>bitmap = (\<lambda>_. 0)(0 := 3), pages_num = 3, free_pages = 1\<rparr>"

lemma sample_supply_view: "page_view sample_supply = [False, False, True]"
  by (simp add: page_view_def sample_supply_def page_bit_def upt_conv_Cons)

lemma sample_supply_avail: "page_avail sample_supply = {8192}"
proof -
  have "{i. i < unat (pages_num sample_supply) \<and> page_view sample_supply ! i} = {2}"
  proof -
    have "unat (pages_num sample_supply) = 3" by (simp add: sample_supply_def)
    moreover have "i < 3 \<and> [False, False, True] ! i \<longleftrightarrow> i = 2" for i
      by (auto simp: numeral_3_eq_3 numeral_2_eq_2 less_Suc_eq)
    ultimately show ?thesis by (simp add: sample_supply_view)
  qed
  then show ?thesis unfolding page_avail_def by (simp add: page_addr_def)
qed

lemma sample_heap_inv: "heap_inv (sample_heap, sample_supply) [(4096, 4072, 0)]"
proof -
  have "pmm_ok sample_supply"
    by (simp add: pmm_ok_def sample_supply_view) (simp add: sample_supply_def)
  then show ?thesis
    by (simp add: heap_inv_def heap_rep_def sample_heap_def heap_fits_def sample_supply_avail
        apart_def)
qed

theorem kmalloc_refines_first_fit_witness:
  "\<exists>h' q. kmalloc 100 (sample_heap, sample_supply) = Some (Inr (4120, h', q))
    \<and> heap_inv (h', q) [(4096, 100, 1), (4220, 3948, 0)]"
  using kmalloc_refines_first_fit [OF sample_heap_inv, of 100] by auto

lemma heap_bytes_grown: "s \<le> 4072 \<Longrightarrow> heap_bytes (grown s a) = 4096"
proof -
  assume s: "s \<le> 4072"
  have "unat s + unat (4072 - (s + 24)) = 4048" if "4072 - s \<ge> 28"
    using split_room [OF s that] by (subst unat_remainder) simp_all
  then show ?thesis by (auto simp: grown_def)
qed

lemma grown_block: "s \<le> 4072 \<Longrightarrow> \<exists>n. (a, n, 1) \<in> set (grown s a) \<and> s \<le> n"
  by (auto simp: grown_def)

lemma kmalloc_spec_room:
  assumes "kmalloc_spec sz bs av ptr cs aw" and "ptr \<noteq> 0" and "layout bs"
  shows "(\<exists>a n. ptr = a + 24 \<and> (a, n, 1) \<in> set cs \<and> sz \<le> n)
    \<and> heap_bytes cs = heap_bytes bs + (if aw = av then 0 else 4096)"
proof (cases "take_first sz bs")
  case None
  with assms(1,2) obtain a where a: "sz \<le> 4072" "a \<in> av" "aw = av - {a}" "ptr = a + 24"
    "cs = bs @ grown sz a" by (auto simp: kmalloc_spec_def not_less split: if_splits)
  then have "aw \<noteq> av" by blast
  with a grown_block [OF a(1), of a] heap_bytes_grown [OF a(1), of a] show ?thesis by auto
next
  case (Some r)
  with assms(1,2) have "take_first sz bs = Some (ptr, cs)" "aw = av"
    by (auto simp: kmalloc_spec_def split: if_splits)
  with take_first_block take_first_bytes [OF assms(3)] show ?thesis by fastforce
qed

text \<open>
  C36: a non-null result of \<open>kmalloc\<close> points behind the header of a block of the well-formed new
  heap that is marked as in use and has room for the request; no byte is lost: the blocks cover
  what they covered before, plus at most one new page.
\<close>

theorem kmalloc_result_has_room:
  assumes "heap_inv (h, p) bs" and "kmalloc sz (h, p) = Some (Inr (ptr, h', q))" and "ptr \<noteq> 0"
  shows "\<exists>cs a n. heap_inv (h', q) cs \<and> ptr = a + 24 \<and> (a, n, 1) \<in> set cs \<and> sz \<le> n
    \<and> heap_bytes cs = heap_bytes bs + (if page_avail q = page_avail p then 0 else 4096)"
proof -
  from kmalloc_runs [OF assms(1), of sz] assms(2) obtain cs where
    cs: "heap_inv (h', q) cs" "kmalloc_spec sz bs (page_avail p) ptr cs (page_avail q)" by auto
  have "layout bs" using assms(1) by (simp add: heap_inv_def heap_fits_def)
  from kmalloc_spec_room [OF cs(2) assms(3) this] cs(1) show ?thesis by blast
qed

lemma sample_kmalloc:
  "\<exists>h' q. kmalloc 100 (sample_heap, sample_supply) = Some (Inr (4120, h', q))
    \<and> heap_inv (h', q) [(4096, 100, 1), (4220, 3948, 0)]"
  using kmalloc_runs [OF sample_heap_inv, of 100] by (auto simp: kmalloc_spec_def)

theorem kmalloc_result_has_room_witness:
  "\<exists>h' q cs a n. kmalloc 100 (sample_heap, sample_supply) = Some (Inr (4120, h', q))
    \<and> heap_inv (h', q) cs \<and> 4120 = a + 24 \<and> (a, n, 1) \<in> set cs \<and> 100 \<le> n"
proof -
  obtain h' q where "kmalloc 100 (sample_heap, sample_supply) = Some (Inr (4120, h', q))"
    using sample_kmalloc by blast
  with kmalloc_result_has_room [OF sample_heap_inv this] show ?thesis by fastforce
qed

text \<open>
  the search ignores the \<open>in_use\<close> byte, so a second \<open>kmalloc\<close> of the same size right after a
  successful one hands out the same block again: two live allocations share their memory.
\<close>

theorem kmalloc_twice_same_pointer:
  assumes "heap_inv (h, p) bs" and "kmalloc sz (h, p) = Some (Inr (ptr, h', q))" and "ptr \<noteq> 0"
  shows "\<exists>h'' r. kmalloc sz (h', q) = Some (Inr (ptr, h'', r))"
proof -
  from kmalloc_runs [OF assms(1), of sz] assms(2) obtain cs where
    cs: "heap_inv (h', q) cs" "kmalloc_spec sz bs (page_avail p) ptr cs (page_avail q)" by auto
  then have sz: "sz \<le> 4072" using assms(3)
    by (cases "4072 < sz") (auto simp: kmalloc_spec_def)
  have "take_first sz cs = Some (ptr, cs)"
  proof (cases "take_first sz bs")
    case None
    with cs(2) sz assms(3) obtain a where a: "ptr = a + 24" "cs = bs @ grown sz a"
      by (auto simp: kmalloc_spec_def split: if_splits)
    have "take_first sz (grown sz a) = Some (a + 24, grown sz a)"
      using take_first_again [OF grown_take_first [OF sz]] .
    with None a show ?thesis by (simp add: take_first_append)
  next
    case (Some r)
    with cs(2) leD [OF sz] have "take_first sz bs = Some (ptr, cs)"
      by (auto simp: kmalloc_spec_def)
    then show ?thesis by (rule take_first_again)
  qed
  with kmalloc_runs [OF cs(1), of sz] leD [OF sz] show ?thesis by (auto simp: kmalloc_spec_def)
qed

theorem kmalloc_twice_same_pointer_witness:
  "\<exists>h' q h'' r. kmalloc 100 (sample_heap, sample_supply) = Some (Inr (4120, h', q))
    \<and> kmalloc 100 (h', q) = Some (Inr (4120, h'', r))"
proof -
  obtain h' q where "kmalloc 100 (sample_heap, sample_supply) = Some (Inr (4120, h', q))"
    using sample_kmalloc by blast
  with kmalloc_twice_same_pointer [OF sample_heap_inv this] show ?thesis by auto
qed

text \<open>
  on a machine whose page 0 is free at boot (page 0 is then the first page handed out), the
  heap's first block lies at address 0, its list is empty to \<open>kmalloc\<close>, and every allocation that
  gets a page goes on to write through the uninitialised \<open>old_block\<close>.
\<close>

theorem heap_init_page_zero:
  assumes "pmm_ok p" and "0 < pages_num p" and "page_view p ! 0" and "1 < free_pages p"
    and "sz \<le> 4072"
  shows "\<exists>h' q. heap_init (h, p) = Inr (h', q) \<and> head h' = 0
    \<and> kmalloc sz (h', q) = Some (Inl Uninitialised)"
proof -
  obtain q where q: "pmm_alloc p = Inr (0, q)" using pmm_alloc_zero [OF assms(1-3)] by blast
  have card: "1 < card (page_avail p)"
    using assms(4) by (simp add: card_page_avail [OF assms(1)] word_less_nat_alt)
  then have "page_avail p \<noteq> {}" by (metis card.empty not_one_less_zero)
  from heap_init_correct [OF assms(1) this, of h] obtain a h' q' where
    init: "heap_init (h, p) = Inr (h', q')" "a \<in> page_avail p" "head h' = a"
      "page_avail q' = page_avail p - {a}" "pmm_ok q'" by blast
  have a: "a = 0" using heap_init_head [OF init(1) q] init(3) by simp
  have "card (page_avail q') \<noteq> 0"
    using card pages.avail_finite [OF assms(1)] init(2) unfolding init(4)
    by (subst card_Diff_singleton) simp_all
  then have "page_avail q' \<noteq> {}" by auto
  with pages.alloc_page [OF init(5)] init(4) a obtain b r where
    "pmm_alloc q' = Inr (b, r)" "b \<noteq> 0" by blast
  then have "kmalloc sz (h', q') = Some (Inl Uninitialised)"
    using init(3) a leD [OF assms(5)]
    by (simp add: kmalloc_def kmalloc_on_def kmalloc_loop.simps kmalloc_grow_def)
  with init a show ?thesis by blast
qed

theorem heap_init_page_zero_witness:
  "\<exists>h' q. heap_init (sample_heap, pmm_boot\<lparr>pages_num := 2, free_pages := 2\<rparr>) = Inr (h', q)
    \<and> head h' = 0 \<and> kmalloc 16 (h', q) = Some (Inl Uninitialised)"
proof -
  let ?p = "pmm_boot\<lparr>pages_num := 2, free_pages := 2\<rparr>"
  have view: "page_view ?p = [True, True]"
    by (simp add: page_view_def pmm_boot_def page_bit_def upt_conv_Cons)
  then have "pmm_ok ?p" by (simp add: pmm_ok_def)
  with view heap_init_page_zero [of ?p 16 sample_heap] show ?thesis by simp
qed

section \<open>Freeing\<close>

text \<open>The reference for \<open>kfree\<close>: merge with a free block directly before, then directly behind.\<close>

fun touches :: "blk \<Rightarrow> blk \<Rightarrow> bool" where
  "touches (c, k, v) (a, n, u) \<longleftrightarrow> c + 24 + ucast k = a"

fun is_free :: "blk \<Rightarrow> bool" where
  "is_free (a, n, u) \<longleftrightarrow> u = 0"

fun merged :: "blk \<Rightarrow> blk \<Rightarrow> blk" where
  "merged (c, k, v) (a, n, u) = (c, k + (n + 24), v)"

definition absorb_prev :: "blk list \<Rightarrow> blk \<Rightarrow> blk list \<times> blk" where
  "absorb_prev xs b =
     (if xs \<noteq> [] \<and> touches (last xs) b \<and> is_free (last xs) then (butlast xs, merged (last xs) b)
      else (xs, b))"

fun absorb_next :: "blk \<Rightarrow> blk list \<Rightarrow> blk \<times> blk list" where
  "absorb_next b [] = (b, [])"
| "absorb_next b (c # ys) =
     (if touches b c \<and> is_free c then (merged b c, ys) else (b, c # ys))"

fun mark_free :: "blk \<Rightarrow> blk" where
  "mark_free (a, n, u) = (a, n, 0)"

definition free_block :: "blk list \<Rightarrow> blk \<Rightarrow> blk list \<Rightarrow> blk list" where
  "free_block xs b ys =
     (let (xs, b) = absorb_prev xs b; (b, ys) = absorb_next b ys in xs @ mark_free b # ys)"

lemma merge_size:
  assumes "layout (xs @ (c, k, v) # (a, n, u) # ys)" and "c + 24 + ucast k = a"
  shows "unat a = unat c + 24 + unat k" and "unat (k + (n + 24)) = unat k + (unat n + 24)"
proof -
  have "unat c + 24 + unat k \<le> 4294967296" "unat a + 24 + unat n \<le> 4294967296" "0 < unat c"
    using assms(1) by (simp_all add: layout_append)
  moreover from this show a: "unat a = unat c + 24 + unat k"
    using unat_behind [of c k] assms(2) by simp
  ultimately show "unat (k + (n + 24)) = unat k + (unat n + 24)"
    by (simp add: unat_word_ariths)
qed

lemma apart_merged:
  assumes "unat a = unat c + 24 + unat k" and "unat (k + (n + 24)) = unat k + (unat n + 24)"
    and "lo x < hi x"
  shows "apart x (c, k + (n + 24), w) \<longleftrightarrow> apart x (c, k, v) \<and> apart x (a, n, u)"
  using assms by (auto simp: apart_def)

lemma lo_less_hi: "lo b < hi b"
  by (simp add: lo_def hi_def)

lemma layout_merged:
  assumes "layout (xs @ (c, k, v) # (a, n, u) # ys)" and "c + 24 + ucast k = a"
  shows "layout (xs @ (c, k + (n + 24), w) # ys)"
proof -
  note right = apart_merged [OF merge_size [OF assms] lo_less_hi, of _ w v u]
  have left: "apart (c, k + (n + 24), w) x \<longleftrightarrow> apart (c, k, v) x \<and> apart (a, n, u) x" for x
    using right [of x] by (simp only: apart_sym [of _ x])
  have "layout xs" "layout ys" "0 < unat c" "hi (c, k + (n + 24), w) \<le> 4294967296"
    using assms(1) merge_size [OF assms] by (simp_all add: layout_append)
  with assms(1) show ?thesis by (simp add: layout_append right left)
qed

lemma heap_fits_merged:
  assumes "heap_fits av (xs @ (c, k, v) # (a, n, u) # ys)" and "c + 24 + ucast k = a"
  shows "heap_fits av (xs @ (c, k + (n + 24), w) # ys)"
proof -
  have lay: "layout (xs @ (c, k, v) # (a, n, u) # ys)" using assms(1) by (simp add: heap_fits_def)
  show ?thesis
    using assms(1) layout_merged [OF lay assms(2)]
      apart_merged [OF merge_size [OF lay assms(2)] lo_less_hi, of "page_blk _" w v u]
    by (auto simp: heap_fits_def)
qed

fun first_addr :: "blk list \<Rightarrow> u64" where
  "first_addr [] = 0"
| "first_addr (b # bs) = fst b"

lemma heap_rep_next:
  "heap_rep h (xs @ (a, n, u) # ys) \<Longrightarrow>
    b_next (hdr h a) = first_addr ys \<and> b_size (hdr h a) = n \<and> b_in_use (hdr h a) = u
    \<and> b_prev (hdr h a) = last_addr 0 xs \<and> a \<noteq> 0"
  by (cases ys) (auto simp: heap_rep_def seg_append)

text \<open>The list surgery both merges perform: the header at \<open>a\<close> disappears into the one at \<open>c\<close>.\<close>

definition unlink :: "u64 \<Rightarrow> u32 \<Rightarrow> u64 \<Rightarrow> heap \<Rightarrow> heap" where
  "unlink c m nxt h =
     (let h = upd c (\<lambda>b. b\<lparr>b_next := nxt\<rparr>) (upd c (\<lambda>b. b\<lparr>b_size := m\<rparr>) h)
      in if nxt \<noteq> 0 then upd nxt (\<lambda>b. b\<lparr>b_prev := c\<rparr>) h else h)"

lemma heap_rep_unlink:
  assumes "heap_rep h (xs @ (c, k, v) # (a, n, u) # ys)"
    and "layout (xs @ (c, k, v) # (a, n, u) # ys)"
  shows "heap_rep (unlink c m (first_addr ys) h) (xs @ (c, m, v) # ys)"
proof -
  have dist: "distinct (map fst (xs @ (c, k, v) # (a, n, u) # ys))"
    by (rule layout_distinct [OF assms(2)])
  show ?thesis
  proof (cases ys)
    case Nil
    then show ?thesis using assms(1) dist
      by (auto simp: heap_rep_def unlink_def upd_def Let_def seg_append seg_frame)
  next
    case (Cons y zs)
    obtain d l w where "y = (d, l, w)" by (cases y)
    with Cons show ?thesis using assms(1) dist
      by (auto simp: heap_rep_def unlink_def upd_def Let_def seg_append seg_frame)
  qed
qed

lemma merge_prev_unlink:
  assumes "b_prev (hdr h a) = c" and "b_next (hdr h a) = nxt" and "c \<noteq> a"
    and "c \<noteq> 0" and "c + 24 + ucast (b_size (hdr h c)) = a" and "b_in_use (hdr h c) = 0"
  shows "merge_prev a h = (c, unlink c (b_size (hdr h c) + (b_size (hdr h a) + 24)) nxt h)"
  using assms by (simp add: merge_prev_def unlink_def upd_def Let_def)

lemma merge_prev_correct:
  assumes "heap_rep h (xs @ b # ys)" and "layout (xs @ b # ys)"
    and "absorb_prev xs b = (xs', b')"
  shows "\<exists>h'. merge_prev (fst b) h = (fst b', h') \<and> heap_rep h' (xs' @ b' # ys)"
proof -
  obtain a n u where b: "b = (a, n, u)" by (cases b)
  note at = heap_rep_next [OF assms(1) [unfolded b]]
  show ?thesis
  proof (cases "xs = []")
    case True
    then have "merge_prev a h = (a, h)" using at by (simp add: merge_prev_def)
    moreover have "xs' = []" "b' = b" using True assms(3) by (auto simp: absorb_prev_def)
    ultimately show ?thesis using True assms(1) b by auto
  next
    case False
    then obtain zs c k v where xs: "xs = zs @ [(c, k, v)]"
      by (metis append_butlast_last_id prod_cases3)
    then have rep: "heap_rep h (zs @ (c, k, v) # (a, n, u) # ys)"
      and lay: "layout (zs @ (c, k, v) # (a, n, u) # ys)" using assms(1,2) b by simp_all
    note before = heap_rep_next [OF rep]
    have ca: "c \<noteq> a" using layout_distinct [OF lay] by simp
    show ?thesis
    proof (cases "touches (c, k, v) (a, n, u) \<and> is_free (c, k, v)")
      case True
      with at before ca xs have "merge_prev a h = (c, unlink c (k + (n + 24)) (first_addr ys) h)"
        by (subst merge_prev_unlink [of h a c "first_addr ys"]) simp_all
      with True xs b assms(3) heap_rep_unlink [OF rep lay] show ?thesis
        by (auto simp: absorb_prev_def)
    next
      case no_merge: False
      with at before xs have "merge_prev a h = (a, h)" by (auto simp: merge_prev_def)
      with no_merge xs b assms show ?thesis by (auto simp: absorb_prev_def)
    qed
  qed
qed

lemma merge_next_unlink:
  assumes "b_next (hdr h d) = nxt" and "d \<noteq> a"
    and "d \<noteq> 0" and "a + 24 + ucast (b_size (hdr h a)) = d" and "b_in_use (hdr h d) = 0"
  shows "merge_next d a h = unlink a (b_size (hdr h a) + (b_size (hdr h d) + 24)) nxt h"
  using assms by (simp add: merge_next_def unlink_def upd_def Let_def)

lemma merge_next_correct:
  assumes "heap_rep h (xs @ b # ys)" and "layout (xs @ b # ys)"
    and "absorb_next b ys = (b', ys')"
  shows "fst b' = fst b \<and> heap_rep (merge_next (first_addr ys) (fst b) h) (xs @ b' # ys')"
proof -
  obtain a n u where b: "b = (a, n, u)" by (cases b)
  note at = heap_rep_next [OF assms(1) [unfolded b]]
  show ?thesis
  proof (cases ys)
    case Nil
    with assms show ?thesis by (simp add: merge_next_def)
  next
    case (Cons y zs)
    obtain d l w where y: "y = (d, l, w)" by (cases y)
    have rep: "heap_rep h (xs @ (a, n, u) # (d, l, w) # zs)"
      and lay: "layout (xs @ (a, n, u) # (d, l, w) # zs)" using assms(1,2) b Cons y by simp_all
    have "heap_rep h ((xs @ [(a, n, u)]) @ (d, l, w) # zs)" using rep by simp
    note behind = heap_rep_next [OF this]
    have da: "d \<noteq> a" using layout_distinct [OF lay] by auto
    show ?thesis
    proof (cases "touches (a, n, u) (d, l, w) \<and> is_free (d, l, w)")
      case True
      with at behind da have "merge_next d a h = unlink a (n + (l + 24)) (first_addr zs) h"
        by (subst merge_next_unlink [of h d "first_addr zs"]) simp_all
      with True Cons y b assms(3) heap_rep_unlink [OF rep lay] show ?thesis by auto
    next
      case no_merge: False
      with at behind have "merge_next d a h = h" by (auto simp: merge_next_def)
      with no_merge Cons y b assms show ?thesis by auto
    qed
  qed
qed

text \<open>The abstract merges keep the layout, the pages and the number of bytes.\<close>

lemma absorb_prev_fits:
  assumes "heap_fits av (xs @ b # ys)" and "absorb_prev xs b = (xs', b')"
  shows "heap_fits av (xs' @ b' # ys) \<and> heap_bytes (xs' @ b' # ys) = heap_bytes (xs @ b # ys)"
proof (cases "xs \<noteq> [] \<and> touches (last xs) b \<and> is_free (last xs)")
  case True
  then obtain zs c k v where xs: "xs = zs @ [(c, k, v)]"
    by (metis append_butlast_last_id prod_cases3)
  obtain a n u where b: "b = (a, n, u)" by (cases b)
  have fits: "heap_fits av (zs @ (c, k, v) # (a, n, u) # ys)" using assms(1) xs b by simp
  then have lay: "layout (zs @ (c, k, v) # (a, n, u) # ys)" by (simp add: heap_fits_def)
  from True xs b have adj: "c + 24 + ucast k = a" by simp
  from merge_size [OF lay adj] heap_fits_merged [OF fits adj, of v] True xs b assms(2)
  show ?thesis by (auto simp: absorb_prev_def)
next
  case False
  with assms show ?thesis by (auto simp: absorb_prev_def)
qed

lemma absorb_next_fits:
  assumes "heap_fits av (xs @ b # ys)" and "absorb_next b ys = (b', ys')"
  shows "heap_fits av (xs @ b' # ys') \<and> heap_bytes (xs @ b' # ys') = heap_bytes (xs @ b # ys)"
proof (cases ys)
  case (Cons y zs)
  obtain a n u d l w where b: "b = (a, n, u)" and y: "y = (d, l, w)" by (cases b; cases y)
  show ?thesis
  proof (cases "touches b y \<and> is_free y")
    case True
    have fits: "heap_fits av (xs @ (a, n, u) # (d, l, w) # zs)" using assms(1) Cons b y by simp
    then have lay: "layout (xs @ (a, n, u) # (d, l, w) # zs)" by (simp add: heap_fits_def)
    from True b y have adj: "a + 24 + ucast n = d" by simp
    from merge_size [OF lay adj] heap_fits_merged [OF fits adj, of u] True Cons b y assms(2)
    show ?thesis by auto
  qed (use assms Cons in auto)
qed (use assms in auto)

lemma mark_free_fits:
  "heap_fits av (xs @ b # ys) \<Longrightarrow> heap_fits av (xs @ mark_free b # ys)
    \<and> heap_bytes (xs @ mark_free b # ys) = heap_bytes (xs @ b # ys)"
  by (cases b) (auto simp: heap_fits_def layout_append apart_def)

lemma kfree_correct:
  assumes "heap_rep h (xs @ (a, n, u) # ys)" and "heap_fits av (xs @ (a, n, u) # ys)"
  shows "heap_rep (kfree (a + 24) h) (free_block xs (a, n, u) ys)
    \<and> heap_fits av (free_block xs (a, n, u) ys)
    \<and> heap_bytes (free_block xs (a, n, u) ys) = heap_bytes (xs @ (a, n, u) # ys)"
proof -
  obtain xs' b1 where prev: "absorb_prev xs (a, n, u) = (xs', b1)" by (cases "absorb_prev xs (a, n, u)")
  obtain b2 ys' where nxt: "absorb_next b1 ys = (b2, ys')" by (cases "absorb_next b1 ys")
  have free: "free_block xs (a, n, u) ys = xs' @ mark_free b2 # ys'"
    by (simp add: free_block_def prev nxt)
  note fits1 = absorb_prev_fits [OF assms(2) prev]
  note fits2 = absorb_next_fits [OF conjunct1 [OF fits1] nxt]
  have lay: "layout (xs @ (a, n, u) # ys)" "layout (xs' @ b1 # ys)" "layout (xs' @ b2 # ys')"
    using assms(2) fits1 fits2 by (simp_all add: heap_fits_def)
  obtain h1 where h1: "merge_prev a h = (fst b1, h1)" "heap_rep h1 (xs' @ b1 # ys)"
    using merge_prev_correct [OF assms(1) lay(1) prev] by auto
  note h2 = merge_next_correct [OF h1(2) lay(2) nxt]
  obtain d l w where b2: "b2 = (d, l, w)" by (cases b2)
  have "kfree (a + 24) h
      = upd d (\<lambda>b. b\<lparr>b_in_use := 0\<rparr>) (merge_next (first_addr ys) (fst b1) h1)"
    using h1(1) h2 heap_rep_next [OF assms(1)] b2 by (simp add: kfree_def Let_def)
  moreover have "heap_rep (upd d (\<lambda>b. b\<lparr>b_in_use := 0\<rparr>) (merge_next (first_addr ys) (fst b1) h1))
      (xs' @ (d, l, 0) # ys')"
    using conjunct2 [OF h2] lay(3) unfolding b2 by (rule heap_rep_use)
  ultimately show ?thesis
    using free b2 mark_free_fits [of av xs' b2 ys'] fits1 fits2 by simp
qed

text \<open>
  freeing any block of a well-formed heap by the pointer handed out for it marks it free and
  merges it with the block before and the block behind it exactly when they are free and
  adjacent; the heap stays well formed and no byte is lost.
\<close>

theorem kfree_refines_merge:
  assumes "heap_inv (h, p) (xs @ (a, n, u) # ys)"
  shows "heap_inv (kfree (a + 24) h, p) (free_block xs (a, n, u) ys)
    \<and> heap_bytes (free_block xs (a, n, u) ys) = heap_bytes (xs @ (a, n, u) # ys)"
  using assms kfree_correct [of h xs a n u ys "page_avail p"] by (simp add: heap_inv_def)

lemma sample_freed:
  "\<exists>h' q. heap_inv (h', q) [(4096, 100, 1), (4220, 3948, 0)]"
  using sample_kmalloc by blast

theorem kfree_refines_merge_witness:
  "\<exists>h' q. heap_inv (kfree 4120 h', q) [(4096, 4072, 0)]"
proof -
  obtain h' q where "heap_inv (h', q) ([] @ (4096, 100, 1) # [(4220, 3948, 0)])"
    using sample_freed by auto
  from kfree_refines_merge [OF this] have "heap_inv (kfree 4120 h', q) [(4096, 4072, 0)]"
    by (simp add: free_block_def absorb_prev_def)
  then show ?thesis by blast
qed

text \<open>No two neighbours in the list are both free and adjacent in memory.\<close>

definition coalesced :: "blk list \<Rightarrow> bool" where
  "coalesced bs = successively (\<lambda>b c. \<not> (is_free b \<and> is_free c \<and> touches b c)) bs"

lemma touches_merged:
  assumes "layout (xs @ b # c # ys)" and "touches b c"
  shows "touches (merged b c) d \<longleftrightarrow> touches c d"
proof -
  obtain a n u a' n' u' where b: "b = (a, n, u)" and c: "c = (a', n', u')" by (cases b; cases c)
  have lay: "layout (xs @ (a, n, u) # (a', n', u') # ys)" and adj: "a + 24 + ucast n = a'"
    using assms b c by simp_all
  note size = merge_size [OF lay adj]
  have le: "unat a' + 24 + unat n' \<le> 4294967296" using lay by (simp add: layout_append)
  have "unat (a + 24 + ucast (n + (n' + 24))) = unat (a' + 24 + ucast n')"
    using size le by (simp only: unat_behind)
  then have "a + 24 + ucast (n + (n' + 24)) = a' + 24 + ucast n'" by (simp only: word_unat_eq_iff)
  then show ?thesis by (cases d) (simp only: b c merged.simps touches.simps)
qed

lemma is_free_merged [simp]: "is_free (merged b c) = is_free b"
  by (cases b; cases c) simp

lemma touches_left_merged [simp]: "touches x (merged b c) = touches x b"
  by (cases x; cases b; cases c) simp

lemma touches_mark_free_left [simp]: "touches (mark_free b) c = touches b c"
  by (cases b; cases c) simp

lemma touches_mark_free_right [simp]: "touches x (mark_free b) = touches x b"
  by (cases b; cases x) simp

lemma fst_mark_free [simp]: "fst (mark_free b) = fst b"
  by (cases b) simp

lemma is_free_mark_free [simp]: "is_free (mark_free b)"
  by (cases b) simp

lemma coalesced_append:
  "coalesced (xs @ b # ys) \<longleftrightarrow> coalesced (xs @ [b]) \<and> coalesced (b # ys)"
  by (induction xs rule: induct_list012) (auto simp: coalesced_def)

lemma absorb_prev_coalesced:
  assumes "coalesced xs" and "absorb_prev xs b = (xs', b')"
  shows "coalesced (xs' @ [mark_free b'])"
proof (cases "xs \<noteq> [] \<and> touches (last xs) b \<and> is_free (last xs)")
  case True
  then obtain zs x where xs: "xs = zs @ [x]" by (metis append_butlast_last_id)
  with True assms show ?thesis
    by (auto simp: absorb_prev_def coalesced_def successively_append_iff)
next
  case False
  with assms show ?thesis
    by (auto simp: absorb_prev_def coalesced_def successively_append_iff)
qed

lemma absorb_next_coalesced:
  assumes "coalesced ys" and "layout (xs @ b # ys)" and "absorb_next b ys = (b', ys')"
  shows "coalesced (mark_free b' # ys')"
proof (cases ys)
  case Nil
  with assms show ?thesis by (auto simp: coalesced_def)
next
  case (Cons y zs)
  show ?thesis
  proof (cases "touches b y \<and> is_free y")
    case True
    then have "touches (merged b y) d \<longleftrightarrow> touches y d" for d
      using touches_merged assms(2) Cons by blast
    with True Cons assms(1,3) show ?thesis by (cases zs) (auto simp: coalesced_def)
  next
    case False
    with Cons assms(1,3) show ?thesis by (auto simp: coalesced_def)
  qed
qed

lemma absorb_next_addr: "absorb_next b ys = (b', ys') \<Longrightarrow> fst b' = fst b"
  by (cases ys; cases b) (auto split: if_splits)

lemma touches_fst: "touches x b \<longleftrightarrow> fst x + 24 + ucast (fst (snd x)) = fst b"
  by (cases x; cases b) simp

text \<open>
  C37: \<open>kfree\<close> keeps the heap coalesced: if no two list neighbours were both free and adjacent
  before, none are after freeing any block.
\<close>

theorem kfree_keeps_coalesced:
  assumes "heap_inv (h, p) (xs @ (a, n, u) # ys)" and "coalesced (xs @ (a, n, u) # ys)"
  shows "heap_inv (kfree (a + 24) h, p) (free_block xs (a, n, u) ys)
    \<and> coalesced (free_block xs (a, n, u) ys)"
proof
  show "heap_inv (kfree (a + 24) h, p) (free_block xs (a, n, u) ys)"
    using assms(1) kfree_correct [of h xs a n u ys "page_avail p"] by (simp add: heap_inv_def)
  obtain xs' b1 where prev: "absorb_prev xs (a, n, u) = (xs', b1)" by (cases "absorb_prev xs (a, n, u)")
  obtain b2 ys' where nxt: "absorb_next b1 ys = (b2, ys')" by (cases "absorb_next b1 ys")
  have "heap_fits (page_avail p) (xs @ (a, n, u) # ys)" using assms(1) by (simp add: heap_inv_def)
  from absorb_prev_fits [OF this prev] have lay: "layout (xs' @ b1 # ys)" by (simp add: heap_fits_def)
  have parts: "coalesced xs" "coalesced ys"
    using assms(2) by (auto simp: coalesced_def successively_append_iff successively_Cons)
  have "coalesced (xs' @ [mark_free b1])" using absorb_prev_coalesced [OF parts(1) prev] .
  then have "coalesced (xs' @ [mark_free b2])"
    using absorb_next_addr [OF nxt]
    by (auto simp: coalesced_def successively_append_iff touches_fst)
  moreover have "coalesced (mark_free b2 # ys')"
    using absorb_next_coalesced [OF parts(2) lay nxt] .
  ultimately show "coalesced (free_block xs (a, n, u) ys)"
    using coalesced_append [of xs' "mark_free b2" ys'] by (simp add: free_block_def prev nxt)
qed

theorem kfree_keeps_coalesced_witness:
  "\<exists>h' q. heap_inv (kfree 4120 h', q) [(4096, 4072, 0)] \<and> coalesced [(4096, 4072, 0)]"
proof -
  obtain h' q where inv: "heap_inv (h', q) ([] @ (4096, 100, 1) # [(4220, 3948, 0)])"
    using sample_freed by auto
  have "coalesced ([] @ (4096, 100, 1) # [(4220, 3948, 0)])" by (simp add: coalesced_def)
  from kfree_keeps_coalesced [OF inv this]
  have "heap_inv (kfree 4120 h', q) [(4096, 4072, 0)] \<and> coalesced [(4096, 4072, 0)]"
    by (simp add: free_block_def absorb_prev_def)
  then show ?thesis by blast
qed

text \<open>
  on a heap of one free block, allocating any size up to 4072 and freeing the result leaves
  the heap as it was: the remainder split off is merged back.
\<close>

theorem kmalloc_kfree_roundtrip:
  assumes "heap_inv (h, p) [(a, 4072, 0)]" and "sz \<le> 4072"
  shows "\<exists>h' q. kmalloc sz (h, p) = Some (Inr (a + 24, h', q))
    \<and> heap_inv (kfree (a + 24) h', q) [(a, 4072, 0)]"
proof -
  have "take_first sz [(a, 4072, 0)] = Some (a + 24, grown sz a)"
    using grown_take_first [OF assms(2), of a] by (simp add: page_blk_def)
  with kmalloc_runs [OF assms(1), of sz] leD [OF assms(2)] obtain h' q where
    run: "kmalloc sz (h, p) = Some (Inr (a + 24, h', q))" and inv: "heap_inv (h', q) (grown sz a)"
    by (auto simp: kmalloc_spec_def)
  have "heap_inv (kfree (a + 24) h', q) [(a, 4072, 0)]"
  proof (cases "4072 - sz \<ge> 28")
    case True
    then have "grown sz a = [] @ (a, sz, 1) # [(a + 24 + ucast sz, 4072 - (sz + 24), 0)]"
      by (simp add: grown_def)
    with inv kfree_correct [of h' "[]" a sz 1 "[(a + 24 + ucast sz, 4072 - (sz + 24), 0)]" "page_avail q"] show ?thesis
      by (simp add: heap_inv_def free_block_def absorb_prev_def)
  next
    case False
    then have "grown sz a = [] @ (a, 4072, 1) # []" by (simp add: grown_def)
    with inv kfree_correct [of h' "[]" a 4072 1 "[]" "page_avail q"] show ?thesis
      by (simp add: heap_inv_def free_block_def absorb_prev_def)
  qed
  with run show ?thesis by blast
qed

theorem kmalloc_kfree_roundtrip_witness:
  "\<exists>h' q. kmalloc 4000 (sample_heap, sample_supply) = Some (Inr (4120, h', q))
    \<and> heap_inv (kfree 4120 h', q) [(4096, 4072, 0)]"
  using kmalloc_kfree_roundtrip [OF sample_heap_inv, of 4000] by simp

end
