(* ===== verification/Paging.thy ===== *)
theory Paging
  imports Kernel_Base
begin

text \<open>
  The framebuffer mapping of \<open>paging.c\<close> over the boot page tables of \<open>boot.s\<close>: 2 MiB pages in
  one page directory hung into the page-directory-pointer table. The specification is the address
  translation the processor makes of the tables.
\<close>

section \<open>The tables and the mapping (paging.c, boot.s)\<close>

text \<open>
  \<open>pd\<close> is the directory that \<open>boot.s\<close> fills for the kernel; the two addresses are those the
  linker gives \<open>pd\<close> and \<open>fb_pd\<close>. \<open>flushes\<close> counts the reloads of CR3.
\<close>

record page_tables =
  pdpt :: "u64 list"
  pd :: "u64 list"
  fb_pd :: "u64 list"
  pd_addr :: u64
  fb_pd_addr :: u64
  flushes :: nat

definition boot_tables :: "u64 \<Rightarrow> u64 \<Rightarrow> page_tables" where
  "boot_tables pd_at fb_pd_at =
    \<lparr>pdpt = (pd_at OR 0x3) # replicate 511 0,
     pd = map (\<lambda>i. of_nat i * 0x200000 OR 0x83) [0..<512],
     fb_pd = replicate 512 0,
     pd_addr = pd_at, fb_pd_addr = fb_pd_at, flushes = 0\<rparr>"

function map_pages :: "u64 \<Rightarrow> u32 \<Rightarrow> u32 \<Rightarrow> u32 \<Rightarrow> u64 list \<Rightarrow> u64 list result" where
  "map_pages base pd_start n_pages i t =
    (if i < n_pages \<and> pd_start + i < 512
     then bind_r (store t (unat (pd_start + i)) ((base + ucast i * 0x200000) OR 0x83))
       (map_pages base pd_start n_pages (i + 1))
     else Inr t)"
  by auto

termination
proof (relation "measure (\<lambda>(base, s, n, i, t). 512 - unat (s + i))")
  fix base :: u64 and s n i :: u32 and t t' :: "u64 list"
  assume "i < n \<and> s + i < 512"
  then have "unat (s + i) < 512" by (simp add: word_less_nat_alt)
  moreover have "unat (s + i + 1) = unat (s + i) + 1"
    using unat_inc_u32 [of "s + i" 512] \<open>i < n \<and> s + i < 512\<close> by simp
  ultimately show "((base, s, n, i + 1, t'), (base, s, n, i, t)) \<in> measure (\<lambda>(base, s, n, i, t). 512 - unat (s + i))"
    by (simp add: add.assoc)
qed simp

declare map_pages.simps [simp del]

definition paging_map_fb :: "u64 \<Rightarrow> u64 \<Rightarrow> page_tables \<Rightarrow> page_tables result" where
  "paging_map_fb phys_addr size_b pt =
    (if phys_addr = 0 \<or> size_b = 0 then Inr pt
     else
       let pdpt_idx = ucast (drop_bit 30 phys_addr AND 0x1FF) :: u32;
           pd_start = ucast (drop_bit 21 phys_addr AND 0x1FF) :: u32;
           base = phys_addr AND NOT 0x1FFFFF;
           n_pages = ucast (drop_bit 21 (size_b + 0x1FFFFF)) + 1 :: u32
       in bind_r (store (pdpt pt) (unat pdpt_idx) (fb_pd_addr pt OR 0x3)) (\<lambda>t.
          bind_r (map_pages base pd_start n_pages 0 (fb_pd pt)) (\<lambda>t'.
            Inr (pt\<lparr>pdpt := t, fb_pd := t', flushes := flushes pt + 1\<rparr>))))"

section \<open>The translation\<close>

text \<open>The directory an entry of the pointer table refers to.\<close>

definition directory :: "page_tables \<Rightarrow> u64 \<Rightarrow> u64 list option" where
  "directory pt a =
    (if a = fb_pd_addr pt then Some (fb_pd pt) else if a = pd_addr pt then Some (pd pt) else None)"

text \<open>
  A virtual address below 512 GiB (the reach of the single top-level entry that \<open>boot.s\<close>
  installs) translates through two levels: both entries must be present, and the second one must be
  a 2 MiB page (bit 7).
\<close>

definition translate :: "page_tables \<Rightarrow> u64 \<Rightarrow> u64 option" where
  "translate pt va =
    (if 2 ^ 39 \<le> unat va then None
     else
       let e = pdpt pt ! (unat va div 2 ^ 30)
       in if \<not> bit e 0 then None
          else case directory pt (e AND NOT (mask 12)) of
              None \<Rightarrow> None
            | Some t \<Rightarrow>
                let p = t ! (unat va div 2 ^ 21 mod 512)
                in if \<not> bit p 0 \<or> \<not> bit p 7 then None
                   else Some ((p AND NOT (mask 21)) OR (va AND mask 21)))"

definition tables_ok :: "page_tables \<Rightarrow> bool" where
  "tables_ok pt \<longleftrightarrow> length (pdpt pt) = 512 \<and> length (pd pt) = 512 \<and> length (fb_pd pt) = 512
    \<and> pd_addr pt AND mask 12 = 0 \<and> fb_pd_addr pt AND mask 12 = 0 \<and> pd_addr pt \<noteq> fb_pd_addr pt"

section \<open>The directory after the loop\<close>

definition leaf :: "u64 \<Rightarrow> nat \<Rightarrow> u64" where
  "leaf base k = (base + of_nat k * 0x200000) OR 0x83"

lemma map_pages_correct:
  assumes "length t = 512" and "unat s < 512"
  shows "\<exists>t'. map_pages base s n i t = Inr t' \<and> length t' = 512
    \<and> (\<forall>k<512. t' ! k = (if unat (s + i) \<le> k \<and> k - unat (s + i) < unat n - unat i
          then leaf base (unat i + (k - unat (s + i))) else t ! k))"
  using assms(1)
proof (induction base s n i t rule: map_pages.induct)
  case (1 base s n i t)
  show ?case
  proof (cases "i < n \<and> s + i < 512")
    case True
    let ?j = "unat (s + i)"
    have j: "?j < 512" using True by (simp add: word_less_nat_alt)
    have succ: "unat (s + (i + 1)) = ?j + 1"
      using unat_inc_u32 [of "s + i" 512] True by (simp add: add.assoc)
    have i: "unat (i + 1) = unat i + 1" "unat i < unat n"
      using unat_inc_u32 True by (auto simp: word_less_nat_alt)
    have entry: "(base + ucast i * 0x200000) OR 0x83 = leaf base (unat i)"
      by (simp add: leaf_def)
    have "map_pages base s n i t = map_pages base s n (i + 1) (t[?j := leaf base (unat i)])"
      using True j "1.prems" by (subst map_pages.simps) (simp add: entry)
    moreover have st: "store t ?j ((base + ucast i * 0x200000) OR 0x83) = Inr (t[?j := leaf base (unat i)])"
      using j "1.prems" by (simp add: entry)
    moreover obtain t' where t': "map_pages base s n (i + 1) (t[?j := leaf base (unat i)]) = Inr t'" "length t' = 512"
      and entries: "\<And>k. k < 512 \<Longrightarrow> t' ! k = (if ?j + 1 \<le> k \<and> k - (?j + 1) < unat n - (unat i + 1)
          then leaf base (unat i + 1 + (k - (?j + 1))) else t[?j := leaf base (unat i)] ! k)"
      using "1.IH" [OF True st, unfolded succ i(1)] "1.prems" by auto
    have "t' ! k = (if ?j \<le> k \<and> k - ?j < unat n - unat i then leaf base (unat i + (k - ?j)) else t ! k)"
      if k: "k < 512" for k
    proof (cases "k \<le> ?j")
      case True
      then show ?thesis using entries [OF k] k i(2) "1.prems" by (auto simp: nth_list_update)
    next
      case False
      then have "unat i + 1 + (k - (?j + 1)) = unat i + (k - ?j)" by simp
      with False show ?thesis using entries [OF k] by auto
    qed
    ultimately show ?thesis using t' by auto
  next
    case False
    then have "map_pages base s n i t = Inr t" by (subst map_pages.simps) auto
    moreover have "unat (s + i) \<le> k \<and> k - unat (s + i) < unat n - unat i \<Longrightarrow> False" if "k < 512" for k
      using False that by (auto simp: word_less_nat_alt)
    ultimately show ?thesis using "1.prems" by auto
  qed
qed

lemma leaf_translates:
  assumes "base + of_nat k * 0x200000 = va AND NOT (mask 21)"
  shows "bit (leaf base k) 0" "bit (leaf base k) 7"
    "(leaf base k AND NOT (mask 21)) OR (va AND mask 21) = va"
proof -
  have low: "\<not> bit (0x83 :: int) n" if "\<not> n < 21" for n
    using that by (intro bit_small_int [of 8]) simp_all
  show "bit (leaf base k) 0" "bit (leaf base k) 7" by (simp_all add: leaf_def bit_or_iff)
  show "(leaf base k AND NOT (mask 21)) OR (va AND mask 21) = va"
    unfolding leaf_def assms by (rule bit_word_eqI) (auto simp: bit_simps low)
qed

lemma table_ref:
  fixes a :: u64
  assumes "a AND mask 12 = 0"
  shows "bit (a OR 3) 0" "(a OR 3) AND NOT (mask 12) = a"
proof -
  have high: "\<not> bit (3 :: int) n" if "\<not> n < 12" for n
    using that by (intro bit_small_int [of 8]) simp_all
  have "\<not> bit a n" if "n < 12" for n
  proof -
    have "\<not> bit (a AND mask 12) n" using assms by simp
    with that show ?thesis by (simp add: bit_simps)
  qed
  then show "(a OR 3) AND NOT (mask 12) = a"
    by (intro bit_word_eqI) (auto simp: bit_simps high)
qed (simp add: bit_or_iff)

section \<open>The mapping is the identity\<close>

text \<open>\<open>fits pa sz\<close>: the range is not empty, lies below 512 GiB and within one GiB.\<close>

definition fits :: "u64 \<Rightarrow> u64 \<Rightarrow> bool" where
  "fits pa sz \<longleftrightarrow> pa \<noteq> 0 \<and> sz \<noteq> 0 \<and> unat pa < 2 ^ 39
    \<and> (unat pa + unat sz - 1) div 2 ^ 30 = unat pa div 2 ^ 30"

lemma index_bits: "unat (ucast (drop_bit k (w :: u64) AND 0x1FF) :: u32) = unat w div 2 ^ k mod 512"
proof -
  have "drop_bit k w AND 0x1FF = take_bit 9 (drop_bit k w)"
    by (simp add: take_bit_eq_mask mask_eq_exp_minus_1)
  then have "unat (drop_bit k w AND 0x1FF) = take_bit 9 (unat w div 2 ^ k)"
    by (simp only: unsigned_take_bit_eq unat_drop_bit)
  then have "unat (drop_bit k w AND 0x1FF) = unat w div 2 ^ k mod 512"
    by (simp add: take_bit_eq_mod)
  then show ?thesis by (simp add: unat_ucast_small)
qed

lemma page_count:
  assumes "fits pa sz"
  shows "unat (ucast (drop_bit 21 (sz + 0x1FFFFF)) + 1 :: u32) = (unat sz + 0x1FFFFF) div 2 ^ 21 + 1"
proof -
  define q where "q = unat pa div 2 ^ 30 * 2 ^ 30"
  have "unat pa + unat sz - 1 < 2 ^ 30 + (unat pa + unat sz - 1) div 2 ^ 30 * 2 ^ 30"
    by (rule dividend_less_div_times) simp
  then have "unat pa + unat sz - 1 < 2 ^ 30 + q" using assms by (simp add: fits_def q_def)
  moreover have "q \<le> unat pa" unfolding q_def by (rule div_times_less_eq_dividend)
  ultimately have sz: "unat sz \<le> 2 ^ 30" by simp
  have "unat (sz + 0x1FFFFF) = unat sz + 0x1FFFFF"
    using sz by (simp add: unat_word_ariths)
  then have "unat (drop_bit 21 (sz + 0x1FFFFF)) = (unat sz + 0x1FFFFF) div 2 ^ 21"
    by (simp only: unat_drop_bit)
  moreover have "(unat sz + 0x1FFFFF) div 2 ^ 21 \<le> 1024"
    using sz by simp
  ultimately show ?thesis
    by (subst unat_add_u32) (simp_all add: unat_ucast_small)
qed

lemma page_index:
  assumes "fits pa sz" and "unat pa \<le> v" and "v < unat pa + unat sz"
  shows "v div 2 ^ 30 = unat pa div 2 ^ 30"
    and "v div 2 ^ 21 mod 512 = unat pa div 2 ^ 21 mod 512 + (v div 2 ^ 21 - unat pa div 2 ^ 21)"
    and "v div 2 ^ 21 - unat pa div 2 ^ 21 \<le> (unat sz + 0x1FFFFF) div 2 ^ 21"
proof -
  let ?p = "unat pa"
  have "v div 2 ^ 30 \<le> (?p + unat sz - 1) div 2 ^ 30" using assms(3) by (intro div_le_mono) simp
  moreover have "?p div 2 ^ 30 \<le> v div 2 ^ 30" using assms(2) by (intro div_le_mono)
  ultimately show gib: "v div 2 ^ 30 = ?p div 2 ^ 30" using assms(1) by (simp add: fits_def)
  have split: "n div 2 ^ 21 = n div 2 ^ 30 * 512 + n div 2 ^ 21 mod 512" for n :: nat
    using div_mult_mod_eq [of "n div 2 ^ 21" 512] by (simp add: div_mult2_eq [symmetric])
  have "?p div 2 ^ 21 \<le> v div 2 ^ 21" using assms(2) by (intro div_le_mono)
  then show "v div 2 ^ 21 mod 512 = ?p div 2 ^ 21 mod 512 + (v div 2 ^ 21 - ?p div 2 ^ 21)"
    using split [of v, unfolded gib] split [of ?p] by linarith
  show "v div 2 ^ 21 - ?p div 2 ^ 21 \<le> (unat sz + 0x1FFFFF) div 2 ^ 21"
    using assms(3) by simp
qed

lemma fb_leaf:
  assumes "unat pa div 2 ^ 21 \<le> unat va div 2 ^ 21"
  shows "(pa AND NOT (mask 21)) + of_nat (unat va div 2 ^ 21 - unat pa div 2 ^ 21) * 0x200000
    = va AND NOT (mask 21)"
proof -
  let ?k = "unat va div 2 ^ 21 - unat pa div 2 ^ 21"
  have nat: "unat pa div 2 ^ 21 * 2 ^ 21 + ?k * 2 ^ 21 = unat va div 2 ^ 21 * 2 ^ 21"
    using assms by (simp add: algebra_simps diff_mult_distrib)
  have "(pa AND NOT (mask 21)) + of_nat ?k * 0x200000
      = of_nat (unat (pa AND NOT (mask 21))) + of_nat (?k * 2 ^ 21)" by simp
  also have "\<dots> = of_nat (unat pa div 2 ^ 21 * 2 ^ 21 + ?k * 2 ^ 21)"
    by (simp only: unat_clear_low of_nat_add)
  also have "\<dots> = of_nat (unat (va AND NOT (mask 21)))" by (simp only: nat unat_clear_low)
  finally show ?thesis by simp
qed

lemma paging_map_fb_runs:
  assumes "tables_ok pt" and "fits pa sz"
  shows "\<exists>pt'. paging_map_fb pa sz pt = Inr pt' \<and> tables_ok pt' \<and> flushes pt' = flushes pt + 1
    \<and> pd pt' = pd pt \<and> pd_addr pt' = pd_addr pt \<and> fb_pd_addr pt' = fb_pd_addr pt
    \<and> pdpt pt' = (pdpt pt)[unat pa div 2 ^ 30 := fb_pd_addr pt OR 3]
    \<and> (\<forall>va. unat pa \<le> unat va \<and> unat va < unat pa + unat sz \<longrightarrow>
        fb_pd pt' ! (unat va div 2 ^ 21 mod 512)
          = leaf (pa AND NOT (mask 21)) (unat va div 2 ^ 21 - unat pa div 2 ^ 21))
    \<and> (\<forall>k<512. fb_pd pt' ! k = (let s = unat pa div 2 ^ 21 mod 512 in
        if s \<le> k \<and> k - s \<le> (unat sz + 0x1FFFFF) div 2 ^ 21 then leaf (pa AND NOT (mask 21)) (k - s) else fb_pd pt ! k))"
proof -
  let ?s = "ucast (drop_bit 21 pa AND 0x1FF) :: u32" and ?n = "ucast (drop_bit 21 (sz + 0x1FFFFF)) + 1 :: u32"
  let ?base = "pa AND NOT (mask 21)"
  have s: "unat ?s = unat pa div 2 ^ 21 mod 512" by (rule index_bits)
  have n: "unat ?n = (unat sz + 0x1FFFFF) div 2 ^ 21 + 1" using assms(2) by (rule page_count)
  have "unat pa < 512 * 2 ^ 30" using assms(2) by (simp add: fits_def)
  then have "unat pa div 2 ^ 30 < 512" by (rule less_mult_imp_div_less)
  then have idx: "unat (ucast (drop_bit 30 pa AND 0x1FF) :: u32) = unat pa div 2 ^ 30"
    "unat pa div 2 ^ 30 < length (pdpt pt)"
    using assms(1) by (simp_all add: index_bits tables_ok_def)
  obtain t' where t': "map_pages ?base ?s ?n 0 (fb_pd pt) = Inr t'" "length t' = 512"
    and entries: "\<And>k. k < 512 \<Longrightarrow> t' ! k = (if unat ?s \<le> k \<and> k - unat ?s < unat ?n
        then leaf ?base (k - unat ?s) else fb_pd pt ! k)"
    using map_pages_correct [of "fb_pd pt" ?s ?base ?n 0] assms(1) s by (auto simp: tables_ok_def)
  have mask21: "pa AND - 0x200000 = ?base" by (simp add: mask_eq_exp_minus_1)
  define pt' where "pt' = pt\<lparr>pdpt := (pdpt pt)[unat pa div 2 ^ 30 := fb_pd_addr pt OR 3],
    fb_pd := t', flushes := flushes pt + 1\<rparr>"
  have "paging_map_fb pa sz pt = Inr pt'"
    using assms(2) idx t'(1) by (simp add: paging_map_fb_def fits_def mask21 pt'_def Let_def del: push_bit_of_1)
  moreover have "tables_ok pt'" using assms(1) t'(2) by (simp add: tables_ok_def pt'_def)
  moreover have "t' ! (unat va div 2 ^ 21 mod 512) = leaf ?base (unat va div 2 ^ 21 - unat pa div 2 ^ 21)"
    if "unat pa \<le> unat va" "unat va < unat pa + unat sz" for va
  proof -
    note idx = page_index(2,3) [OF assms(2) that]
    have "unat pa div 2 ^ 21 mod 512 + (unat va div 2 ^ 21 - unat pa div 2 ^ 21) < 512"
      unfolding idx(1) [symmetric] by simp
    with idx show ?thesis using entries [of "unat va div 2 ^ 21 mod 512"] s n by simp
  qed
  moreover have "t' ! k = (let s = unat pa div 2 ^ 21 mod 512 in
      if s \<le> k \<and> k - s \<le> (unat sz + 0x1FFFFF) div 2 ^ 21 then leaf ?base (k - s) else fb_pd pt ! k)" if "k < 512" for k
    using entries [OF that] s n by (simp add: Let_def less_Suc_eq_le)
  ultimately show ?thesis by (intro exI [of _ pt']) (auto simp: pt'_def)
qed

lemma fb_translates:
  assumes "tables_ok pt" and "fits pa sz" and "paging_map_fb pa sz pt = Inr pt'"
    and "unat pa \<le> unat va" and "unat va < unat pa + unat sz"
  shows "translate pt' va = Some va"
proof -
  let ?base = "pa AND NOT (mask 21)" and ?k = "unat va div 2 ^ 21 - unat pa div 2 ^ 21"
  have pt': "tables_ok pt'" "fb_pd_addr pt' = fb_pd_addr pt"
    "pdpt pt' = (pdpt pt)[unat pa div 2 ^ 30 := fb_pd_addr pt OR 3]"
    "fb_pd pt' ! (unat va div 2 ^ 21 mod 512) = leaf ?base ?k"
    using paging_map_fb_runs [OF assms(1,2)] assms(3-5) by auto
  have gib: "unat va div 2 ^ 30 = unat pa div 2 ^ 30" by (rule page_index [OF assms(2,4,5)])
  have "unat pa < 512 * 2 ^ 30" using assms(2) by (simp add: fits_def)
  then have idx: "unat pa div 2 ^ 30 < 512" by (rule less_mult_imp_div_less)
  then have reach: "unat va < 2 ^ 39" using gib div_less_iff_less_mult [of "2 ^ 30" "unat va" 512] by simp
  have e: "pdpt pt' ! (unat va div 2 ^ 30) = fb_pd_addr pt OR 3"
    using pt'(3) gib idx assms(1) by (simp add: tables_ok_def)
  have ref: "bit (fb_pd_addr pt OR 3) 0" "(fb_pd_addr pt OR 3) AND NOT (mask 12) = fb_pd_addr pt"
    using table_ref [of "fb_pd_addr pt"] assms(1) by (simp_all add: tables_ok_def)
  note leaf = leaf_translates [OF fb_leaf [OF div_le_mono [OF assms(4)]]]
  have "directory pt' (fb_pd_addr pt) = Some (fb_pd pt')" by (simp add: directory_def pt'(2))
  with reach leaf ref(1) pt'(4) show ?thesis
    unfolding translate_def Let_def e ref(2) by simp
qed

lemma other_translates:
  assumes "tables_ok pt" and "fits pa sz" and "paging_map_fb pa sz pt = Inr pt'"
    and "unat va div 2 ^ 30 \<noteq> unat pa div 2 ^ 30"
    and "pdpt pt ! (unat va div 2 ^ 30) AND NOT (mask 12) \<noteq> fb_pd_addr pt"
  shows "translate pt' va = translate pt va"
proof -
  have "pd pt' = pd pt" "pd_addr pt' = pd_addr pt" "fb_pd_addr pt' = fb_pd_addr pt"
    "pdpt pt' = (pdpt pt)[unat pa div 2 ^ 30 := fb_pd_addr pt OR 3]"
    using paging_map_fb_runs [OF assms(1,2)] assms(3) by auto
  with assms(4,5) show ?thesis by (simp add: translate_def directory_def Let_def)
qed

text \<open>The kernel's first GiB under the tables of \<open>boot.s\<close>.\<close>

lemma boot_tables_ok:
  "\<lbrakk>a AND mask 12 = 0; b AND mask 12 = 0; a \<noteq> b\<rbrakk> \<Longrightarrow> tables_ok (boot_tables a b)"
  by (simp add: tables_ok_def boot_tables_def)

lemma boot_translates:
  assumes "a AND mask 12 = 0" and "a \<noteq> b" and "unat va < 2 ^ 30"
  shows "translate (boot_tables a b) va = Some va"
proof -
  let ?k = "unat va div 2 ^ 21"
  have k: "?k < 512" using assms(3) by (simp add: less_mult_imp_div_less)
  have "of_nat ?k * 0x200000 = (of_nat (?k * 2 ^ 21) :: u64)" by simp
  also have "\<dots> = va AND NOT (mask 21)" by (simp only: unat_clear_low [symmetric] of_nat_unat) simp
  finally have base: "(0 :: u64) + of_nat ?k * 0x200000 = va AND NOT (mask 21)" by simp
  have leaf: "pd (boot_tables a b) ! ?k = leaf 0 ?k" using k by (simp add: boot_tables_def leaf_def)
  have "unat va div 2 ^ 30 = 0" using assms(3) by simp
  moreover have "directory (boot_tables a b) a = Some (pd (boot_tables a b))"
    using assms(2) by (simp add: directory_def boot_tables_def)
  moreover have "pdpt (boot_tables a b) ! 0 = a OR 3" by (simp add: boot_tables_def)
  ultimately show ?thesis
    using assms(3) k table_ref [OF assms(1)] leaf leaf_translates [OF base] by (simp add: translate_def Let_def)
qed

text \<open>
  on the tables \<open>boot.s\<close> builds, mapping a framebuffer that lies above the first GiB, below
  512 GiB and within one GiB returns, flushes the translations once, and then every address of the
  framebuffer and every address of the kernel's first GiB translates to itself.
\<close>

theorem paging_map_fb_identity:
  assumes "a AND mask 12 = 0" and "b AND mask 12 = 0" and "a \<noteq> b"
    and "fits pa sz" and "2 ^ 30 \<le> unat pa"
  shows "\<exists>pt. paging_map_fb pa sz (boot_tables a b) = Inr pt \<and> flushes pt = 1
    \<and> (\<forall>va. unat va < 2 ^ 30 \<or> unat pa \<le> unat va \<and> unat va < unat pa + unat sz \<longrightarrow>
        translate pt va = Some va)"
proof -
  note ok = boot_tables_ok [OF assms(1-3)]
  obtain pt where pt: "paging_map_fb pa sz (boot_tables a b) = Inr pt" "flushes pt = 1"
    using paging_map_fb_runs [OF ok assms(4)] by (auto simp: boot_tables_def)
  have "translate pt va = Some va" if "unat va < 2 ^ 30" for va
  proof -
    have "1 \<le> unat pa div 2 ^ 30" using div_le_mono [OF assms(5), of "2 ^ 30"] by simp
    moreover have "unat va div 2 ^ 30 = 0" using that by simp
    moreover have "pdpt (boot_tables a b) ! 0 AND NOT (mask 12) = a" "fb_pd_addr (boot_tables a b) = b"
      using table_ref(2) [OF assms(1)] by (simp_all add: boot_tables_def)
    ultimately have "translate pt va = translate (boot_tables a b) va"
      using assms(3) by (intro other_translates [OF ok assms(4) pt(1)]) simp_all
    then show ?thesis using boot_translates [OF assms(1,3) that] by simp
  qed
  with pt fb_translates [OF ok assms(4) pt(1)] show ?thesis by blast
qed

theorem paging_map_fb_identity_witness:
  "\<exists>pt. paging_map_fb 0xFD000000 0x300000 (boot_tables 0x103000 0x104000) = Inr pt
    \<and> translate pt 0xFD2FFFFF = Some 0xFD2FFFFF \<and> translate pt 0x100000 = Some 0x100000"
proof -
  have "fits 0xFD000000 0x300000" by (simp add: fits_def)
  moreover have "(0x103000 :: u64) AND mask 12 = 0" "(0x104000 :: u64) AND mask 12 = 0"
    by (simp_all add: mask_eq_exp_minus_1)
  ultimately obtain pt where "paging_map_fb 0xFD000000 0x300000 (boot_tables 0x103000 0x104000) = Inr pt"
    "\<forall>va. unat va < 2 ^ 30 \<or> unat (0xFD000000 :: u64) \<le> unat va
        \<and> unat va < unat (0xFD000000 :: u64) + unat (0x300000 :: u64) \<longrightarrow> translate pt va = Some va"
    using paging_map_fb_identity [of "0x103000" "0x104000" "0xFD000000" "0x300000"] by auto
  then show ?thesis by auto
qed

text \<open>
  C34: A framebuffer below 1 GiB takes the rest of the first GiB away from the processor. \<open>boot.s\<close> has mapped all of it, the kernel
  included, to itself; \<open>paging_map_fb\<close> returns as if all were well, but it has put the framebuffer's directory in the place of that
  mapping: an address below 1 GiB now translates to itself if its 2 MiB page is one of those mapped for the framebuffer
  (from the first that it touches, and one more than its rounded size), and not at all otherwise. So a framebuffer
  anywhere from 2 MiB to 1 GiB unmaps everything below 2 MiB.
\<close>

theorem paging_low_framebuffer_unmaps:
  assumes "a AND mask 12 = 0" and "b AND mask 12 = 0" and "a \<noteq> b" and "fits pa sz" and "unat pa < 2 ^ 30"
  shows "\<exists>pt. paging_map_fb pa sz (boot_tables a b) = Inr pt
    \<and> (\<forall>va. unat va < 2 ^ 30 \<longrightarrow> translate (boot_tables a b) va = Some va
        \<and> (let first = unat pa div 2 ^ 21; page = unat va div 2 ^ 21
           in translate pt va = (if first \<le> page \<and> page - first \<le> (unat sz + 0x1FFFFF) div 2 ^ 21 then Some va else None)))
    \<and> (2 ^ 21 \<le> unat pa \<longrightarrow> (\<forall>va. unat va < 2 ^ 21 \<longrightarrow> translate pt va = None))"
proof -
  let ?first = "unat pa div 2 ^ 21"
  have first: "?first < 512" using assms(5) by (simp add: less_mult_imp_div_less)
  have zero: "fb_pd (boot_tables a b) ! k = 0" if "k < 512" for k using that by (simp add: boot_tables_def)
  obtain pt where pt: "paging_map_fb pa sz (boot_tables a b) = Inr pt" "fb_pd_addr pt = fb_pd_addr (boot_tables a b)"
    "pdpt pt = (pdpt (boot_tables a b))[unat pa div 2 ^ 30 := fb_pd_addr (boot_tables a b) OR 3]"
    and entries: "\<forall>k<512. fb_pd pt ! k = (let s = ?first mod 512 in
      if s \<le> k \<and> k - s \<le> (unat sz + 0x1FFFFF) div 2 ^ 21 then leaf (pa AND NOT (mask 21)) (k - s) else fb_pd (boot_tables a b) ! k)"
    using paging_map_fb_runs [OF boot_tables_ok [OF assms(1-3)] assms(4)] by blast
  have b: "fb_pd_addr (boot_tables a b) = b" by (simp add: boot_tables_def)
  note pt = pt [unfolded b]
  have entry: "fb_pd pt ! k = (if ?first \<le> k \<and> k - ?first \<le> (unat sz + 0x1FFFFF) div 2 ^ 21
      then leaf (pa AND NOT (mask 21)) (k - ?first) else 0)" if "k < 512" for k
    using entries [rule_format, OF that] zero [OF that] unfolding Let_def mod_less [OF first] by simp
  have "pdpt pt ! 0 = b OR 3" using assms(5) pt(3) by (simp add: boot_tables_def)
  moreover have "directory pt b = Some (fb_pd pt)" using pt(2) by (simp add: directory_def)
  ultimately have now: "translate pt va = (if ?first \<le> unat va div 2 ^ 21
      \<and> unat va div 2 ^ 21 - ?first \<le> (unat sz + 0x1FFFFF) div 2 ^ 21 then Some va else None)" if va: "unat va < 2 ^ 30" for va
  proof -
    have k: "unat va div 2 ^ 21 < 512" using va by (simp add: less_mult_imp_div_less)
    moreover have "unat va div 2 ^ 30 = 0" using va by simp
    ultimately show ?thesis
      using \<open>pdpt pt ! 0 = b OR 3\<close> \<open>directory pt b = Some (fb_pd pt)\<close> table_ref [OF assms(2)] entry [OF k]
        leaf_translates [OF fb_leaf [of pa va]] va
      by (simp add: translate_def Let_def)
  qed
  have low: "translate pt va = None" if "2 ^ 21 \<le> unat pa" "unat va < 2 ^ 21" for va
  proof -
    have "1 \<le> ?first" using div_le_mono [OF that(1), of "2 ^ 21"] by simp
    moreover have "unat va div 2 ^ 21 = 0" using that(2) by simp
    moreover have "unat va < 2 ^ 30" using that(2) by simp
    ultimately show ?thesis using now by simp
  qed
  show ?thesis
    using pt(1) now low boot_translates [OF assms(1,3)] unfolding Let_def by blast
qed

theorem paging_low_framebuffer_unmaps_witness:
  "\<exists>pt. paging_map_fb 0x20000000 0x300000 (boot_tables 0x103000 0x104000) = Inr pt \<and> translate pt 0x100000 = None"
proof -
  have "fits 0x20000000 0x300000" by (simp add: fits_def)
  moreover have "(0x103000 :: u64) AND mask 12 = 0" "(0x104000 :: u64) AND mask 12 = 0"
    by (simp_all add: mask_eq_exp_minus_1)
  ultimately obtain pt where pt: "paging_map_fb 0x20000000 0x300000 (boot_tables 0x103000 0x104000) = Inr pt"
    "2 ^ 21 \<le> unat (0x20000000 :: u64) \<longrightarrow> (\<forall>va. unat va < 2 ^ 21 \<longrightarrow> translate pt va = None)"
    using paging_low_framebuffer_unmaps [of "0x103000" "0x104000" "0x20000000" "0x300000"] by auto
  moreover have "unat (0x100000 :: u64) < 2 ^ 21" by simp
  ultimately show ?thesis by auto
qed

end
