(* ===== verification/Idt.thy ===== *)
theory Idt
  imports Kernel_Base
begin

text \<open>
  The interrupt descriptor table of \<open>idt.c\<close>: the sixteen-byte entries, their construction from a
  handler address, and the initialisation with the load of the table register. The addresses of
  the assembly stubs \<open>isr0\<close> to \<open>isr31\<close>, \<open>irq0\<close> and \<open>irq1\<close> of \<open>interrupts.s\<close> are the linker's: a
  parameter \<open>stub\<close>, by vector.
\<close>

section \<open>The table (idt.h, idt.c)\<close>

record idt_entry =
  offset_low :: u16
  selector :: u16
  ist :: u8
  type_attr :: u8
  offset_mid :: u16
  offset_high :: u32
  reserved :: u32

record idt_descriptor =
  limit :: u16
  base :: u64

text \<open>\<open>idtr\<close> is the processor's table register, \<open>None\<close> before the first \<open>lidt\<close>.\<close>

record idt_state =
  idt :: "idt_entry list"
  idtr :: "idt_descriptor option"

definition null_entry :: idt_entry where
  "null_entry = \<lparr>offset_low = 0, selector = 0, ist = 0, type_attr = 0, offset_mid = 0,
    offset_high = 0, reserved = 0\<rparr>"

definition idt_boot :: idt_state where
  "idt_boot = \<lparr>idt = replicate 256 null_entry, idtr = None\<rparr>"

definition idt_set_entry :: "s32 \<Rightarrow> u64 \<Rightarrow> u16 \<Rightarrow> u8 \<Rightarrow> idt_state \<Rightarrow> idt_state result" where
  "idt_set_entry vector handler sel attr st =
    (if sint vector < 0 then Inl Out_of_bounds
     else
       let entry = \<lparr>offset_low = ucast (handler AND 0xFFFF), selector = sel, ist = 0, type_attr = attr,
             offset_mid = ucast (drop_bit 16 handler AND 0xFFFF),
             offset_high = ucast (drop_bit 32 handler AND 0xFFFFFFFF), reserved = 0\<rparr>
       in bind_r (store (idt st) (nat (sint vector)) entry) (\<lambda>t. Inr (st\<lparr>idt := t\<rparr>)))"

text \<open>\<open>idt_addr\<close> is the address of the table itself.\<close>

definition idt_init :: "(nat \<Rightarrow> u64) \<Rightarrow> u64 \<Rightarrow> idt_state \<Rightarrow> idt_state result" where
  "idt_init stub idt_addr st =
    bind_r (for_r 32 (\<lambda>i. idt_set_entry (of_nat i) (stub i) 0x08 0x8E) st) (\<lambda>st.
    bind_r (idt_set_entry 32 (stub 32) 0x08 0x8E st) (\<lambda>st.
    bind_r (idt_set_entry 33 (stub 33) 0x08 0x8E st) (\<lambda>st.
      Inr (st\<lparr>idtr := Some \<lparr>limit = of_nat (length (idt st) * 16 - 1), base = idt_addr\<rparr>\<rparr>))))"

section \<open>What the processor finds\<close>

text \<open>
  The processor uses entry \<open>v\<close> when the table register covers its sixteen bytes and its present bit
  is set; the target is put together from the three offset fields. A type of \<open>0xE\<close> at privilege 0
  enters the handler with interrupts off.
\<close>

definition gate_target :: "idt_entry \<Rightarrow> u64" where
  "gate_target e = push_bit 32 (ucast (offset_high e)) OR push_bit 16 (ucast (offset_mid e)) OR ucast (offset_low e)"

definition interrupt_gate :: "idt_entry \<Rightarrow> bool" where
  "interrupt_gate e = (bit (type_attr e) 7 \<and> type_attr e AND 0x7F = 0x0E)"

definition dispatch :: "idt_state \<Rightarrow> nat \<Rightarrow> (u16 \<times> u64) option" where
  "dispatch st v =
    (case idtr st of
       None \<Rightarrow> None
     | Some d \<Rightarrow>
         if unat (limit d) < v * 16 + 15 \<or> \<not> interrupt_gate (idt st ! v) then None
         else Some (selector (idt st ! v), gate_target (idt st ! v)))"

definition gate :: "u64 \<Rightarrow> idt_entry" where
  "gate handler = \<lparr>offset_low = ucast handler, selector = 0x08, ist = 0, type_attr = 0x8E,
    offset_mid = ucast (drop_bit 16 handler), offset_high = ucast (drop_bit 32 handler), reserved = 0\<rparr>"

lemma gate_target_gate [simp]: "gate_target (gate h) = h"
proof (rule bit_word_eqI)
  fix n assume "n < LENGTH(64)"
  then show "bit (gate_target (gate h)) n \<longleftrightarrow> bit h n"
    by (cases "n < 32") (auto simp: gate_target_def gate_def bit_simps)
qed

lemma gate_fields [simp]: "interrupt_gate (gate h)" "selector (gate h) = 0x08"
  by (simp_all add: gate_def interrupt_gate_def bit_numeral_rec)

lemma not_gate_null [simp]: "\<not> interrupt_gate null_entry"
  by (simp add: null_entry_def interrupt_gate_def)

lemma handler_parts:
  fixes h :: u64
  shows "ucast (h AND 0xFFFF) = (ucast h :: u16)" "ucast (h AND 0xFFFFFFFF) = (ucast h :: u32)"
proof -
  have m: "(0xFFFF :: u64) = mask 16" "(0xFFFFFFFF :: u64) = mask 32" by (simp_all add: mask_eq_exp_minus_1)
  show "ucast (h AND 0xFFFF) = (ucast h :: u16)" "ucast (h AND 0xFFFFFFFF) = (ucast h :: u32)"
    unfolding m by (rule bit_word_eqI, auto simp: bit_simps)+
qed

lemma set_entry:
  assumes "v < 256" and "length (idt st) = 256"
  shows "idt_set_entry (of_nat v) h 0x08 0x8E st = Inr (st\<lparr>idt := (idt st)[v := gate h]\<rparr>)"
  using assms sint_of_nat_s32 [of v] by (simp add: idt_set_entry_def handler_parts gate_def)

lemma set_entries:
  assumes "n \<le> 32" and "length (idt st) = 256"
  shows "ok_r (\<lambda>st'. length (idt st') = 256 \<and> idtr st' = idtr st
      \<and> (\<forall>v<256. idt st' ! v = (if v < n then gate (stub v) else idt st ! v)))
    (for_r n (\<lambda>i. idt_set_entry (of_nat i) (stub i) 0x08 0x8E) st)"
  using assms(1)
proof (rule_tac for_r_inv)
  fix i and st' :: idt_state
  assume "i < n" and "n \<le> 32"
    and "length (idt st') = 256 \<and> idtr st' = idtr st
      \<and> (\<forall>v<256. idt st' ! v = (if v < i then gate (stub v) else idt st ! v))"
  then show "ok_r (\<lambda>st''. length (idt st'') = 256 \<and> idtr st'' = idtr st
      \<and> (\<forall>v<256. idt st'' ! v = (if v < Suc i then gate (stub v) else idt st ! v)))
      (idt_set_entry (of_nat i) (stub i) 0x08 0x8E st')"
    using set_entry [of i st' "stub i"] by (auto simp: nth_list_update less_Suc_eq)
qed (use assms(2) in simp)

lemma idt_init_runs:
  assumes "length (idt st) = 256"
  shows "ok_r (\<lambda>st'. length (idt st') = 256 \<and> idtr st' = Some \<lparr>limit = 4095, base = a\<rparr>
      \<and> (\<forall>v<256. idt st' ! v = (if v < 34 then gate (stub v) else idt st ! v)))
    (idt_init stub a st)"
proof -
  obtain st1 where st1: "for_r 32 (\<lambda>i. idt_set_entry (of_nat i) (stub i) 0x08 0x8E) st = Inr st1"
    "length (idt st1) = 256" "\<forall>v<256. idt st1 ! v = (if v < 32 then gate (stub v) else idt st ! v)"
    using set_entries [of 32 st stub] assms by (auto simp: ok_r_iff)
  let ?st2 = "st1\<lparr>idt := (idt st1)[32 := gate (stub 32)]\<rparr>"
  have "idt_set_entry 32 (stub 32) 0x08 0x8E st1 = Inr ?st2"
    using set_entry [of 32 st1 "stub 32"] st1(2) by simp
  moreover have "idt_set_entry 33 (stub 33) 0x08 0x8E ?st2 = Inr (?st2\<lparr>idt := (idt ?st2)[33 := gate (stub 33)]\<rparr>)"
    using set_entry [of 33 ?st2 "stub 33"] st1(2) by simp
  ultimately show ?thesis
    using st1 by (auto simp: idt_init_def nth_list_update)
qed

text \<open>
  after \<open>idt_init\<close> the processor finds, for the 32 exceptions and the two hardware interrupts
  32 and 33, an interrupt gate in the kernel code segment whose target, put together from its
  three fields, is that vector's stub; every other vector has no gate, as at boot.
\<close>

theorem idt_init_dispatches:
  assumes "v < 256"
  shows "\<exists>st. idt_init stub a idt_boot = Inr st
    \<and> dispatch st v = (if v < 34 then Some (0x08, stub v) else None)"
  using idt_init_runs [where st = idt_boot and stub = stub and a = a] assms by (auto simp: ok_r_iff idt_boot_def dispatch_def)

theorem idt_init_dispatches_witness:
  "\<exists>st. idt_init (\<lambda>v. 0xFFFF8000123456F0 + of_nat v) 0x5000 idt_boot = Inr st
    \<and> dispatch st 33 = Some (0x08, 0xFFFF800012345711)"
  using idt_init_dispatches [where v = 33 and stub = "\<lambda>v. 0xFFFF8000123456F0 + of_nat v" and a = "0x5000"] by simp

end
