(* ===== verification/Machine.thy ===== *)
theory Machine
  imports Shell Heap Paging Idt
begin

text \<open>
  The static state of the whole kernel in one record, each field the state of its component, and
  the invariant of the running system that every interrupt keeps.
\<close>

section \<open>State\<close>

text \<open>The variables of \<open>keyboard.c\<close>.\<close>

record kbd =
  shift :: s32
  stopped :: s32
  line :: "u8 list"
  line_len :: s32

definition kbd_boot :: kbd where
  "kbd_boot = \<lparr>shift = 0, stopped = 0, line = replicate 256 0, line_len = 0\<rparr>"

text \<open>\<open>k_sti\<close> is the processor's interrupt flag; \<open>k_shell\<close> the static buffer of \<open>shell_exec\<close>.\<close>

record kernel =
  k_ports :: trace
  k_ticks :: u32
  k_screen :: fb
  k_kbd :: kbd
  k_shell :: "u8 list"
  k_pages :: pmm
  k_heap :: heap
  k_disk :: ata_drive
  k_idt :: idt_state
  k_tables :: page_tables
  k_sti :: bool

section \<open>The invariant of the running system\<close>

definition kbd_ok :: "kbd \<Rightarrow> bool" where
  "kbd_ok kb \<longleftrightarrow> length (line kb) = 256 \<and> unat (line_len kb) \<le> 256"

definition kernel_ok :: "kernel \<Rightarrow> bool" where
  "kernel_ok k \<longleftrightarrow> fb_ok (k_screen k) \<and> kbd_ok (k_kbd k) \<and> length (k_shell k) = 256
    \<and> shell_data_ok (k_pages k) (k_disk k)"

lemma kernel_ok_fields [simp]:
  "kernel_ok (k\<lparr>k_ports := tr\<rparr>) = kernel_ok k" "kernel_ok (k\<lparr>k_ticks := n\<rparr>) = kernel_ok k"
  "fb_ok st \<Longrightarrow> kernel_ok k \<Longrightarrow> kernel_ok (k\<lparr>k_screen := st\<rparr>)"
  "shell_data_ok (k_pages k) dr \<Longrightarrow> kernel_ok k \<Longrightarrow> kernel_ok (k\<lparr>k_disk := dr\<rparr>)"
  by (simp_all add: kernel_ok_def)

lemma kbd_boot_ok [simp]: "kbd_ok kbd_boot"
  by (simp add: kbd_ok_def kbd_boot_def)

text \<open>
  What a keyboard interrupt leaves alone: every other component's state, and the memory outside the framebuffer.
\<close>

definition undisturbed :: "kernel \<Rightarrow> kernel \<Rightarrow> bool" where
  "undisturbed k k' \<longleftrightarrow> k_ticks k' = k_ticks k \<and> k_pages k' = k_pages k \<and> k_heap k' = k_heap k \<and> k_disk k' = k_disk k
    \<and> k_idt k' = k_idt k \<and> k_tables k' = k_tables k \<and> k_sti k' = k_sti k
    \<and> stopped (k_kbd k') = stopped (k_kbd k) \<and> evolves (k_screen k) (k_screen k')"

lemma undisturbed_refl: "undisturbed k k"
  by (simp add: undisturbed_def)

lemma undisturbed_trans: "undisturbed k k1 \<Longrightarrow> undisturbed k1 k2 \<Longrightarrow> undisturbed k k2"
  by (auto simp: undisturbed_def intro: evolves_trans)

lemma fb_cursor_activity_evolves [simp]: "evolves st (fb_cursor_activity n st')  = evolves st st'"
  "evolves (fb_cursor_activity n st) st' = evolves st st'"
  by (auto simp: fb_cursor_activity_def evolves_def same_mode_def region_def)

text \<open>Activity is not part of what the console shows.\<close>

lemma fb_cursor_activity_ok [simp]:
  "fb_ok (fb_cursor_activity n st) = fb_ok st" "tty_of (fb_cursor_activity n st) = tty_of st"
proof -
  let ?s = "st\<lparr>last_activity := n\<rparr>"
  have m: "same_mode st ?s" by simp
  have "renders X ?s = renders X st" for X by (rule renders_vram) simp_all
  moreover have "fb_wf ?s = fb_wf st" by (rule same_mode_shape(1) [OF m])
  ultimately show "fb_ok (fb_cursor_activity n st) = fb_ok st"
    by (simp add: fb_cursor_activity_def fb_ok_def screen_ok_def grid_ok_def screen_mode_def blank_behind_def cursor_def)
  show "tty_of (fb_cursor_activity n st) = tty_of st" by (simp add: fb_cursor_activity_def tty_of_def)
qed

text \<open>A kernel at work, for the examples: the sample screen, an empty disk record, no memory.\<close>

definition sample_kernel :: kernel where
  "sample_kernel = \<lparr>k_ports = [], k_ticks = 0, k_screen = sample_fb, k_kbd = kbd_boot, k_shell = replicate 256 0,
    k_pages = pmm_boot, k_heap = \<lparr>hdr = (\<lambda>_. \<lparr>b_size = 0, b_in_use = 0, b_next = 0, b_prev = 0\<rparr>), head = 0\<rparr>,
    k_disk = drive_boot, k_idt = idt_boot, k_tables = boot_tables 0x103000 0x104000, k_sti = True\<rparr>"

lemma sample_kernel_ok: "kernel_ok sample_kernel"
  using sample_fb_ok
  by (simp add: kernel_ok_def sample_kernel_def shell_data_ok_def pmm_boot_def drive_boot_def terminated_def)

end
