(* ===== verification/Keyboard.thy ===== *)
theory Keyboard
  imports Machine
begin

text \<open>
  The keyboard driver (\<open>keyboard.c\<close>): the scan code maps, the interrupt handler with its line buffer, and
  the calls into the console and the shell. The specification is an editing session: the terminal, the text
  typed since the last prompt and the shift state.
\<close>

section \<open>The driver (keyboard.c)\<close>

definition scancode_map :: "u8 list" where
  "scancode_map =
    [0, 0] @ bytes ''1234567890-='' @ [0, 0] @ bytes ''qwertyuiop[]'' @ [0x0A, 0] @ bytes ''asdfghjkl;'' @ [0x27, 0x60, 0, 0x5C]
    @ bytes ''zxcvbnm,./'' @ [0] @ bytes ''*'' @ [0] @ bytes '' ''"

definition uppercase_map :: "u8 list" where
  "uppercase_map =
    [0, 0] @ bytes ''!@#$%^&*()_+'' @ [0, 0] @ bytes ''QWERTYUIOP{}'' @ [0x0A, 0] @ bytes ''ASDFGHJKL:'' @ [0x22, 0x7E, 0, 0x7C]
    @ bytes ''ZXCVBNM<>?'' @ [0] @ bytes ''*'' @ [0] @ bytes '' ''"

definition keyboard_init :: "device \<Rightarrow> trace \<Rightarrow> trace result" where
  "keyboard_init d tr = pic_unmask d 1 tr"

definition keyboard_stop :: "kbd \<Rightarrow> kbd" where "keyboard_stop kb = kb\<lparr>stopped := 1\<rparr>"
definition keyboard_start :: "kbd \<Rightarrow> kbd" where "keyboard_start kb = kb\<lparr>stopped := 0\<rparr>"

text \<open>\<open>line[i] = v\<close> with a signed index.\<close>

definition store_line :: "s32 \<Rightarrow> u8 \<Rightarrow> kbd \<Rightarrow> kbd result" where
  "store_line i v kb =
    (if sint i < 0 then Inl Out_of_bounds
     else bind_r (store (line kb) (nat (sint i)) v) (\<lambda>l. Inr (kb\<lparr>line := l\<rparr>)))"

text \<open>The Enter key: a new row, the line handed to the shell, the prompt. \<open>junk\<close> is the shell's stack buffer.\<close>

definition key_enter :: "u8 list \<Rightarrow> kernel \<Rightarrow> kernel result" where
  "key_enter junk k =
    (let st = fb_erase_cursor (k_screen k) in
     bind_r (int_inc (fb_get_row st)) (\<lambda>row.
     bind_r (fb_set_row row st) (\<lambda>st.
     let st = fb_set_col 0 st in
     bind_r (store_line (line_len (k_kbd k)) 0 (k_kbd k)) (\<lambda>kb.
     let kb = kb\<lparr>line_len := 0\<rparr> in
     bind_r (shell_exec (k_pages k) (k_disk k) junk (line kb) (k_shell k, st, k_ports k)) (\<lambda>(buf, st, tr).
     bind_r (fb_print (lit ''> '') st) (\<lambda>st.
       Inr (k\<lparr>k_screen := fb_draw_cursor st, k_kbd := kb, k_shell := buf, k_ports := tr\<rparr>)))))))"

definition key_backspace :: "kernel \<Rightarrow> kernel" where
  "key_backspace k =
    (let kb = k_kbd k in
     if 0 < sint (line_len kb)
     then k\<lparr>k_kbd := kb\<lparr>line_len := line_len kb - 1\<rparr>, k_screen := fb_backspace (k_screen k)\<rparr>
     else k)"

definition key_char :: "u8 \<Rightarrow> kernel \<Rightarrow> kernel result" where
  "key_char code k =
    (let kb = k_kbd k; key_map = (if shift kb \<noteq> 0 then uppercase_map else scancode_map) in
     bind_r (fetch key_map (unat code)) (\<lambda>c.
     bind_r (store_line (line_len kb) c kb) (\<lambda>kb.
     bind_r (int_inc (line_len kb)) (\<lambda>n.
     bind_r (fetch key_map (unat code)) (\<lambda>c.
     bind_r (fb_print [c, 0] (k_screen k)) (\<lambda>st.
       Inr (k\<lparr>k_kbd := kb\<lparr>line_len := n\<rparr>, k_screen := st\<rparr>)))))))"

definition keyboard_handler :: "device \<Rightarrow> u8 list \<Rightarrow> kernel \<Rightarrow> kernel result" where
  "keyboard_handler d junk k =
    (let (code, tr) = inb d 0x60 (k_ports k);
         k = k\<lparr>k_ports := pic_eoi 1 tr\<rparr>;
         kb = k_kbd k
     in if stopped kb \<noteq> 0 then Inr k
        else if code = 0xAA \<or> code = 0xB6 then Inr (k\<lparr>k_kbd := kb\<lparr>shift := 0\<rparr>\<rparr>)
        else if code AND 0x80 \<noteq> 0 then Inr k
        else let k = k\<lparr>k_screen := fb_cursor_activity (pit_get_ticks (k_ticks k)) (k_screen k)\<rparr> in
          if code = 0x2A \<or> code = 0x36 then Inr (k\<lparr>k_kbd := kb\<lparr>shift := 1\<rparr>\<rparr>)
          else if code = 0x1C then key_enter junk k
          else if code = 0x0E then Inr (key_backspace k)
          else key_char code k)"

section \<open>Editing sessions\<close>

record session =
  s_tty :: tty
  s_input :: "u8 list"
  s_shift :: bool

definition kbd_input :: "kbd \<Rightarrow> u8 list" where
  "kbd_input kb = take (unat (line_len kb)) (line kb)"

definition session_of :: "kernel \<Rightarrow> session" where
  "session_of k = \<lparr>s_tty = tty_of (k_screen k), s_input = kbd_input (k_kbd k), s_shift = (shift (k_kbd k) \<noteq> 0)\<rparr>"

datatype key = Shift_up | Shift_down | Released | Enter | Erase | Typed u8

definition key_of :: "bool \<Rightarrow> u8 \<Rightarrow> key" where
  "key_of upper code =
    (if code = 0xAA \<or> code = 0xB6 then Shift_up
     else if 0x80 \<le> code then Released
     else if code = 0x2A \<or> code = 0x36 then Shift_down
     else if code = 0x1C then Enter
     else if code = 0x0E then Erase
     else Typed ((if upper then uppercase_map else scancode_map) ! unat code))"

text \<open>The words of the typed line; a key without a character leaves a zero byte, which ends the line.\<close>

definition input_words :: "u8 list \<Rightarrow> u8 list list" where
  "input_words inp = take 16 (words (take 255 (takeWhile (\<lambda>c. c \<noteq> 0) inp)))"

text \<open>
  A zero byte is remembered in the line but shows nothing; erasing takes one byte off the line and
  steps the terminal back.
\<close>

fun key_effect :: "pmm \<Rightarrow> ata_drive \<Rightarrow> key \<Rightarrow> session \<Rightarrow> session" where
  "key_effect p dr Shift_up s = s\<lparr>s_shift := False\<rparr>"
| "key_effect p dr Shift_down s = s\<lparr>s_shift := True\<rparr>"
| "key_effect p dr Released s = s"
| "key_effect p dr Enter s = s\<lparr>s_input := [],
    s_tty := t_print (bytes ''> '') (t_script (shell_plan p dr (input_words (s_input s))) (t_newline (s_tty s)))\<rparr>"
| "key_effect p dr Erase s =
    (if s_input s = [] then s else s\<lparr>s_input := butlast (s_input s), s_tty := t_backspace (s_tty s)\<rparr>)"
| "key_effect p dr (Typed c) s = s\<lparr>s_input := s_input s @ [c], s_tty := t_print (cstr [c]) (s_tty s)\<rparr>"

fun key_events :: "key \<Rightarrow> session \<Rightarrow> trace" where
  "key_events Enter s = reset_events (input_words (s_input s))"
| "key_events _ s = []"


section \<open>One key\<close>

lemma map_lengths [simp]: "length scancode_map = 58" "length uppercase_map = 58"
  by (simp_all add: scancode_map_def uppercase_map_def bytes_def)

lemma release_bit: "(code :: u8) AND 0x80 \<noteq> 0 \<longleftrightarrow> 0x80 \<le> code"
proof -
  have "code AND 0x80 = code AND push_bit 7 1" by simp
  also have "\<dots> \<noteq> 0 \<longleftrightarrow> bit code 7"
  proof
    assume "code AND push_bit 7 1 \<noteq> 0"
    then obtain n where "bit (code AND push_bit 7 1) n" by (metis bit_eqI bit_0_eq bot_apply bot_bool_def)
    then show "bit code 7" by (auto simp: bit_simps simp del: push_bit_of_1 split: if_splits)
  next
    assume "bit code 7"
    then have "bit (code AND push_bit 7 1) 7" by (simp add: bit_simps del: push_bit_of_1)
    then show "code AND push_bit 7 1 \<noteq> 0" by force
  qed
  also have "bit code 7 \<longleftrightarrow> bit (unat code) 7" by (simp add: bit_unsigned_iff)
  also have "\<dots> \<longleftrightarrow> odd (unat code div 2 ^ 7)" by (rule bit_iff_odd)
  also have "\<dots> \<longleftrightarrow> odd (unat code div 128)" by simp
  also have "\<dots> \<longleftrightarrow> 128 \<le> unat code"
  proof -
    have "unat code < 256" using unsigned_less [of code, where 'a = nat] by simp
    then have "unat code div 128 = (if 128 \<le> unat code then 1 else 0)" by auto
    then show ?thesis by simp
  qed
  finally show ?thesis by (simp add: word_le_nat_alt)
qed

lemma line_index:
  assumes "unat (n :: s32) \<le> 256"
  shows "sint n = int (unat n)" "int_inc n = Inr (n + 1)" "unat (n + 1) = unat n + 1"
proof -
  show s: "sint n = int (unat n)" using sint_of_nat_s32 [of "unat n"] assms by simp
  have "int (unat n) \<le> 256" using assms by linarith
  then have "sint n \<noteq> 2 ^ 31 - 1" unfolding s by auto
  then show "int_inc n = Inr (n + 1)" by (simp add: int_inc_def)
  show "unat (n + 1) = unat n + 1" using assms unat_add_u32 [of n 1] by simp
qed

lemma store_line_ok:
  assumes "kbd_ok kb" and "unat i < 256"
  shows "store_line i v kb = Inr (kb\<lparr>line := (line kb)[unat i := v]\<rparr>)"
  using assms line_index(1) [of i] by (simp add: store_line_def kbd_ok_def)

text \<open>What the keys do to the driver's own variables, given that the console and the shell return.\<close>

lemma key_char_runs:
  assumes "kbd_ok (k_kbd k)" and "code < 58" and "unat (line_len (k_kbd k)) < 256"
    and "c = (if shift (k_kbd k) \<noteq> 0 then uppercase_map else scancode_map) ! unat code"
    and "fb_print [c, 0] (k_screen k) = Inr st"
  obtains kb where "key_char code k = Inr (k\<lparr>k_kbd := kb, k_screen := st\<rparr>)" "kbd_ok kb"
    "kbd_input kb = kbd_input (k_kbd k) @ [c]" "shift kb = shift (k_kbd k)" "stopped kb = stopped (k_kbd k)"
proof -
  let ?kb = "k_kbd k"
  have map: "fetch (if shift ?kb \<noteq> 0 then uppercase_map else scancode_map) (unat code) = Inr c"
    using assms(2,4) by (simp add: word_less_nat_alt)
  define kb where "kb = ?kb\<lparr>line := (line ?kb)[unat (line_len ?kb) := c], line_len := line_len ?kb + 1\<rparr>"
  note len = line_index [of "line_len ?kb"]
  have "key_char code k = Inr (k\<lparr>k_kbd := kb, k_screen := st\<rparr>)"
    using map store_line_ok [OF assms(1,3)] len(2) assms(3,5) by (simp add: key_char_def kb_def Let_def)
  moreover have "kbd_ok kb" "kbd_input kb = kbd_input ?kb @ [c]"
    using assms(1,3) len(3) by (simp_all add: kbd_ok_def kb_def kbd_input_def take_Suc_conv_app_nth take_update_cancel)
  ultimately show thesis by (rule that) (simp_all add: kb_def)
qed

lemma key_char_ok:
  assumes "kernel_ok k" and "code < 58" and "unat (line_len (k_kbd k)) < 256"
  shows "\<exists>k'. key_char code k = Inr k' \<and> kernel_ok k' \<and> undisturbed k k' \<and> k_ports k' = k_ports k \<and> session_of k' =
    key_effect p dr (Typed ((if shift (k_kbd k) \<noteq> 0 then uppercase_map else scancode_map) ! unat code)) (session_of k)"
proof -
  define c where "c = (if shift (k_kbd k) \<noteq> 0 then uppercase_map else scancode_map) ! unat code"
  have ok: "fb_ok (k_screen k)" "kbd_ok (k_kbd k)" using assms(1) by (simp_all add: kernel_ok_def)
  obtain st where st: "fb_print [c, 0] (k_screen k) = Inr st" "fb_ok st"
    "tty_of st = t_print (cstr [c]) (tty_of (k_screen k))" "evolves (k_screen k) st"
    using fbc.print_does [OF ok(1), of "[c, 0]"] by (auto simp: does_def ok_r_iff fb_keeps_def terminated_def cstr_def)
  show ?thesis
    by (rule key_char_runs [OF ok(2) assms(2,3) c_def st(1)])
      (use assms(1) st in \<open>simp add: kernel_ok_def session_of_def undisturbed_def flip: c_def\<close>)
qed

lemma key_backspace_runs:
  assumes "kbd_ok (k_kbd k)" and "line_len (k_kbd k) \<noteq> 0"
  obtains kb where "key_backspace k = k\<lparr>k_kbd := kb, k_screen := fb_backspace (k_screen k)\<rparr>" "kbd_ok kb"
    "kbd_input (k_kbd k) \<noteq> []" "kbd_input kb = butlast (kbd_input (k_kbd k))" "shift kb = shift (k_kbd k)"
    "stopped kb = stopped (k_kbd k)"
proof -
  let ?kb = "k_kbd k"
  have ok: "unat (line_len ?kb) \<le> 256" "length (line ?kb) = 256" using assms(1) by (simp_all add: kbd_ok_def)
  have pos: "0 < unat (line_len ?kb)" using assms(2) by (simp add: unat_gt_0)
  then have less: "unat (line_len ?kb - 1) = unat (line_len ?kb) - 1"
    using unat_sub_u32 [of 1 "line_len ?kb"] by (simp add: word_le_nat_alt)
  have "0 < sint (line_len ?kb)" using pos line_index(1) [OF ok(1)] by linarith
  then have "key_backspace k = k\<lparr>k_kbd := ?kb\<lparr>line_len := line_len ?kb - 1\<rparr>, k_screen := fb_backspace (k_screen k)\<rparr>"
    by (simp add: key_backspace_def Let_def)
  moreover have "unat (line_len ?kb - 1) \<le> 256" unfolding less using ok(1) by linarith
  then have "kbd_ok (?kb\<lparr>line_len := line_len ?kb - 1\<rparr>)" using ok(2) by (simp add: kbd_ok_def)
  moreover have "kbd_input ?kb \<noteq> []" "kbd_input (?kb\<lparr>line_len := line_len ?kb - 1\<rparr>) = butlast (kbd_input ?kb)"
    using less pos ok by (auto simp: kbd_input_def butlast_take)
  ultimately show thesis by (rule that) simp_all
qed

lemma key_backspace_idle: "line_len (k_kbd k) = 0 \<Longrightarrow> key_backspace k = k \<and> kbd_input (k_kbd k) = []"
  by (simp add: key_backspace_def kbd_input_def Let_def)

lemma key_backspace_ok:
  assumes "kernel_ok k"
  shows "kernel_ok (key_backspace k) \<and> undisturbed k (key_backspace k) \<and> k_ports (key_backspace k) = k_ports k
    \<and> session_of (key_backspace k) = key_effect p dr Erase (session_of k)"
proof (cases "line_len (k_kbd k) = 0")
  case True
  then show ?thesis using assms key_backspace_idle [OF True] by (simp add: session_of_def undisturbed_refl)
next
  case False
  have ok: "fb_ok (k_screen k)" "kbd_ok (k_kbd k)" using assms by (simp_all add: kernel_ok_def)
  have "console_step t_backspace (k_screen k) (fb_backspace (k_screen k))"
    using ok(1) unfolding fb_ok_def by (rule backspace_step)
  then have "fb_ok (fb_backspace (k_screen k))" "tty_of (fb_backspace (k_screen k)) = t_backspace (tty_of (k_screen k))"
    "evolves (k_screen k) (fb_backspace (k_screen k))"
    by (simp_all add: console_step_def fb_ok_def)
  with assms show ?thesis
    by (cases rule: key_backspace_runs [OF ok(2) False]) (simp add: kernel_ok_def session_of_def undisturbed_def)
qed

lemma key_enter_runs:
  assumes "kbd_ok (k_kbd k)" and "unat (line_len (k_kbd k)) < 256"
    and "fb_erase_cursor (k_screen k) = e" and "int_inc (fb_get_row e) = Inr r" and "fb_set_row r e = Inr s1"
    and "\<And>line. terminated line \<Longrightarrow> take 16 (words (take 255 (cstr line))) = input_words (kbd_input (k_kbd k)) \<Longrightarrow>
      \<exists>buf s2 s3. shell_exec (k_pages k) (k_disk k) junk line (k_shell k, fb_set_col 0 s1, k_ports k) = Inr (buf, s2, tr)
        \<and> fb_print (lit ''> '') s2 = Inr s3 \<and> P buf (fb_draw_cursor s3)"
  obtains kb buf st where "key_enter junk k = Inr (k\<lparr>k_screen := st, k_kbd := kb, k_shell := buf, k_ports := tr\<rparr>)" "P buf st"
    "kbd_ok kb" "kbd_input kb = []" "shift kb = shift (k_kbd k)" "stopped kb = stopped (k_kbd k)"
proof -
  let ?kb = "k_kbd k"
  define kb where "kb = ?kb\<lparr>line := (line ?kb)[unat (line_len ?kb) := 0], line_len := 0\<rparr>"
  note stored = store_line_ok [OF assms(1,2), of 0]
  have len: "length (line ?kb) = 256" using assms(1) by (simp add: kbd_ok_def)
  have split: "line kb = kbd_input ?kb @ 0 # drop (unat (line_len ?kb) + 1) (line ?kb)"
    using assms(2) len by (simp add: kb_def kbd_input_def upd_conv_take_nth_drop)
  have "terminated (line kb)" by (simp add: split)
  moreover have "take 16 (words (take 255 (cstr (line kb)))) = input_words (kbd_input ?kb)"
    unfolding split input_words_def cstr_cut ..
  ultimately obtain buf s2 s3 where run: "P buf (fb_draw_cursor s3)" "fb_print (lit ''> '') s2 = Inr s3"
    "shell_exec (k_pages k) (k_disk k) junk (line kb) (k_shell k, fb_set_col 0 s1, k_ports k) = Inr (buf, s2, tr)"
    using assms(6) by blast
  have "key_enter junk k = Inr (k\<lparr>k_screen := fb_draw_cursor s3, k_kbd := kb, k_shell := buf, k_ports := tr\<rparr>)"
    using assms(3-5) stored run(2,3) by (simp add: key_enter_def Let_def kb_def)
  from that [OF this run(1)] show thesis using len by (simp add: kb_def kbd_ok_def kbd_input_def)
qed

lemma key_enter_ok:
  assumes "kernel_ok k" and "unat (line_len (k_kbd k)) < 256" and "length junk = 16"
  shows "\<exists>k'. key_enter junk k = Inr k' \<and> kernel_ok k' \<and> undisturbed k k'
    \<and> k_ports k' = k_ports k @ key_events Enter (session_of k)
    \<and> session_of k' = key_effect (k_pages k) (k_disk k) Enter (session_of k)"
proof -
  let ?e = "fb_erase_cursor (k_screen k)" and ?words = "input_words (kbd_input (k_kbd k))"
  let ?tty = "t_print (bytes ''> '') (t_script (shell_plan (k_pages k) (k_disk k) ?words) (t_newline (tty_of (k_screen k))))"
  have ok: "fb_ok (k_screen k)" "kbd_ok (k_kbd k)" "length (k_shell k) = 256" "shell_data_ok (k_pages k) (k_disk k)"
    using assms(1) by (simp_all add: kernel_ok_def)
  note er = erase_cursor_ok [OF ok(1) [unfolded fb_ok_def]]
  obtain s1 where s1: "fb_set_row (cur_row ?e + 1) ?e = Inr s1" "screen_ok {} (fb_set_col 0 s1)"
    "tty_of (fb_set_col 0 s1) = t_newline (tty_of (k_screen k))" "evolves (k_screen k) (fb_set_col 0 s1)"
    using newline_ok [of ?e] er by (auto intro: evolves_trans)
  have "unat (cur_row ?e) \<le> 64"
    using er by (auto simp: screen_ok_def grid_ok_def screen_mode_def word_less_nat_alt)
  then have row: "int_inc (fb_get_row ?e) = Inr (cur_row ?e + 1)"
    using line_index(2) [of "cur_row ?e"] by (simp add: fb_get_row_def)
  have fb: "fb_ok (fb_set_col 0 s1)" unfolding fb_ok_def using s1(2) by (rule screen_ok_mono) simp
  have shell: "\<exists>buf s2 s3. shell_exec (k_pages k) (k_disk k) junk line (k_shell k, fb_set_col 0 s1, k_ports k)
      = Inr (buf, s2, k_ports k @ reset_events ?words) \<and> fb_print (lit ''> '') s2 = Inr s3
    \<and> (length buf = 256 \<and> fb_ok (fb_draw_cursor s3) \<and> tty_of (fb_draw_cursor s3) = ?tty \<and> evolves (k_screen k) (fb_draw_cursor s3))"
    if line: "terminated line" "take 16 (words (take 255 (cstr line))) = ?words" for line
  proof -
    obtain buf s2 where s2: "shell_exec (k_pages k) (k_disk k) junk line (k_shell k, fb_set_col 0 s1, k_ports k)
        = Inr (buf, s2, k_ports k @ reset_events ?words)" "length buf = 256" "fb_ok s2"
      "tty_of s2 = t_script (shell_plan (k_pages k) (k_disk k) ?words) (tty_of (fb_set_col 0 s1))" "evolves (fb_set_col 0 s1) s2"
      using shell_exec_does [OF fb line(1) ok(3) assms(3) ok(4), of "k_ports k"] line(2) by (auto simp: fb_keeps_def)
    obtain s3 where s3: "fb_print (lit ''> '') s2 = Inr s3" "fb_ok s3" "tty_of s3 = t_print (bytes ''> '') (tty_of s2)" "evolves s2 s3"
      using fbc.print_does [OF s2(3), of "lit ''> ''"] by (auto simp: does_def ok_r_iff fb_keeps_def)
    have draw: "fb_ok (fb_draw_cursor s3)" "tty_of (fb_draw_cursor s3) = tty_of s3" "evolves s3 (fb_draw_cursor s3)"
      using draw_cursor_ok [OF s3(2) [unfolded fb_ok_def]] tty_of_fields(6) [of "fb_draw_cursor s3" s3]
      by (simp_all add: fb_ok_def)
    have "evolves (k_screen k) (fb_draw_cursor s3)"
      using evolves_trans [OF evolves_trans [OF s1(4) s2(5)] evolves_trans [OF s3(4) draw(3)]] .
    with s2 s3 draw s1(3) show ?thesis by auto
  qed
  show ?thesis
    by (rule key_enter_runs [OF ok(2) assms(2) refl row s1(1) shell]) 
      (use ok in \<open>auto simp: kernel_ok_def session_of_def undisturbed_def\<close>)
qed


section \<open>The handler\<close>

definition irq1_events :: "u8 \<Rightarrow> trace" where
  "irq1_events code = [In8 0x60 code, Out8 0x20 0x20, Out8 0x80 0]"

lemma pic_eoi_low: "sint irq \<le> 7 \<Longrightarrow> pic_eoi irq tr = tr @ [Out8 0x20 0x20, Out8 0x80 0]"
  by (simp add: pic_eoi_def port_defs Let_def)

text \<open>The keys that write to the line buffer; the codes outside the two tables.\<close>

definition writes_line :: "key \<Rightarrow> bool" where
  "writes_line ky \<longleftrightarrow> ky = Enter \<or> (\<exists>c. ky = Typed c)"

definition off_map :: "u8 \<Rightarrow> bool" where
  "off_map code \<longleftrightarrow> 58 \<le> code \<and> code < 0x80"

definition pressed :: "device \<Rightarrow> kernel \<Rightarrow> u8" where
  "pressed d k = dev_in8 d (k_ports k) 0x60"

definition pressed_key :: "device \<Rightarrow> kernel \<Rightarrow> key" where
  "pressed_key d k = key_of (s_shift (session_of k)) (pressed d k)"

lemma input_length: "kbd_ok kb \<Longrightarrow> length (kbd_input kb) = unat (line_len kb)"
  by (simp add: kbd_input_def kbd_ok_def)

lemma handler_cases:
  assumes "stopped (k_kbd k) = 0"
  shows "keyboard_handler d junk k =
    (let k1 = k\<lparr>k_ports := k_ports k @ irq1_events (pressed d k)\<rparr>;
         k2 = k1\<lparr>k_screen := fb_cursor_activity (k_ticks k) (k_screen k)\<rparr>
     in case pressed_key d k of
          Shift_up \<Rightarrow> Inr (k1\<lparr>k_kbd := (k_kbd k)\<lparr>shift := 0\<rparr>\<rparr>)
        | Released \<Rightarrow> Inr k1
        | Shift_down \<Rightarrow> Inr (k2\<lparr>k_kbd := (k_kbd k)\<lparr>shift := 1\<rparr>\<rparr>)
        | Enter \<Rightarrow> key_enter junk k2
        | Erase \<Rightarrow> Inr (key_backspace k2)
        | Typed c \<Rightarrow> key_char (pressed d k) k2)"
proof -
  have "pic_eoi 1 (k_ports k @ [In8 0x60 (pressed d k)]) = k_ports k @ irq1_events (pressed d k)"
    by (simp add: pic_eoi_low irq1_events_def)
  then show ?thesis
    using assms
    by (simp add: keyboard_handler_def inb_def release_bit key_of_def pit_get_ticks_def Let_def
        flip: pressed_def) (simp add: pressed_key_def key_of_def release_bit)
qed

lemma keyboard_handler_ok:
  assumes "kernel_ok k" and "stopped (k_kbd k) = 0" and "length junk = 16" and "\<not> off_map (pressed d k)"
    and "writes_line (pressed_key d k) \<Longrightarrow> length (s_input (session_of k)) < 256"
  shows "\<exists>k'. keyboard_handler d junk k = Inr k' \<and> kernel_ok k' \<and> undisturbed k k'
    \<and> session_of k' = key_effect (k_pages k) (k_disk k) (pressed_key d k) (session_of k)
    \<and> k_ports k' = k_ports k @ irq1_events (pressed d k) @ key_events (pressed_key d k) (session_of k)"
proof -
  let ?k1 = "k\<lparr>k_ports := k_ports k @ irq1_events (pressed d k)\<rparr>"
  let ?k2 = "?k1\<lparr>k_screen := fb_cursor_activity (k_ticks k) (k_screen k)\<rparr>"
  have ok: "kernel_ok ?k1" "kernel_ok ?k2" "session_of ?k1 = session_of k" "session_of ?k2 = session_of k"
    using assms(1) by (simp_all add: kernel_ok_def session_of_def)
  have calm: "undisturbed k k'" if "undisturbed ?k1 k' \<or> undisturbed ?k2 k'" for k'
    using that by (auto simp: undisturbed_def)
  have room: "unat (line_len (k_kbd k)) < 256" if "writes_line (pressed_key d k)"
    using assms(5) [OF that] input_length [of "k_kbd k"] assms(1) by (simp add: session_of_def kernel_ok_def)
  show ?thesis
  proof (cases "pressed_key d k")
    case Enter
    then have "unat (line_len (k_kbd ?k2)) < 256" using room by (simp add: writes_line_def)
    from key_enter_ok [OF ok(2) this assms(3)] show ?thesis
      using Enter ok(4) calm by (auto simp: handler_cases [OF assms(2)])
  next
    case Erase
    from key_backspace_ok [OF ok(2)] show ?thesis
      using Erase ok(4) calm by (auto simp: handler_cases [OF assms(2)])
  next
    case (Typed c)
    have "unat (line_len (k_kbd ?k2)) < 256" using room Typed by (simp add: writes_line_def)
    moreover have code: "pressed d k < 58"
      "c = (if shift (k_kbd k) \<noteq> 0 then uppercase_map else scancode_map) ! unat (pressed d k)"
      using Typed assms(4) by (auto simp: pressed_key_def key_of_def off_map_def session_of_def split: if_splits)
    ultimately show ?thesis
      using key_char_ok [OF ok(2) code(1), of "k_pages k" "k_disk k"] Typed ok(4) calm
      by (auto simp: handler_cases [OF assms(2)])
  next
    case Shift_up
    then show ?thesis using assms(1)
      by (simp add: handler_cases [OF assms(2)] Let_def session_of_def kernel_ok_def kbd_ok_def kbd_input_def undisturbed_def)
  next
    case Shift_down
    then show ?thesis using assms(1)
      by (simp add: handler_cases [OF assms(2)] Let_def session_of_def kernel_ok_def kbd_ok_def kbd_input_def undisturbed_def)
  next
    case Released
    then show ?thesis using ok by (simp add: handler_cases [OF assms(2)] Let_def undisturbed_def)
  qed
qed

text \<open>Where the handler leaves its arrays.\<close>

lemma keyboard_handler_fails:
  assumes "kernel_ok k" and "stopped (k_kbd k) = 0"
    and "off_map (pressed d k) \<or> writes_line (pressed_key d k) \<and> length (s_input (session_of k)) = 256"
  shows "keyboard_handler d junk k = Inl Out_of_bounds"
proof -
  let ?k2 = "k\<lparr>k_ports := k_ports k @ irq1_events (pressed d k), k_screen := fb_cursor_activity (k_ticks k) (k_screen k)\<rparr>"
  show ?thesis
  proof (cases "off_map (pressed d k)")
    case True
    then have "58 \<le> unat (pressed d k)" "\<exists>c. pressed_key d k = Typed c"
      by (auto simp: off_map_def pressed_key_def key_of_def word_le_nat_alt word_less_nat_alt)
    then show ?thesis by (auto simp: handler_cases [OF assms(2)] Let_def key_char_def)
  next
    case False
    then have key: "writes_line (pressed_key d k)" and "length (s_input (session_of k)) = 256" using assms(3) by auto
    then have full: "unat (line_len (k_kbd k)) = 256"
      using input_length [of "k_kbd k"] assms(1) by (simp add: session_of_def kernel_ok_def)
    then have "store_line (line_len (k_kbd k)) v kb = Inl Out_of_bounds" if "length (line kb) = 256" for v kb
      using line_index(1) [of "line_len (k_kbd k)"] that by (simp add: store_line_def)
    moreover have len: "length (line (k_kbd k)) = 256" using assms(1) by (simp add: kernel_ok_def kbd_ok_def)
    ultimately have oob: "store_line (line_len (k_kbd k)) v (k_kbd k) = Inl Out_of_bounds" for v by blast
    show ?thesis
    proof (cases "pressed_key d k = Enter")
      case True
      have "kernel_ok ?k2" using assms(1) by (simp add: kernel_ok_def)
      let ?e = "fb_erase_cursor (k_screen ?k2)"
      have er: "screen_ok {} ?e" using erase_cursor_ok [of "k_screen ?k2"] \<open>kernel_ok ?k2\<close> by (simp add: kernel_ok_def fb_ok_def)
      then have "unat (cur_row ?e) \<le> 64" by (auto simp: screen_ok_def grid_ok_def screen_mode_def word_less_nat_alt)
      then have "int_inc (fb_get_row ?e) = Inr (cur_row ?e + 1)"
        using line_index(2) [of "cur_row ?e"] by (simp add: fb_get_row_def)
      moreover obtain s1 where "fb_set_row (cur_row ?e + 1) ?e = Inr s1" using newline_ok [OF er] by blast
      ultimately have "key_enter junk ?k2 = Inl Out_of_bounds" using oob by (simp add: key_enter_def Let_def)
      with True show ?thesis by (simp add: handler_cases [OF assms(2)] Let_def)
    next
      case no_enter: False
      then obtain c where c: "pressed_key d k = Typed c" using key by (auto simp: writes_line_def)
      then have "unat (pressed d k) < 58" using False
        by (auto simp: off_map_def pressed_key_def key_of_def word_le_nat_alt word_less_nat_alt split: if_splits)
      then have "key_char (pressed d k) ?k2 = Inl Out_of_bounds" using oob by (simp add: key_char_def Let_def)
      with c show ?thesis by (simp add: handler_cases [OF assms(2)] Let_def)
    qed
  qed
qed


text \<open>
  C3: The keyboard handler implements the editing session. In a kernel in order, for a key of the
  tables (or a release) and a line with room if the key writes to it, the handler returns; the
  session afterwards is the one before with the effect of the key, where Enter executes the typed
  words through the shell; the port trace shows the read of the code, one end of interrupt to the master
  controller, and nothing else but a requested reset; all other components and the memory outside the
  framebuffer are undisturbed, and the kernel is in order again.
\<close>

theorem keyboard_handler_refines:
  assumes "kernel_ok k" and "stopped (k_kbd k) = 0" and "length junk = 16"
    and "\<not> off_map (pressed d k)" and "writes_line (pressed_key d k) \<Longrightarrow> length (s_input (session_of k)) < 256"
  shows "\<exists>k'. keyboard_handler d junk k = Inr k' \<and> kernel_ok k' \<and> undisturbed k k'
    \<and> session_of k' = key_effect (k_pages k) (k_disk k) (pressed_key d k) (session_of k)
    \<and> k_ports k' = k_ports k @ [In8 0x60 (pressed d k), Out8 0x20 0x20, Out8 0x80 0]
        @ key_events (pressed_key d k) (session_of k)"
  using keyboard_handler_ok [OF assms] by (auto simp: irq1_events_def)

text \<open>A keyboard that answers every read with one code.\<close>

definition press :: "u8 \<Rightarrow> device" where
  "press code = \<lparr>dev_in8 = (\<lambda>tr port. code), dev_in16 = (\<lambda>tr port. 0)\<rparr>"

lemma pressed_press [simp]: "pressed (press code) k = code"
  by (simp add: pressed_def press_def)

theorem keyboard_handler_refines_witness:
  "\<exists>k'. keyboard_handler (press 0x32) (replicate 16 0) sample_kernel = Inr k' \<and> kernel_ok k'
    \<and> s_input (session_of k') = [109]"
proof -
  have s: "s_shift (session_of sample_kernel) = False" "s_input (session_of sample_kernel) = []"
    "stopped (k_kbd sample_kernel) = 0"
    by (simp_all add: session_of_def sample_kernel_def kbd_boot_def kbd_input_def)
  have "pressed_key (press 0x32) sample_kernel = Typed 109"
    by (simp add: pressed_key_def s key_of_def scancode_map_def bytes_def)
  with keyboard_handler_refines [OF sample_kernel_ok s(3), of "replicate 16 0" "press 0x32"] s(2) show ?thesis
    by (auto simp: off_map_def)
qed

text \<open>
  C23: The handler leaves its arrays exactly when the code is 58 to 127 (there is no entry in the 58-byte
  tables) or the line already holds 256 characters and the key writes to it.
\<close>

theorem keyboard_handler_overflow:
  assumes "kernel_ok k" and "stopped (k_kbd k) = 0" and "length junk = 16"
  shows "keyboard_handler d junk k = Inl Out_of_bounds \<longleftrightarrow>
    off_map (pressed d k) \<or> writes_line (pressed_key d k) \<and> length (s_input (session_of k)) = 256"
proof -
  have "length (s_input (session_of k)) \<le> 256" by (simp add: session_of_def kbd_input_def min_def)
    (use assms(1) in \<open>auto simp: kernel_ok_def kbd_ok_def\<close>)
  then show ?thesis
    using keyboard_handler_fails [OF assms(1,2)] keyboard_handler_ok [OF assms, of d] by fastforce
qed

theorem keyboard_handler_overflow_witness:
  "keyboard_handler (press 0x3B) (replicate 16 0) sample_kernel = Inl Out_of_bounds"
proof -
  have "stopped (k_kbd sample_kernel) = 0" by (simp add: sample_kernel_def kbd_boot_def)
  from keyboard_handler_overflow [OF sample_kernel_ok this, of "replicate 16 0" "press 0x3B"]
  show ?thesis by (simp add: off_map_def)
qed

section \<open>Typing a line\<close>

definition press_all :: "u8 list \<Rightarrow> u8 list \<Rightarrow> kernel \<Rightarrow> kernel result" where
  "press_all junk codes = seq_r (map (\<lambda>code. keyboard_handler (press code) junk) codes)"

definition types :: "bool \<Rightarrow> u8 list \<Rightarrow> u8 list \<Rightarrow> bool" where
  "types upper = list_all2 (\<lambda>code c. key_of upper code = Typed c \<and> c \<noteq> 0 \<and> code < 58)"

lemma t_print_append: "t_print (s @ s') t = t_print s' (t_print s t)"
  by (simp add: t_print_def)

lemma typing_ok:
  assumes "kernel_ok k" and "stopped (k_kbd k) = 0" and "length junk = 16"
    and "types (s_shift (session_of k)) codes cs" and "length (s_input (session_of k)) + length cs \<le> 256"
  shows "\<exists>k'. press_all junk codes k = Inr k' \<and> kernel_ok k' \<and> undisturbed k k'
    \<and> session_of k' = (session_of k)\<lparr>s_input := s_input (session_of k) @ cs, s_tty := t_print cs (s_tty (session_of k))\<rparr>"
  using assms
proof (induction codes arbitrary: k cs)
  case Nil
  then show ?case by (simp add: types_def press_all_def t_print_def undisturbed_refl)
next
  case (Cons code codes)
  then obtain c cs' where cs: "cs = c # cs'" and c: "key_of (s_shift (session_of k)) code = Typed c" "c \<noteq> 0" "code < 58"
    and rest: "types (s_shift (session_of k)) codes cs'"
    by (auto simp: types_def list_all2_Cons1)
  have "pressed_key (press code) k = Typed c" using c(1) by (simp add: pressed_key_def)
  moreover have "\<not> off_map code" using c(3) by (simp add: off_map_def word_less_nat_alt word_le_nat_alt)
  ultimately obtain k1 where k1: "keyboard_handler (press code) junk k = Inr k1" "kernel_ok k1" "undisturbed k k1"
    "session_of k1 = key_effect (k_pages k) (k_disk k) (Typed c) (session_of k)"
    using keyboard_handler_ok [OF Cons.prems(1-3), of "press code"] Cons.prems(5) cs by auto
  have "stopped (k_kbd k1) = 0" using k1(3) Cons.prems(2) by (simp add: undisturbed_def)
  with Cons.IH [OF k1(2) _ Cons.prems(3), of cs'] k1(4) rest Cons.prems(5) cs obtain k2 where
    k2: "press_all junk codes k1 = Inr k2" "kernel_ok k2" "undisturbed k1 k2"
      "session_of k2 = (session_of k1)\<lparr>s_input := s_input (session_of k1) @ cs', s_tty := t_print cs' (s_tty (session_of k1))\<rparr>"
    by auto
  have "press_all junk (code # codes) k = Inr k2" using k1(1) k2(1) by (simp add: press_all_def)
  moreover have "session_of k2 = (session_of k)\<lparr>s_input := s_input (session_of k) @ cs, s_tty := t_print cs (s_tty (session_of k))\<rparr>"
    using k2(4) k1(4) c(2) cs t_print_append [of "[c]" cs'] by (simp add: cstr_def)
  ultimately show ?case using k2(2) undisturbed_trans [OF k1(3) k2(3)] by blast
qed

lemma types_words:
  assumes "types upper codes cs" and "length cs \<le> 255"
  shows "input_words cs = take 16 (words cs)"
proof -
  have "\<forall>c \<in> set cs. c \<noteq> 0" using assms(1) by (auto simp: types_def list_all2_conv_all_nth in_set_conv_nth)
  then have "takeWhile (\<lambda>c. c \<noteq> 0) cs = cs" by (simp add: takeWhile_eq_all_conv)
  then have "input_words cs = take 16 (words (take 255 cs))" by (simp only: input_words_def)
  then show ?thesis using assms(2) by simp
qed

text \<open>
  A typed line is executed. From an empty line, pressing the keys of at most 255 characters and
  then Enter leads to the terminal on which those characters were typed, a new row was started, the
  shell's command table was applied to the words of exactly that text, and the prompt was printed.
\<close>

theorem typed_line_executes:
  assumes "kernel_ok k" and "stopped (k_kbd k) = 0" and "length junk = 16" and "s_input (session_of k) = []"
    and "types (s_shift (session_of k)) codes cs" and "length cs \<le> 255"
  shows "\<exists>k'. press_all junk (codes @ [0x1C]) k = Inr k' \<and> kernel_ok k' \<and> s_input (session_of k') = []
    \<and> tty_of (k_screen k') = t_print (bytes ''> '')
        (t_script (shell_plan (k_pages k) (k_disk k) (take 16 (words cs))) (t_newline (t_print cs (tty_of (k_screen k)))))"
proof -
  obtain k1 where k1: "press_all junk codes k = Inr k1" "kernel_ok k1" "undisturbed k k1"
    "session_of k1 = (session_of k)\<lparr>s_input := cs, s_tty := t_print cs (s_tty (session_of k))\<rparr>"
    using typing_ok [OF assms(1-3,5)] assms(4,6) by auto
  have enter: "pressed_key (press 0x1C) k1 = Enter" "stopped (k_kbd k1) = 0" "\<not> off_map 0x1C"
    using k1(3) assms(2) by (simp_all add: pressed_key_def key_of_def undisturbed_def off_map_def)
  obtain k2 where k2: "keyboard_handler (press 0x1C) junk k1 = Inr k2" "kernel_ok k2"
    "session_of k2 = key_effect (k_pages k1) (k_disk k1) Enter (session_of k1)"
    using keyboard_handler_ok [OF k1(2) enter(2) assms(3), of "press 0x1C"] enter k1(4) assms(6) by auto
  have "input_words cs = take 16 (words cs)" by (rule types_words [OF assms(5,6)])
  moreover have "press_all junk (codes @ [0x1C]) k = Inr k2"
    using k1(1) k2(1) by (simp add: press_all_def seq_r_append)
  ultimately show ?thesis
    using k2 k1(3,4) by (auto simp: session_of_def undisturbed_def)
qed

theorem typed_line_executes_witness:
  "\<exists>k'. press_all (replicate 16 0) [0x2E, 0x26, 0x12, 0x1E, 0x13, 0x1C] sample_kernel = Inr k'
    \<and> tty_of (k_screen k') = t_print (bytes ''> '') (t_clear (t_newline (t_print (bytes ''clear'') (tty_of sample_fb))))"
proof -
  have s: "s_input (session_of sample_kernel) = []" "stopped (k_kbd sample_kernel) = 0"
    "s_shift (session_of sample_kernel) = False" "k_screen sample_kernel = sample_fb"
    by (simp_all add: session_of_def sample_kernel_def kbd_boot_def kbd_input_def)
  have "types False [0x2E, 0x26, 0x12, 0x1E, 0x13] (bytes ''clear'')"
    by (simp add: types_def key_of_def scancode_map_def bytes_def)
  moreover have "words (bytes ''clear'') = [bytes ''clear'']"
    by (simp add: bytes_def words.simps)
  moreover have "t_script (shell_plan p dr [bytes ''clear'']) t = t_clear t" for p dr t
    by (simp add: shell_plan_def t_script_def)
  ultimately show ?thesis
    using typed_line_executes [OF sample_kernel_ok s(2) _ s(1), of "replicate 16 0" "[0x2E, 0x26, 0x12, 0x1E, 0x13]" "bytes ''clear''"] s
    by (auto simp: bytes_def)
qed

text \<open>
  Typing can leave the line buffer: 257 character keys in a row, starting from an empty line, end in a write behind the
  256 bytes of \<open>line\<close>.
\<close>

theorem typing_overflows:
  assumes "kernel_ok k" and "stopped (k_kbd k) = 0" and "length junk = 16" and "s_input (session_of k) = []"
    and "types (s_shift (session_of k)) codes cs" and "length codes = 257"
  shows "press_all junk codes k = Inl Out_of_bounds"
proof -
  have len: "length cs = 257" using assms(5,6) by (auto simp: types_def dest: list_all2_lengthD)
  have split: "codes = take 256 codes @ [codes ! 256]" using assms(6) by (simp add: take_Suc_conv_app_nth [symmetric])
  have "types (s_shift (session_of k)) (take 256 codes) (take 256 cs)"
    using assms(5) unfolding types_def by (rule list_all2_takeI)
  then obtain k1 where k1: "press_all junk (take 256 codes) k = Inr k1" "kernel_ok k1" "undisturbed k k1"
    "session_of k1 = (session_of k)\<lparr>s_input := take 256 cs, s_tty := t_print (take 256 cs) (s_tty (session_of k))\<rparr>"
    using typing_ok [OF assms(1-3), of "take 256 codes" "take 256 cs"] assms(4) len by auto
  have "key_of (s_shift (session_of k)) (codes ! 256) = Typed (cs ! 256)"
    using assms(5,6) len by (auto simp: types_def list_all2_conv_all_nth)
  then have "writes_line (pressed_key (press (codes ! 256)) k1)" using k1(4) by (simp add: pressed_key_def writes_line_def)
  moreover have "stopped (k_kbd k1) = 0" using k1(3) assms(2) by (simp add: undisturbed_def)
  ultimately have "keyboard_handler (press (codes ! 256)) junk k1 = Inl Out_of_bounds"
    using keyboard_handler_fails [OF k1(2), of "press (codes ! 256)" junk] k1(4) len by simp
  with k1(1) show ?thesis by (subst split) (simp add: press_all_def seq_r_append)
qed

theorem typing_overflows_witness:
  "press_all (replicate 16 0) (replicate 257 0x1E) sample_kernel = Inl Out_of_bounds"
proof -
  have s: "s_input (session_of sample_kernel) = []" "stopped (k_kbd sample_kernel) = 0"
    "s_shift (session_of sample_kernel) = False"
    by (simp_all add: session_of_def sample_kernel_def kbd_boot_def kbd_input_def)
  have "key_of False 0x1E = Typed 97" by (simp add: key_of_def scancode_map_def bytes_def)
  then have "types False (replicate 257 0x1E) (replicate 257 97)"
    by (simp add: types_def list_all2_conv_all_nth)
  with typing_overflows [OF sample_kernel_ok s(2) _ s(1), of "replicate 16 0"] s(3) show ?thesis by simp
qed

end
