(* ===== verification/Interrupts.thy ===== *)
theory Interrupts
  imports Keyboard
begin

text \<open>
  The common interrupt handler (\<open>isr_handler\<close> in \<open>idt.c\<close>): keyboard, timer, page fault and the other
  exceptions; and the running kernel as a system of interrupts, with its invariant.
\<close>

section \<open>The handler (idt.c)\<close>

text \<open>\<open>buf\<close> is the uninitialised local \<open>buf[20]\<close>; the fault address is the processor's register \<open>cr2\<close>.\<close>

definition report_page_fault :: "u64 \<Rightarrow> u8 list \<Rightarrow> fb \<Rightarrow> fb result" where
  "report_page_fault fault_addr buf st =
    bind_r (write_fb (fb_get_row st) 0 (lit ''Page fault at: '') FB_WHITE FB_BLACK st) (\<lambda>st.
    bind_r (addr_to_str fault_addr buf) (\<lambda>buf.
    bind_r (write_fb (fb_get_row st) 15 buf FB_WHITE FB_BLACK st) (\<lambda>st.
    bind_r (int_inc (fb_get_row st)) (\<lambda>row. fb_set_row row st))))"

definition report_exception :: "s32 \<Rightarrow> s32 \<Rightarrow> u8 list \<Rightarrow> fb \<Rightarrow> fb result" where
  "report_exception int_num code buf st =
    bind_r (write_fb (fb_get_row st) 0 (lit ''CPU interrupt: '') FB_WHITE FB_BLACK st) (\<lambda>st.
    bind_r (int_to_str int_num buf) (\<lambda>buf.
    bind_r (write_fb (fb_get_row st) 15 buf FB_WHITE FB_BLACK st) (\<lambda>st.
    bind_r (write_fb (fb_get_row st) 18 (lit ''code: '') FB_WHITE FB_BLACK st) (\<lambda>st.
    bind_r (int_to_str code buf) (\<lambda>buf.
    bind_r (write_fb (fb_get_row st) 24 buf FB_WHITE FB_BLACK st) (\<lambda>st.
    bind_r (int_inc (fb_get_row st)) (\<lambda>row. fb_set_row row st)))))))"

definition timer_tick :: "kernel \<Rightarrow> kernel" where
  "timer_tick k =
    (let k = k\<lparr>k_ticks := inc_ticks (k_ticks k)\<rparr>;
         k = k\<lparr>k_screen := fb_update_cursor (pit_get_ticks (k_ticks k)) (k_screen k)\<rparr>
     in k\<lparr>k_ports := pic_eoi 0 (k_ports k)\<rparr>)"

definition isr_handler ::
  "device \<Rightarrow> u64 \<Rightarrow> u8 list \<Rightarrow> u8 list \<Rightarrow> s32 \<Rightarrow> s32 \<Rightarrow> kernel \<Rightarrow> kernel result" where
  "isr_handler d fault junk buf int_num code k =
    (if int_num = 33 then keyboard_handler d junk k
     else if int_num = 14
     then bind_r (report_page_fault fault buf (k_screen k)) (\<lambda>st. Inr (k\<lparr>k_screen := st\<rparr>))
     else if int_num = 32 then Inr (timer_tick k)
     else bind_r (report_exception int_num code buf (k_screen k)) (\<lambda>st. Inr (k\<lparr>k_screen := st\<rparr>)))"

section \<open>The timer\<close>

lemma timer_tick_ok:
  assumes "kernel_ok k"
  shows "kernel_ok (timer_tick k) \<and> session_of (timer_tick k) = session_of k
    \<and> undisturbed k ((timer_tick k)\<lparr>k_ticks := k_ticks k\<rparr>) \<and> k_ticks (timer_tick k) = k_ticks k + 1
    \<and> k_ports (timer_tick k) = k_ports k @ [Out8 0x20 0x20, Out8 0x80 0]"
proof -
  have "console_step (\<lambda>t. t) (k_screen k) (fb_update_cursor n (k_screen k))" for n
    using assms by (intro update_cursor_step) (simp add: kernel_ok_def fb_ok_def)
  then have "fb_ok (fb_update_cursor n (k_screen k))" "tty_of (fb_update_cursor n (k_screen k)) = tty_of (k_screen k)"
    "evolves (k_screen k) (fb_update_cursor n (k_screen k))" for n
    by (simp_all add: console_step_def fb_ok_def)
  with assms show ?thesis
    by (simp add: timer_tick_def Let_def kernel_ok_def session_of_def undisturbed_def inc_ticks_def pic_eoi_low)
qed

text \<open>
  A timer interrupt in a kernel in order always returns: the tick counter goes up by one (modulo
  \<open>2 ^ 32\<close>), the editing session is untouched, exactly one end of interrupt goes to the master
  controller and none to the slave, and no other component changes.
\<close>

theorem isr_timer_correct:
  assumes "kernel_ok k"
  shows "\<exists>k'. isr_handler d fault junk buf 32 code k = Inr k' \<and> kernel_ok k' \<and> session_of k' = session_of k
    \<and> k_ticks k' = k_ticks k + 1 \<and> k_ports k' = k_ports k @ [Out8 0x20 0x20, Out8 0x80 0]
    \<and> undisturbed k (k'\<lparr>k_ticks := k_ticks k\<rparr>)"
  using timer_tick_ok [OF assms] by (simp add: isr_handler_def)

theorem isr_timer_correct_witness:
  "\<exists>k'. isr_handler (press 0) 0 [] [] 32 0 sample_kernel = Inr k' \<and> k_ticks k' = 1 \<and> kernel_ok k'"
proof -
  have "k_ticks sample_kernel = 0" by (simp add: sample_kernel_def)
  with isr_timer_correct [OF sample_kernel_ok, of "press 0" 0 "[]" "[]" 0] show ?thesis by auto
qed

section \<open>Exceptions\<close>

text \<open>Text written at a fixed place; a row that does not exist takes nothing.\<close>

definition t_write_at :: "nat \<Rightarrow> nat \<Rightarrow> u8 list \<Rightarrow> tty \<Rightarrow> tty" where
  "t_write_at r c s t = (if r < t_rows t then t_write r c s t else t)"

definition t_down :: "tty \<Rightarrow> tty" where
  "t_down t = t_fit (t\<lparr>t_row := t_row t + 1\<rparr>)"

definition t_page_fault :: "u64 \<Rightarrow> tty \<Rightarrow> tty" where
  "t_page_fault a t = t_down (t_write_at (t_row t) 15 (48 # 120 # addr_digits a)
     (t_write_at (t_row t) 0 (bytes ''Page fault at: '') t))"

definition int_digits :: "s32 \<Rightarrow> u8 list" where
  "int_digits n = (if sint n < 0 then 45 # dec_str (nat (- sint n)) else dec_str (nat (sint n)))"

definition t_exception :: "s32 \<Rightarrow> s32 \<Rightarrow> tty \<Rightarrow> tty" where
  "t_exception n code t = t_down (t_write_at (t_row t) 24 (int_digits code) (t_write_at (t_row t) 18 (bytes ''code: '')
     (t_write_at (t_row t) 15 (int_digits n) (t_write_at (t_row t) 0 (bytes ''CPU interrupt: '') t))))"

lemma t_write_at_fields [simp]:
  "t_rows (t_write_at r c s t) = t_rows t" "t_cols (t_write_at r c s t) = t_cols t" "t_col (t_write_at r c s t) = t_col t"
  "t_row (t_write_at r c s t) = t_row t"
  by (simp_all add: t_write_at_def)

lemma t_write_at_row: "r' \<noteq> r \<Longrightarrow> t_text (t_write_at r c s t) r' = t_text t r'"
  by (simp add: t_write_at_def t_write_row)

text \<open>
  One message of a report: the row is the cursor's, at most 64. Only the text is followed; the picture may
  go out of step with it (the colours are fixed and the cursor stays drawn).
\<close>

definition reporting :: "(tty \<Rightarrow> tty) \<Rightarrow> fb \<Rightarrow> fb \<Rightarrow> bool" where
  "reporting f st st' \<longleftrightarrow> evolves st st' \<and> tty_of st' = f (tty_of st)"

definition tty_ok :: "fb \<Rightarrow> bool" where
  "tty_ok st \<longleftrightarrow> fb_wf st \<and> unat (fb_rows st) \<le> 64 \<and> unat (cur_row st) \<le> 64"

lemma write_fb_reports:
  assumes "tty_ok st" and "terminated chars" and "length chars \<le> 2 ^ 31" and "unat col < 2 ^ 31"
  shows "\<exists>st'. write_fb (fb_get_row st) col chars fg bg st = Inr st' \<and> tty_ok st'
    \<and> reporting (t_write_at (unat (cur_row st)) (unat col) (cstr chars)) st st' \<and> cur_row st' = cur_row st"
proof -
  have num: "sint (cur_row st) = int (unat (cur_row st))" "sint col = int (unat col)"
    using line_index(1) [of "cur_row st"] sint_of_nat_s32 [OF assms(4)] assms(1) by (simp_all add: tty_ok_def)
  show ?thesis
  proof (cases "cur_row st < fb_rows st \<and> col < fb_cols st")
    case True
    then obtain st' where st': "write_loop (cur_row st) col fg bg (of_nat 0) chars st = Inr st'" "evolves st st'"
      "tty_of st' = t_write (unat (cur_row st)) (unat col) (cstr chars) (tty_of st)"
      using write_loop_ok [of st "cur_row st" chars 0 col fg bg] assms by (auto simp: tty_ok_def word_less_nat_alt)
    have mode: "same_mode st st'" using st'(2) by (simp add: evolves_def)
    have row: "cur_row st' = cur_row st" using arg_cong [OF st'(3), of t_row] by (simp add: word_unat_eq_iff)
    have "write_loop (cur_row st) col fg bg 0 chars st = Inr st'"
      using st'(1) by (simp only: semiring_1_class.of_nat_0)
    moreover have "\<not> fb_rows st \<le> cur_row st" "\<not> fb_cols st \<le> col" using True by (simp_all add: not_le)
    ultimately have "write_fb (fb_get_row st) col chars fg bg st = Inr st'"
      using num by (simp add: write_fb_def fb_get_row_def)
    moreover have "tty_ok st'" using assms(1) same_mode_shape [OF mode] row by (simp add: tty_ok_def)
    ultimately show ?thesis
      using True st' row by (auto simp: reporting_def t_write_at_def word_less_nat_alt)
  next
    case False
    then have "fb_rows st \<le> cur_row st \<or> fb_cols st \<le> col" by (simp add: not_less)
    then have "write_fb (fb_get_row st) col chars fg bg st = Inr st"
      using num by (simp add: write_fb_def fb_get_row_def)
    moreover have "t_write_at (unat (cur_row st)) (unat col) s (tty_of st) = tty_of st" for s
      using False by (cases s) (auto simp: t_write_at_def word_less_nat_alt)
    ultimately show ?thesis using assms(1) by (simp add: reporting_def)
  qed
qed

lemma row_down_reports:
  assumes "tty_ok st"
  shows "\<exists>st'. bind_r (int_inc (fb_get_row st)) (\<lambda>row. fb_set_row row st) = Inr st' \<and> reporting t_down st st'"
proof -
  note row = line_index(2,3) [of "cur_row st"]
  let ?s = "st\<lparr>cur_row := cur_row st + 1\<rparr>"
  have small: "unat (cur_row st) \<le> 256" using assms by (simp add: tty_ok_def)
  have wf: "fb_wf ?s" using assms same_mode_shape(1) [of st ?s] by (simp add: tty_ok_def)
  have tty: "tty_of ?s = (tty_of st)\<lparr>t_row := t_row (tty_of st) + 1\<rparr>"
    using row(2) [OF small] by (simp add: tty_of_def)
  show ?thesis
  proof (cases "fb_rows st \<le> cur_row st + 1")
    case True
    have mode: "screen_mode ?s" using wf assms by (simp add: screen_mode_def tty_ok_def)
    note num = grid_numbers [OF mode]
    have "tty_of (after_scroll ?s) = t_scroll (tty_of ?s)"
      using num by (simp add: tty_of_def t_scroll_def after_scroll_def)
    moreover have "evolves st (after_scroll ?s)"
      using after_scroll_evolves [OF wf] by (simp add: evolves_def same_mode_def region_def)
    ultimately show ?thesis
      using True row [OF small] fb_scroll_runs [OF wf] tty
      by (simp add: fb_get_row_def fb_set_row_def Let_def reporting_def t_down_def t_fit_def word_le_nat_alt)
  next
    case False
    then show ?thesis
      using row [OF small] tty
      by (simp add: fb_get_row_def fb_set_row_def Let_def reporting_def t_down_def t_fit_def word_le_nat_alt)
  qed
qed


lemma reporting_trans: "reporting f st s1 \<Longrightarrow> reporting g s1 s2 \<Longrightarrow> reporting (\<lambda>t. g (f t)) st s2"
  by (auto simp: reporting_def intro: evolves_trans)

lemma int_string:
  assumes "12 \<le> length buf" and "length buf \<le> 2 ^ 31" and "sint n \<noteq> - (2 ^ 31)"
  shows "\<exists>b. int_to_str n buf = Inr b \<and> length b = length buf \<and> terminated b \<and> cstr b = int_digits n"
proof -
  have "nat (- sint n) < 10 ^ Suc 9" "nat (sint n) < 10 ^ Suc 9"
    using sint_ge [of n] sint_lt [of n] by simp_all
  then have len: "length (dec_str (nat (- sint n))) \<le> 10" "length (dec_str (nat (sint n))) \<le> 10"
    using length_dec_str [of _ 9] by fastforce+
  show ?thesis
  proof (cases "sint n < 0")
    case True
    then have "int_to_str n buf = Inr (overwrite buf 0 (int_digits n @ [0]))"
      using int_to_str_fits [OF assms(1), of n] assms(3) by (simp add: int_digits_def)
    moreover have "0 \<notin> set (int_digits n)" "length (int_digits n) \<le> 11" using len by (simp_all add: int_digits_def)
    ultimately show ?thesis using assms(1) by (simp add: overwrite_def)
  next
    case False
    then have "int_to_str n buf = Inr (overwrite buf 0 (int_digits n @ [0]))"
      using int_to_str_fits [OF assms(1), of n] assms(3) by (simp add: int_digits_def)
    moreover have "0 \<notin> set (int_digits n)" "length (int_digits n) \<le> 11" using len by (simp_all add: int_digits_def)
    ultimately show ?thesis using assms(1) by (simp add: overwrite_def)
  qed
qed

lemma report_page_fault_ok:
  assumes "tty_ok st" and "length buf = 20"
  shows "\<exists>st'. report_page_fault a buf st = Inr st' \<and> reporting (t_page_fault a) st st'"
proof -
  obtain s1 where s1: "write_fb (fb_get_row st) 0 (lit ''Page fault at: '') FB_WHITE FB_BLACK st = Inr s1" "tty_ok s1"
    "reporting (t_write_at (unat (cur_row st)) 0 (bytes ''Page fault at: '')) st s1" "cur_row s1 = cur_row st"
    using write_fb_reports [OF assms(1), of "lit ''Page fault at: ''" 0] by auto
  define b where "b = overwrite buf 0 (48 # 120 # addr_digits a @ [0])"
  have b: "addr_to_str a buf = Inr b" "terminated b" "cstr b = 48 # 120 # addr_digits a" "length b = 20"
    using addr_to_str_fits [of buf a] assms(2) addr_digits_no_nul [of a]
    by (simp_all add: b_def overwrite_def terminated_def)
  obtain s2 where s2: "write_fb (fb_get_row s1) 15 b FB_WHITE FB_BLACK s1 = Inr s2" "tty_ok s2"
    "reporting (t_write_at (unat (cur_row st)) 15 (48 # 120 # addr_digits a)) s1 s2"
    using write_fb_reports [OF s1(2) b(2), of 15] b(3,4) s1(4) by auto
  obtain s3 where s3: "bind_r (int_inc (fb_get_row s2)) (\<lambda>row. fb_set_row row s2) = Inr s3" "reporting t_down s2 s3"
    using row_down_reports [OF s2(2)] by blast
  have "report_page_fault a buf st = Inr s3" using s1(1) b(1) s2(1) s3(1) by (simp add: report_page_fault_def)
  moreover have "reporting (t_page_fault a) st s3"
    using reporting_trans [OF reporting_trans [OF s1(3) s2(3)] s3(2)] by (simp add: reporting_def t_page_fault_def)
  ultimately show ?thesis by blast
qed

lemma report_exception_ok:
  assumes "tty_ok st" and "length buf = 20" and "sint n \<noteq> - (2 ^ 31)" and "sint code \<noteq> - (2 ^ 31)"
  shows "\<exists>st'. report_exception n code buf st = Inr st' \<and> reporting (t_exception n code) st st'"
proof -
  obtain s1 where s1: "write_fb (fb_get_row st) 0 (lit ''CPU interrupt: '') FB_WHITE FB_BLACK st = Inr s1" "tty_ok s1"
    "reporting (t_write_at (unat (cur_row st)) 0 (bytes ''CPU interrupt: '')) st s1" "cur_row s1 = cur_row st"
    using write_fb_reports [OF assms(1), of "lit ''CPU interrupt: ''" 0] by auto
  obtain b where b: "int_to_str n buf = Inr b" "length b = 20" "terminated b" "cstr b = int_digits n"
    using int_string [of buf n] assms(2,3) by auto
  obtain s2 where s2: "write_fb (fb_get_row s1) 15 b FB_WHITE FB_BLACK s1 = Inr s2" "tty_ok s2"
    "reporting (t_write_at (unat (cur_row st)) 15 (int_digits n)) s1 s2" "cur_row s2 = cur_row st"
    using write_fb_reports [OF s1(2) b(3), of 15] b(2,4) s1(4) by auto
  obtain s3 where s3: "write_fb (fb_get_row s2) 18 (lit ''code: '') FB_WHITE FB_BLACK s2 = Inr s3" "tty_ok s3"
    "reporting (t_write_at (unat (cur_row st)) 18 (bytes ''code: '')) s2 s3" "cur_row s3 = cur_row st"
    using write_fb_reports [OF s2(2), of "lit ''code: ''" 18] s2(4) by auto
  obtain c where c: "int_to_str code b = Inr c" "length c = 20" "terminated c" "cstr c = int_digits code"
    using int_string [of b code] b(2) assms(4) by auto
  obtain s4 where s4: "write_fb (fb_get_row s3) 24 c FB_WHITE FB_BLACK s3 = Inr s4" "tty_ok s4"
    "reporting (t_write_at (unat (cur_row st)) 24 (int_digits code)) s3 s4"
    using write_fb_reports [OF s3(2) c(3), of 24] c(2,4) s3(4) by auto
  obtain s5 where s5: "bind_r (int_inc (fb_get_row s4)) (\<lambda>row. fb_set_row row s4) = Inr s5" "reporting t_down s4 s5"
    using row_down_reports [OF s4(2)] by blast
  have "report_exception n code buf st = Inr s5"
    using s1(1) b(1) s2(1) s3(1) c(1) s4(1) s5(1) by (simp add: report_exception_def)
  moreover have "reporting (t_exception n code) st s5"
    using reporting_trans [OF reporting_trans [OF reporting_trans [OF reporting_trans [OF s1(3) s2(3)] s3(3)] s4(3)] s5(2)]
    by (simp add: reporting_def t_exception_def)
  ultimately show ?thesis by blast
qed


definition t_report :: "s32 \<Rightarrow> s32 \<Rightarrow> u64 \<Rightarrow> tty \<Rightarrow> tty" where
  "t_report int_num code fault = (if int_num = 14 then t_page_fault fault else t_exception int_num code)"

lemma isr_reports:
  assumes "tty_ok (k_screen k)" and "length buf = 20" and "unat int_num < 32" and "sint code \<noteq> - (2 ^ 31)"
  shows "\<exists>st'. isr_handler d fault junk buf int_num code k = Inr (k\<lparr>k_screen := st'\<rparr>)
    \<and> reporting (t_report int_num code fault) (k_screen k) st'"
proof -
  have "sint int_num = int (unat int_num)" using assms(3) by (intro line_index(1)) simp
  then have "0 \<le> sint int_num" by simp
  then have "sint int_num \<noteq> - (2 ^ 31)" by auto
  moreover have "int_num \<noteq> 32" "int_num \<noteq> 33" using assms(3) by auto
  ultimately show ?thesis
    using report_page_fault_ok [OF assms(1,2), of fault] report_exception_ok [OF assms(1,2) _ assms(4), of int_num]
    by (auto simp: isr_handler_def t_report_def)
qed

lemma kernel_ok_tty: "kernel_ok k \<Longrightarrow> tty_ok (k_screen k)"
  by (auto simp: kernel_ok_def fb_ok_def screen_ok_def grid_ok_def screen_mode_def tty_ok_def word_less_nat_alt)

text \<open>
  C30: An exception (vector below 32) is reported on the cursor's row: a page fault with the
  sixteen hexadecimal digits of the address, every other one with its number and error code in decimal. The
  handler returns, the cursor has gone down one row (scrolling if needed) with its column kept,
  no end of interrupt is sent, and only the screen and its framebuffer change. The error code must
  not be the smallest \<open>int\<close>.
\<close>

theorem isr_exception_reports:
  assumes "kernel_ok k" and "length buf = 20" and "unat int_num < 32" and "sint code \<noteq> - (2 ^ 31)"
  shows "\<exists>st'. isr_handler d fault junk buf int_num code k = Inr (k\<lparr>k_screen := st'\<rparr>)
    \<and> tty_of st' = t_report int_num code fault (tty_of (k_screen k))
    \<and> (\<forall>a. a \<notin> region (k_screen k) \<longrightarrow> vram st' a = vram (k_screen k) a)"
  using isr_reports [OF kernel_ok_tty [OF assms(1)] assms(2-4), where d = d and fault = fault and junk = junk]
  by (auto simp: reporting_def evolves_def)

lemma sample_kernel_screen [simp]: "k_screen sample_kernel = sample_fb"
  by (simp add: sample_kernel_def)

theorem isr_exception_reports_witness:
  "\<exists>st'. isr_handler (press 0) 0 [] (replicate 20 0) 13 8 sample_kernel = Inr (sample_kernel\<lparr>k_screen := st'\<rparr>)
    \<and> cursor st' = (0, 1) \<and> screen_buf st' 0 16 = 51 \<and> screen_buf st' 0 24 = 56"
proof -
  have digits: "int_digits 13 = [49, 51]" "int_digits 8 = [56]"
    by (simp_all add: int_digits_def dec_str.simps)
  obtain st' where st': "isr_handler (press 0) 0 [] (replicate 20 0) 13 8 sample_kernel = Inr (sample_kernel\<lparr>k_screen := st'\<rparr>)"
    "tty_of st' = t_report 13 8 0 (tty_of sample_fb)"
    using isr_exception_reports [OF sample_kernel_ok, of "replicate 20 0" 13 8 "press 0" 0 "[]"] by auto
  from st'(2) have "t_col (tty_of st') = 0 \<and> t_row (tty_of st') = 1 \<and> t_text (tty_of st') 0 16 = 51 \<and> t_text (tty_of st') 0 24 = 56"
    by (simp add: t_report_def t_exception_def t_down_def t_fit_def t_write_at_def t_set_def digits bytes_def sample_fb_geometry)
  with st'(1) show ?thesis by (auto simp: cursor_def)
qed

text \<open>
  When the cursor waits below the last row (the last character went into the bottom right corner),
  the report is lost: all its parts are written to a row that does not exist, and the screen just scrolls.
\<close>

theorem exception_message_lost:
  assumes "kernel_ok k" and "cur_row (k_screen k) = fb_rows (k_screen k)"
    and "length buf = 20" and "unat int_num < 32" and "sint code \<noteq> - (2 ^ 31)"
  shows "\<exists>st'. isr_handler d fault junk buf int_num code k = Inr (k\<lparr>k_screen := st'\<rparr>)
    \<and> tty_of st' = t_scroll (tty_of (k_screen k))"
proof -
  have "t_report int_num code fault (tty_of (k_screen k)) = t_scroll (tty_of (k_screen k))"
    using assms(2) by (simp add: t_report_def t_page_fault_def t_exception_def t_write_at_def t_down_def t_fit_def t_scroll_def)
  with isr_reports [OF kernel_ok_tty [OF assms(1)] assms(3-5), where d = d and fault = fault and junk = junk]
  show ?thesis by (auto simp: reporting_def)
qed

theorem exception_message_lost_witness:
  "\<exists>st'. isr_handler (press 0) 0 [] (replicate 20 0) 13 8 (sample_kernel\<lparr>k_screen := sample_fb\<lparr>cur_row := 38\<rparr>\<rparr>)
      = Inr (sample_kernel\<lparr>k_screen := st'\<rparr>) \<and> tty_of st' = t_scroll (tty_of (sample_fb\<lparr>cur_row := 38\<rparr>))"
proof -
  let ?k = "sample_kernel\<lparr>k_screen := sample_fb\<lparr>cur_row := 38\<rparr>\<rparr>"
  have "kernel_ok ?k" using sample_kernel_ok sample_fb_low_ok by (simp add: kernel_ok_def)
  from exception_message_lost [OF this, of "replicate 20 0" 13 8 "press 0" 0 "[]"]
  show ?thesis by (simp add: sample_fb_geometry)
qed

section \<open>The running kernel\<close>

text \<open>
  After boot the processor only serves interrupts. A step is one interrupt that its handler survives, with any
  device answers; a run is labelled with the interrupts in order. The scan code is the label of a key.
\<close>

datatype irq = Tick | Key u8

inductive irq_step :: "u8 list \<Rightarrow> kernel \<Rightarrow> irq \<Rightarrow> kernel \<Rightarrow> bool" for junk where
  step_tick: "isr_handler d fault junk buf 32 code k = Inr k' \<Longrightarrow> irq_step junk k Tick k'"
| step_key: "isr_handler d fault junk buf 33 code k = Inr k' \<Longrightarrow> irq_step junk k (Key (pressed d k)) k'"

inductive irq_run :: "u8 list \<Rightarrow> kernel \<Rightarrow> irq list \<Rightarrow> kernel \<Rightarrow> bool" for junk where
  run_idle: "irq_run junk k [] k"
| run_step: "irq_run junk k evs k1 \<Longrightarrow> irq_step junk k1 e k2 \<Longrightarrow> irq_run junk k (evs @ [e]) k2"

inductive_cases irq_tickE: "irq_step junk k Tick k'"
inductive_cases irq_keyE: "irq_step junk k (Key code) k'"

definition is_eoi :: "io_event \<Rightarrow> bool" where "is_eoi e = (e = Out8 0x20 0x20)"

definition eois :: "trace \<Rightarrow> nat" where "eois tr = length (filter is_eoi tr)"

lemma eois_append [simp]: "eois (tr @ tr') = eois tr + eois tr'"
  by (simp add: eois_def)

lemma eois_key_events [simp]: "eois (key_events ky s) = 0"
  by (cases "(ky, s)" rule: key_events.cases) (simp_all add: reset_events_def eois_def is_eoi_def)

lemma eois_irqs [simp]: "eois (irq1_events c) = 1" "eois [Out8 0x20 0x20, Out8 0x80 0] = 1"
  by (simp_all add: irq1_events_def eois_def is_eoi_def)

text \<open>
  The session under interrupts: a key has its effect in the shift state it meets, the timer none.
\<close>

fun irq_effect :: "pmm \<Rightarrow> ata_drive \<Rightarrow> irq \<Rightarrow> session \<Rightarrow> session" where
  "irq_effect p dr Tick s = s"
| "irq_effect p dr (Key code) s = key_effect p dr (key_of (s_shift s) code) s"

definition run_session :: "pmm \<Rightarrow> ata_drive \<Rightarrow> irq list \<Rightarrow> session \<Rightarrow> session" where
  "run_session p dr = fold (irq_effect p dr)"

text \<open>What one interrupt keeps, and what it adds.\<close>

definition serves :: "irq \<Rightarrow> kernel \<Rightarrow> kernel \<Rightarrow> bool" where
  "serves e k k' \<longleftrightarrow> kernel_ok k' \<and> undisturbed k (k'\<lparr>k_ticks := k_ticks k\<rparr>)
    \<and> k_ticks k' = (if e = Tick then k_ticks k + 1 else k_ticks k) \<and> eois (k_ports k') = eois (k_ports k) + 1
    \<and> (stopped (k_kbd k) = 0 \<longrightarrow> session_of k' = irq_effect (k_pages k) (k_disk k) e (session_of k))"

lemma tick_serves:
  assumes "kernel_ok k" and "irq_step junk k Tick k'"
  shows "serves Tick k k'"
  using assms(2) timer_tick_ok [OF assms(1)] by (cases rule: irq_tickE) (auto simp: isr_handler_def serves_def)

lemma stopped_handler:
  "stopped (k_kbd k) \<noteq> 0 \<Longrightarrow> keyboard_handler d junk k = Inr (k\<lparr>k_ports := k_ports k @ irq1_events (pressed d k)\<rparr>)"
  by (simp add: keyboard_handler_def inb_def Let_def pic_eoi_low irq1_events_def pressed_def)

lemma key_serves:
  assumes "kernel_ok k" and "length junk = 16" and "irq_step junk k (Key code) k'"
  shows "serves (Key code) k k'"
proof -
  obtain d fault buf c where code: "code = pressed d k" and "isr_handler d fault junk buf 33 c k = Inr k'"
    using assms(3) by (rule irq_keyE)
  then have run: "keyboard_handler d junk k = Inr k'" by (simp add: isr_handler_def)
  show ?thesis
  proof (cases "stopped (k_kbd k) = 0")
    case False
    then have "k' = k\<lparr>k_ports := k_ports k @ irq1_events (pressed d k)\<rparr>" using run stopped_handler by simp
    then show ?thesis using assms(1) using False by (simp add: serves_def kernel_ok_def undisturbed_def)
  next
    case True
    have "\<not> off_map (pressed d k)" "\<not> (writes_line (pressed_key d k) \<and> length (s_input (session_of k)) = 256)"
      using run keyboard_handler_fails [OF assms(1) True, of d junk] by auto
    moreover have "length (s_input (session_of k)) \<le> 256"
      using assms(1) by (simp add: session_of_def input_length kernel_ok_def) (simp add: kbd_ok_def)
    ultimately show ?thesis
      using keyboard_handler_ok [OF assms(1) True assms(2), of d] run
      by (auto simp: code serves_def undisturbed_def pressed_key_def)
  qed
qed

lemma step_serves:
  "kernel_ok k \<Longrightarrow> length junk = 16 \<Longrightarrow> irq_step junk k e k' \<Longrightarrow> serves e k k'"
  using tick_serves [of k junk k'] key_serves [of k junk _ k'] by (cases e) simp_all

lemma serves_all:
  assumes "irq_run junk k evs k'" and "kernel_ok k" and "length junk = 16"
  shows "kernel_ok k' \<and> undisturbed k (k'\<lparr>k_ticks := k_ticks k\<rparr>)
    \<and> k_ticks k' = k_ticks k + of_nat (count_list evs Tick) \<and> eois (k_ports k') = eois (k_ports k) + length evs"
  using assms(1,2)
proof (induction rule: irq_run.induct)
  case (run_idle k0)
  then show ?case by (simp add: undisturbed_def)
next
  case (run_step k0 evs k1 e k2)
  then have k1: "kernel_ok k1" by blast
  have "serves e k1 k2" using step_serves [OF k1 assms(3) run_step.hyps(2)] .
  then show ?case using run_step.IH [OF run_step.prems]
    by (auto simp: serves_def undisturbed_def intro: evolves_trans)
qed

lemma run_session_ticks: "run_session p dr (filter (\<lambda>e. e \<noteq> Tick) evs) s = run_session p dr evs s"
  by (induction evs arbitrary: s) (auto simp: run_session_def)

lemma run_refines:
  assumes "irq_run junk k evs k'" and "kernel_ok k" and "length junk = 16" and "stopped (k_kbd k) = 0"
  shows "session_of k' = run_session (k_pages k) (k_disk k) evs (session_of k)"
  using assms(1,2,4)
proof (induction rule: irq_run.induct)
  case (run_idle k0)
  then show ?case by (simp add: run_session_def)
next
  case (run_step k0 evs k1 e k2)
  note inv = serves_all [OF run_step.hyps(1) run_step.prems(1) assms(3)]
  then have "stopped (k_kbd k1) = 0" "k_pages k1 = k_pages k0" "k_disk k1 = k_disk k0"
    using run_step.prems(2) by (simp_all add: undisturbed_def)
  moreover have "serves e k1 k2" using step_serves [OF _ assms(3) run_step.hyps(2)] inv by blast
  ultimately show ?case using run_step.IH [OF run_step.prems] by (simp add: serves_def run_session_def)
qed

text \<open>No interrupt touches the masks or the vectors of the controllers.\<close>

lemma key_events_free: "list_all pic_free (key_events ky s)"
  by (cases "(ky, s)" rule: key_events.cases) (simp_all add: reset_events_def)

lemma irq1_events_free: "list_all pic_free (irq1_events code)"
  by (simp add: irq1_events_def)

lemma step_ports:
  assumes "kernel_ok k" and "length junk = 16" and "irq_step junk k e k'"
  shows "\<exists>es. k_ports k' = k_ports k @ es \<and> list_all pic_free es"
proof (cases e)
  case Tick
  then show ?thesis
    using assms(3) timer_tick_ok [OF assms(1)] by (cases rule: irq_tickE [of junk k k']) (auto simp: isr_handler_def)
next
  case (Key code)
  then obtain d where run: "keyboard_handler d junk k = Inr k'"
    using assms(3) by (auto simp: isr_handler_def elim!: irq_keyE)
  have "k_ports k' = k_ports k @ irq1_events (pressed d k)
      \<or> k_ports k' = k_ports k @ irq1_events (pressed d k) @ key_events (pressed_key d k) (session_of k)"
  proof (cases "stopped (k_kbd k) = 0")
    case False
    then show ?thesis using run stopped_handler by auto
  next
    case True
    have "\<not> off_map (pressed d k)" "\<not> (writes_line (pressed_key d k) \<and> length (s_input (session_of k)) = 256)"
      using run keyboard_handler_fails [OF assms(1) True, of d junk] by auto
    moreover have "length (s_input (session_of k)) \<le> 256"
      using assms(1) by (simp add: session_of_def input_length kernel_ok_def) (simp add: kbd_ok_def)
    ultimately show ?thesis
      using keyboard_handler_ok [OF assms(1) True assms(2), of d] run by auto
  qed
  then show ?thesis using key_events_free irq1_events_free by fastforce
qed

lemma run_pics:
  assumes "irq_run junk k evs k'" and "kernel_ok k" and "length junk = 16"
  shows "pics_after p (k_ports k') = pics_after p (k_ports k)"
  using assms(1,2)
proof (induction rule: irq_run.induct)
  case (run_idle k0)
  then show ?case by simp
next
  case (run_step k0 evs k1 e k2)
  then have "kernel_ok k1" using serves_all [OF run_step.hyps(1) _ assms(3)] by blast
  from step_ports [OF this assms(3) run_step.hyps(2)] run_step show ?case by (auto simp: pics_after_free)
qed

text \<open>Which interrupts do not return: the keyboard's, when the key takes the handler out of its arrays.\<close>

definition leaves_arrays :: "device \<Rightarrow> kernel \<Rightarrow> bool" where
  "leaves_arrays d k \<longleftrightarrow> stopped (k_kbd k) = 0
    \<and> (off_map (pressed d k) \<or> writes_line (pressed_key d k) \<and> length (s_input (session_of k)) = 256)"

lemma keyboard_handler_outcome:
  assumes "kernel_ok k" and "length junk = 16"
  shows "(if leaves_arrays d k then keyboard_handler d junk k = Inl Out_of_bounds else \<exists>k'. keyboard_handler d junk k = Inr k')"
proof -
  have len: "length (s_input (session_of k)) \<le> 256"
    using assms(1) by (simp add: session_of_def input_length kernel_ok_def) (simp add: kbd_ok_def)
  show ?thesis
  proof (cases "leaves_arrays d k")
    case True
    then show ?thesis using keyboard_handler_fails [OF assms(1), of d junk] unfolding leaves_arrays_def by simp
  next
    case False
    have "\<exists>k'. keyboard_handler d junk k = Inr k'"
    proof (cases "stopped (k_kbd k) = 0")
      case True
      with False len have "\<not> off_map (pressed d k)" "writes_line (pressed_key d k) \<Longrightarrow> length (s_input (session_of k)) < 256"
        by (auto simp: leaves_arrays_def)
      from keyboard_handler_ok [OF assms(1) True assms(2) this] show ?thesis by blast
    qed (use stopped_handler in blast)
    with False show ?thesis by simp
  qed
qed

text \<open>
  C31: Invariant of the running kernel. After any run of interrupts whose handler returned, from a kernel in order, the
  kernel is in order; the tick counter has counted the timer interrupts (modulo \<open>2 ^ 32\<close>), every interrupt was
  acknowledged exactly once, masks and vectors of the controllers and the other components are unchanged, and no byte outside
  the framebuffer was written. Such a run can always go on with a timer interrupt, and it goes on with a keyboard
  interrupt except in the one case where the handler leaves its arrays: it is not stopped, and either the code is a press behind
  the scancode tables (Caps Lock, F1), or the key writes to a line buffer that is full.
\<close>

theorem irq_run_invariant:
  assumes "irq_run junk k evs k'" and "kernel_ok k" and "length junk = 16"
  shows "kernel_ok k' \<and> k_ticks k' = k_ticks k + of_nat (count_list evs Tick)
    \<and> eois (k_ports k') = eois (k_ports k) + length evs \<and> (\<forall>p. pics_after p (k_ports k') = pics_after p (k_ports k))
    \<and> k_pages k' = k_pages k \<and> k_heap k' = k_heap k \<and> k_disk k' = k_disk k \<and> k_idt k' = k_idt k \<and> k_tables k' = k_tables k
    \<and> (\<forall>a. a \<notin> region (k_screen k) \<longrightarrow> vram (k_screen k') a = vram (k_screen k) a)
    \<and> (\<forall>d fault buf code. (\<exists>k''. isr_handler d fault junk buf 32 code k' = Inr k'')
        \<and> (if stopped (k_kbd k') = 0
              \<and> (off_map (pressed d k') \<or> writes_line (pressed_key d k') \<and> length (s_input (session_of k')) = 256)
            then isr_handler d fault junk buf 33 code k' = Inl Out_of_bounds
            else \<exists>k''. isr_handler d fault junk buf 33 code k' = Inr k''))"
proof -
  have "kernel_ok k'" using serves_all [OF assms] by blast
  from keyboard_handler_outcome [OF this assms(3)] serves_all [OF assms] run_pics [OF assms] show ?thesis
    by (auto simp: undisturbed_def evolves_def isr_handler_def leaves_arrays_def)
qed

lemma sample_run: "\<exists>k2. irq_run (replicate 16 0) sample_kernel [Tick, Key 0x1E] k2"
proof -
  obtain k1 where k1: "isr_handler (press 0) 0 (replicate 16 0) [] 32 0 sample_kernel = Inr k1" "kernel_ok k1"
    "session_of k1 = session_of sample_kernel" "undisturbed sample_kernel (k1\<lparr>k_ticks := k_ticks sample_kernel\<rparr>)"
    using timer_tick_ok [OF sample_kernel_ok] by (simp add: isr_handler_def)
  have tick: "irq_step (replicate 16 0) sample_kernel Tick k1" using k1(1) by (rule step_tick)
  have "stopped (k_kbd k1) = 0" "s_input (session_of k1) = []" "k_kbd sample_kernel = kbd_boot"
    using k1(3,4) by (auto simp: undisturbed_def sample_kernel_def kbd_boot_def session_of_def kbd_input_def)
  then obtain k2 where "keyboard_handler (press 0x1E) (replicate 16 0) k1 = Inr k2"
    using keyboard_handler_ok [OF k1(2), of "replicate 16 0" "press 0x1E"] by (auto simp: off_map_def)
  then have "isr_handler (press 0x1E) 0 (replicate 16 0) [] 33 0 k1 = Inr k2" by (simp add: isr_handler_def)
  from step_key [OF this] have "irq_step (replicate 16 0) k1 (Key 0x1E) k2" by simp
  from run_step [OF run_step [OF run_idle tick] this] show ?thesis by auto
qed

theorem irq_run_invariant_witness:
  "\<exists>k'. irq_run (replicate 16 0) sample_kernel [Tick, Key 0x1E] k' \<and> kernel_ok k' \<and> k_ticks k' = 1"
proof -
  obtain k' where run: "irq_run (replicate 16 0) sample_kernel [Tick, Key 0x1E] k'" using sample_run by blast
  have "k_ticks sample_kernel = 0" by (simp add: sample_kernel_def)
  then have "kernel_ok k' \<and> k_ticks k' = 1" using irq_run_invariant [OF run sample_kernel_ok] by simp
  with run show ?thesis by blast
qed

text \<open>
  C2: Refinement of the running kernel: the terminal, the pending input and the shift state after
  any run of interrupts are those of the abstract session that saw the same keys in the same order,
  wherever the timer interrupts came in.
\<close>

theorem irq_run_refines_session:
  assumes "irq_run junk k evs k'" and "kernel_ok k" and "length junk = 16" and "stopped (k_kbd k) = 0"
  shows "session_of k' = run_session (k_pages k) (k_disk k) evs (session_of k)
    \<and> session_of k' = run_session (k_pages k) (k_disk k) (filter (\<lambda>e. e \<noteq> Tick) evs) (session_of k)"
  using run_refines [OF assms] run_session_ticks by simp

theorem irq_run_refines_session_witness:
  "\<exists>k'. irq_run (replicate 16 0) sample_kernel [Tick, Key 0x1E] k' \<and> s_input (session_of k') = [97]"
proof -
  obtain k' where run: "irq_run (replicate 16 0) sample_kernel [Tick, Key 0x1E] k'" using sample_run by blast
  have s: "stopped (k_kbd sample_kernel) = 0" "s_shift (session_of sample_kernel) = False"
    "s_input (session_of sample_kernel) = []"
    by (simp_all add: session_of_def sample_kernel_def kbd_boot_def kbd_input_def)
  have "key_of False 0x1E = Typed 97" by (simp add: key_of_def scancode_map_def bytes_def)
  with irq_run_refines_session [OF run sample_kernel_ok _ s(1)] s(2,3)
  have "s_input (session_of k') = [97]" by (simp add: run_session_def)
  with run show ?thesis by blast
qed

section \<open>Which runs are possible\<close>

text \<open>A key has an entry in the tables, and the line has room if the key writes to it.\<close>

fun key_fits :: "irq \<Rightarrow> session \<Rightarrow> bool" where
  "key_fits Tick s = True"
| "key_fits (Key code) s \<longleftrightarrow> \<not> off_map code
    \<and> (writes_line (key_of (s_shift s) code) \<longrightarrow> length (s_input s) < 256)"

fun run_fits :: "pmm \<Rightarrow> ata_drive \<Rightarrow> irq list \<Rightarrow> session \<Rightarrow> bool" where
  "run_fits p dr [] s = True"
| "run_fits p dr (e # es) s \<longleftrightarrow> key_fits e s \<and> run_fits p dr es (irq_effect p dr e s)"

lemma run_fits_snoc: "run_fits p dr (es @ [e]) s \<longleftrightarrow> run_fits p dr es s \<and> key_fits e (run_session p dr es s)"
  by (induction es arbitrary: s) (simp_all add: run_session_def)

lemma step_fits_iff:
  assumes "kernel_ok k" and "length junk = 16" and "stopped (k_kbd k) = 0"
  shows "(\<exists>k'. irq_step junk k e k') \<longleftrightarrow> key_fits e (session_of k)"
proof (cases e)
  case Tick
  have "irq_step junk k Tick (timer_tick k)" by (rule step_tick) (simp add: isr_handler_def)
  with Tick show ?thesis by auto
next
  case (Key code)
  have len: "length (s_input (session_of k)) \<le> 256"
    using assms(1) by (simp add: session_of_def input_length kernel_ok_def) (simp add: kbd_ok_def)
  show ?thesis
  proof
    assume "key_fits e (session_of k)"
    then obtain k' where "keyboard_handler (press code) junk k = Inr k'"
      using keyboard_handler_ok [OF assms(1,3,2), of "press code"] Key by (auto simp: pressed_key_def)
    then have "isr_handler (press code) 0 junk [] 33 0 k = Inr k'" by (simp add: isr_handler_def)
    from step_key [OF this] show "\<exists>k'. irq_step junk k e k'" using Key by auto
  next
    assume "\<exists>k'. irq_step junk k e k'"
    then obtain k' where "irq_step junk k (Key code) k'" using Key by blast
    then obtain d fault buf c where code: "code = pressed d k" and "isr_handler d fault junk buf 33 c k = Inr k'"
      by (rule irq_keyE)
    then have "keyboard_handler d junk k = Inr k'" by (simp add: isr_handler_def)
    then show "key_fits e (session_of k)"
      using keyboard_handler_fails [OF assms(1,3), of d junk] len Key
      by (auto simp: code pressed_key_def order_less_le)
  qed
qed

lemma run_Cons: "irq_run junk k1 es k2 \<Longrightarrow> irq_step junk k e k1 \<Longrightarrow> irq_run junk k (e # es) k2"
proof (induction rule: irq_run.induct)
  case (run_idle k1)
  then show ?case using run_step [OF irq_run.run_idle, of junk k e k1] by simp
next
  case (run_step k1 es k2 e' k3)
  then show ?case using irq_run.run_step [of junk k "e # es" k2 e' k3] by simp
qed

lemma runs_exist:
  assumes "kernel_ok k" and "length junk = 16" and "stopped (k_kbd k) = 0"
    and "run_fits (k_pages k) (k_disk k) evs (session_of k)"
  shows "\<exists>k'. irq_run junk k evs k'"
  using assms(1,3,4)
proof (induction evs arbitrary: k)
  case Nil
  then show ?case using run_idle by blast
next
  case (Cons e evs)
  then obtain k1 where k1: "irq_step junk k e k1" using step_fits_iff [OF Cons.prems(1) assms(2)] by auto
  have "serves e k k1" by (rule step_serves [OF Cons.prems(1) assms(2) k1])
  with Cons.IH [of k1] Cons.prems(2,3) obtain k2 where "irq_run junk k1 evs k2"
    by (auto simp: serves_def undisturbed_def)
  from run_Cons [OF this k1] show ?case by blast
qed

lemma run_fits_run:
  assumes "irq_run junk k evs k'" and "kernel_ok k" and "length junk = 16" and "stopped (k_kbd k) = 0"
  shows "run_fits (k_pages k) (k_disk k) evs (session_of k)"
  using assms(1,2,4)
proof (induction rule: irq_run.induct)
  case (run_step k0 evs k1 e k2)
  note inv = serves_all [OF run_step.hyps(1) run_step.prems(1) assms(3)]
  then have "stopped (k_kbd k1) = 0" using run_step.prems(2) by (simp add: undisturbed_def)
  then have "key_fits e (session_of k1)" using step_fits_iff [of k1 junk e] inv assms(3) run_step.hyps(2) by blast
  moreover have "session_of k1 = run_session (k_pages k0) (k_disk k0) evs (session_of k0)"
    by (rule run_refines [OF run_step.hyps(1) run_step.prems(1) assms(3) run_step.prems(2)])
  ultimately show ?case using run_step.IH [OF run_step.prems] by (simp add: run_fits_snoc)
qed simp

text \<open>
  C15: Progress of the running kernel: a sequence of interrupts can be served to its end exactly when,
  followed on the abstract session, each key has an entry in the tables and each writing key finds room
  in the line. Timer interrupts never matter.
\<close>

theorem irq_run_returns_iff:
  assumes "kernel_ok k" and "length junk = 16" and "stopped (k_kbd k) = 0"
  shows "(\<exists>k'. irq_run junk k evs k') \<longleftrightarrow> run_fits (k_pages k) (k_disk k) evs (session_of k)"
  using runs_exist [OF assms] run_fits_run [OF _ assms] by blast

theorem irq_run_returns_iff_witness:
  "(\<exists>k'. irq_run (replicate 16 0) sample_kernel [Tick, Key 0x2A, Tick, Key 0x1E, Tick] k')
    \<and> \<not> (\<exists>k'. irq_run (replicate 16 0) sample_kernel [Tick, Key 0x3B] k')"
proof -
  have s: "stopped (k_kbd sample_kernel) = 0" "s_input (session_of sample_kernel) = []"
    by (simp_all add: session_of_def sample_kernel_def kbd_boot_def kbd_input_def)
  note iff = irq_run_returns_iff [OF sample_kernel_ok _ s(1), of "replicate 16 0"]
  show ?thesis unfolding iff [simplified] by (simp add: s(2) off_map_def key_of_def)
qed

section \<open>Typing under interrupts\<close>

lemma session_types:
  "types (s_shift s) codes cs \<Longrightarrow>
    run_session p dr (map Key codes) s = s\<lparr>s_input := s_input s @ cs, s_tty := t_print cs (s_tty s)\<rparr>"
proof (induction codes arbitrary: s cs)
  case Nil
  then show ?case by (simp add: types_def run_session_def t_print_def)
next
  case (Cons code codes)
  then obtain c cs' where cs: "cs = c # cs'" and c: "key_of (s_shift s) code = Typed c" "c \<noteq> 0"
    and rest: "types (s_shift s) codes cs'"
    by (auto simp: types_def list_all2_Cons1)
  let ?s = "key_effect p dr (Typed c) s"
  have "run_session p dr (map Key codes) ?s = ?s\<lparr>s_input := s_input ?s @ cs', s_tty := t_print cs' (s_tty ?s)\<rparr>"
    using rest by (intro Cons.IH) simp
  then show ?case using c cs t_print_append [of "[c]" cs'] by (simp add: run_session_def cstr_def)
qed

lemma run_fits_ticks: "run_fits p dr (filter (\<lambda>e. e \<noteq> Tick) evs) s = run_fits p dr evs s"
  by (induction evs arbitrary: s) auto

lemma run_fits_types:
  "types (s_shift s) codes cs \<Longrightarrow> length (s_input s) + length cs \<le> 256 \<Longrightarrow> run_fits p dr (map Key codes) s"
proof (induction codes arbitrary: s cs)
  case (Cons code codes)
  then obtain c cs' where cs: "cs = c # cs'" and c: "key_of (s_shift s) code = Typed c" "code < 58"
    and rest: "types (s_shift s) codes cs'"
    by (auto simp: types_def list_all2_Cons1)
  have "run_fits p dr (map Key codes) (key_effect p dr (Typed c) s)"
    using rest Cons.prems(2) cs by (intro Cons.IH [of _ cs']) simp_all
  moreover have "\<not> off_map code" using c(2) by (simp add: off_map_def word_less_nat_alt word_le_nat_alt)
  ultimately show ?case using c Cons.prems(2) cs by simp
qed simp

lemma line_under_interrupts:
  assumes "kernel_ok k" and "stopped (k_kbd k) = 0" and "length junk = 16" and "s_input (session_of k) = []"
    and "types (s_shift (session_of k)) codes cs" and "length cs \<le> 255"
    and "filter (\<lambda>e. e \<noteq> Tick) evs = map Key codes @ [Key 0x1C]"
  shows "(\<exists>k'. irq_run junk k evs k') \<and> (\<forall>k'. irq_run junk k evs k' \<longrightarrow>
    kernel_ok k' \<and> session_of k' = key_effect (k_pages k) (k_disk k) Enter
      ((session_of k)\<lparr>s_input := cs, s_tty := t_print cs (tty_of (k_screen k))\<rparr>))"
proof -
  let ?run = "run_session (k_pages k) (k_disk k)" and ?s = "session_of k"
  have enter: "key_of b 0x1C = Enter" for b by (simp add: key_of_def)
  have typed: "?run (map Key codes) ?s = ?s\<lparr>s_input := cs, s_tty := t_print cs (tty_of (k_screen k))\<rparr>"
    using session_types [OF assms(5)] assms(4) by (simp add: session_of_def)
  have "run_fits (k_pages k) (k_disk k) (map Key codes @ [Key 0x1C]) ?s"
    using run_fits_types [OF assms(5)] assms(4,6) by (simp add: run_fits_snoc typed off_map_def)
  then have "\<exists>k'. irq_run junk k evs k'"
    using runs_exist [OF assms(1,3,2)] run_fits_ticks [of _ _ evs] assms(7) by metis
  moreover have "?run evs ?s = key_effect (k_pages k) (k_disk k) Enter (?run (map Key codes) ?s)"
    using run_session_ticks [of _ _ evs ?s] assms(7) enter by (simp add: run_session_def)
  ultimately show ?thesis
    using run_refines [OF _ assms(1,3,2)] serves_all [OF _ assms(1,3)] typed by auto
qed

end
