(* ===== verification/Stubs.thy ===== *)
theory Stubs
  imports Interrupts
begin

text \<open>
  The assembly entry points (\<open>interrupts.s\<close>): what the processor pushes, the 34 stubs and the common
  code that saves the registers, calls \<open>isr_handler\<close> and returns. The theorem says that the C handler gets
  the vector and the error code, and that the interrupted code goes on with its registers.
\<close>

section \<open>The processor\<close>

datatype reg = RAX | RBX | RCX | RDX | RBP | RSI | RDI | R8 | R9 | R10 | R11 | R12 | R13 | R14 | R15

text \<open>The registers in the order in which they are saved.\<close>

instantiation reg :: enum
begin

definition "enum_reg = [RAX, RBX, RCX, RDX, RBP, RSI, RDI, R8, R9, R10, R11, R12, R13, R14, R15]"

definition "enum_all_reg P = list_all P (enum_class.enum :: reg list)"

definition "enum_ex_reg P = list_ex P (enum_class.enum :: reg list)"

instance
proof
  show u: "UNIV = set (enum_class.enum :: reg list)"
    unfolding enum_reg_def by (rule UNIV_eq_I) (case_tac x; simp)
  show "distinct (enum_class.enum :: reg list)" by (simp add: enum_reg_def)
  show "enum_class.enum_all P = Ball UNIV P" for P :: "reg \<Rightarrow> bool"
    by (simp add: enum_all_reg_def u list_all_iff)
  show "enum_class.enum_ex P = Bex UNIV P" for P :: "reg \<Rightarrow> bool"
    by (simp add: enum_ex_reg_def u list_ex_iff)
qed

end

lemma regs_eqI: "map f (enum_class.enum :: reg list) = map g enum_class.enum \<Longrightarrow> f = g"
  by (simp add: fun_eq_iff flip: UNIV_enum)

text \<open>Memory holds quadwords; the stack only uses addresses that are multiples of eight.\<close>

record cpu =
  regs :: "reg \<Rightarrow> u64"
  rsp :: u64
  rip :: u64
  rflags :: u64
  seg_cs :: u16
  seg_ss :: u16
  cells :: "u64 \<Rightarrow> u64"

definition push :: "u64 \<Rightarrow> cpu \<Rightarrow> cpu" where
  "push v c = c\<lparr>rsp := rsp c - 8, cells := (cells c)(rsp c - 8 := v)\<rparr>"

text \<open>The instructions of the stubs; \<open>Call_handler\<close> is \<open>call isr_handler\<close>, the jump to the common code is sequencing.\<close>

datatype instr = Push_imm u64 | Push reg | Pop reg | Load_sp u64 reg | Add_sp u64 | Call_handler | Iretq

text \<open>
  A call has two effects: \<open>h\<close>, the C function, on the kernel, with the low halves of \<open>rdi\<close> and \<open>rsi\<close> as its
  \<open>int\<close> parameters, and \<open>abi\<close>, its compiled code, on registers and stack.
\<close>

fun exec ::
  "(s32 \<Rightarrow> s32 \<Rightarrow> kernel \<Rightarrow> kernel result) \<Rightarrow> (cpu \<Rightarrow> cpu) \<Rightarrow> instr \<Rightarrow> cpu \<times> kernel \<Rightarrow> (cpu \<times> kernel) result" where
  "exec h abi (Push_imm v) (c, k) = Inr (push v c, k)"
| "exec h abi (Push r) (c, k) = Inr (push (regs c r) c, k)"
| "exec h abi (Pop r) (c, k) = Inr (c\<lparr>regs := (regs c)(r := cells c (rsp c)), rsp := rsp c + 8\<rparr>, k)"
| "exec h abi (Load_sp n r) (c, k) = Inr (c\<lparr>regs := (regs c)(r := cells c (rsp c + n))\<rparr>, k)"
| "exec h abi (Add_sp n) (c, k) = Inr (c\<lparr>rsp := rsp c + n\<rparr>, k)"
| "exec h abi Call_handler (c, k) =
    bind_r (h (ucast (regs c RDI)) (ucast (regs c RSI)) k) (\<lambda>k. Inr (abi c, k))"
| "exec h abi Iretq (c, k) =
    Inr (c\<lparr>rip := cells c (rsp c), seg_cs := ucast (cells c (rsp c + 8)), rflags := cells c (rsp c + 16),
      rsp := cells c (rsp c + 24), seg_ss := ucast (cells c (rsp c + 32))\<rparr>, k)"

text \<open>
  Delivery through an interrupt gate in 64-bit mode: the stack pointer is aligned to sixteen, the interrupted
  context is pushed, for some exceptions an error code too, and interrupts go off.
\<close>

text \<open>
  Intel's list. AMD processors that have the exceptions 29 and 30 push an error code for them too, where the stubs push a dummy;
  these are not followed.
\<close>

definition has_error_code :: "nat \<Rightarrow> bool" where
  "has_error_code v \<longleftrightarrow> v \<in> {8, 10, 11, 12, 13, 14, 17, 21}"

definition deliver :: "nat \<Rightarrow> u64 \<Rightarrow> u64 \<Rightarrow> cpu \<Rightarrow> cpu" where
  "deliver v err target c =
    (let c' = push (rip c) (push (ucast (seg_cs c)) (push (rflags c) (push (rsp c) (push (ucast (seg_ss c))
           (c\<lparr>rsp := rsp c AND NOT (mask 4)\<rparr>)))));
         c' = (if has_error_code v then push err c' else c')
     in c'\<lparr>rip := target, seg_cs := 0x08, rflags := unset_bit 9 (rflags c)\<rparr>)"

section \<open>The stubs (interrupts.s)\<close>

definition isr_stubs :: "instr list list" where
  "isr_stubs =
    [[Push_imm 0, Push_imm 0], [Push_imm 0, Push_imm 1], [Push_imm 0, Push_imm 2], [Push_imm 0, Push_imm 3],
     [Push_imm 0, Push_imm 4], [Push_imm 0, Push_imm 5], [Push_imm 0, Push_imm 6], [Push_imm 0, Push_imm 7],
     [Push_imm 8],
     [Push_imm 0, Push_imm 9],
     [Push_imm 10], [Push_imm 11], [Push_imm 12], [Push_imm 13], [Push_imm 14],
     [Push_imm 0, Push_imm 15], [Push_imm 0, Push_imm 16],
     [Push_imm 17],
     [Push_imm 0, Push_imm 18], [Push_imm 0, Push_imm 19], [Push_imm 0, Push_imm 20],
     [Push_imm 21],
     [Push_imm 0, Push_imm 22], [Push_imm 0, Push_imm 23], [Push_imm 0, Push_imm 24], [Push_imm 0, Push_imm 25],
     [Push_imm 0, Push_imm 26], [Push_imm 0, Push_imm 27], [Push_imm 0, Push_imm 28], [Push_imm 0, Push_imm 29],
     [Push_imm 0, Push_imm 30], [Push_imm 0, Push_imm 31],
     [Push_imm 0, Push_imm 32], [Push_imm 0, Push_imm 33]]"

definition isr_common :: "instr list" where
  "isr_common =
    [Push RAX, Push RBX, Push RCX, Push RDX, Push RBP, Push RSI, Push RDI, Push R8, Push R9, Push R10, Push R11,
     Push R12, Push R13, Push R14, Push R15,
     Load_sp 120 RDI, Load_sp 128 RSI, Call_handler,
     Pop R15, Pop R14, Pop R13, Pop R12, Pop R11, Pop R10, Pop R9, Pop R8, Pop RDI, Pop RSI, Pop RBP, Pop RDX,
     Pop RCX, Pop RBX, Pop RAX,
     Add_sp 16, Iretq]"

definition interrupt ::
  "(s32 \<Rightarrow> s32 \<Rightarrow> kernel \<Rightarrow> kernel result) \<Rightarrow> (cpu \<Rightarrow> cpu) \<Rightarrow> nat \<Rightarrow> u64 \<Rightarrow> u64 \<Rightarrow> cpu \<times> kernel \<Rightarrow> (cpu \<times> kernel) result" where
  "interrupt h abi v err target = (\<lambda>(c, k).
    seq_r (map (exec h abi) (isr_stubs ! v @ isr_common)) (deliver v err target c, k))"

section \<open>What the C code is told, and what the interrupted code sees\<close>

text \<open>
  The calling convention of the compiled handler: called on a stack pointer that is a multiple of sixteen, it
  returns with the same one, and the 176 bytes above, the frame of the interrupt, are as before.
\<close>

definition abi_ok :: "(cpu \<Rightarrow> cpu) \<Rightarrow> bool" where
  "abi_ok abi \<longleftrightarrow> (\<forall>c. rsp c AND mask 4 = 0 \<longrightarrow>
    rsp (abi c) = rsp c \<and> (\<forall>a. unat (a - rsp c) < 176 \<longrightarrow> cells (abi c) a = cells c a))"

text \<open>Sixteen bytes of error code and vector on top of the processor's forty.\<close>

definition frame_top :: "cpu \<Rightarrow> u64" where "frame_top c = rsp c AND NOT (mask 4)"

definition framed :: "u64 \<Rightarrow> u64 \<Rightarrow> cpu \<Rightarrow> cpu \<Rightarrow> bool" where
  "framed n e c0 c \<longleftrightarrow> rsp c = frame_top c0 - 56 \<and> regs c = regs c0
    \<and> cells c (frame_top c0 - 56) = n \<and> cells c (frame_top c0 - 48) = e
    \<and> cells c (frame_top c0 - 40) = rip c0 \<and> cells c (frame_top c0 - 32) = ucast (seg_cs c0)
    \<and> cells c (frame_top c0 - 24) = rflags c0 \<and> cells c (frame_top c0 - 16) = rsp c0
    \<and> cells c (frame_top c0 - 8) = ucast (seg_ss c0)"

lemma stub_frames:
  assumes "v < 34"
  shows "\<exists>c'. seq_r (map (exec h abi) (isr_stubs ! v)) (deliver v err target c, k) = Inr (c', k)
    \<and> framed (of_nat v) (if has_error_code v then err else 0) c c'"
proof -
  have "\<forall>v \<in> set [0..<34]. isr_stubs ! v = (if has_error_code v then [Push_imm (of_nat v)] else [Push_imm 0, Push_imm (of_nat v)])"
    by (simp add: isr_stubs_def has_error_code_def upt_conv_Cons)
  then have stub: "isr_stubs ! v = (if has_error_code v then [Push_imm (of_nat v)] else [Push_imm 0, Push_imm (of_nat v)])"
    using assms by simp
  show ?thesis unfolding stub by (simp add: deliver_def push_def framed_def frame_top_def Let_def)
qed

definition saved :: "cpu \<Rightarrow> cpu \<Rightarrow> bool" where
  "saved c c' \<longleftrightarrow> rsp c' = rsp c - 120 \<and> (\<forall>a. unat (a - rsp c) < 56 \<longrightarrow> cells c' a = cells c a)
    \<and> map (\<lambda>i. cells c' (rsp c - 8 * of_nat (Suc i))) [0..<15]
      = map (regs c) enum_class.enum"

definition saves :: "instr list" where
  "saves = map Push enum_class.enum"

lemma saves_ok:
  "\<exists>c'. seq_r (map (exec h abi) saves) (c, k) = Inr (c', k) \<and> saved c c' \<and> regs c' = regs c"
proof -
  have far: "rsp c - n \<noteq> a" if "unat (a - rsp c) < 56" "n \<in> {8,16,24,32,40,48,56,64,72,80,88,96,104,112,120}" for a n
  proof
    assume "rsp c - n = a"
    then have "a - rsp c = - n" by (simp add: algebra_simps)
    with that show False by auto
  qed
  show ?thesis
    by (simp add: saves_def enum_reg_def push_def saved_def upt_conv_Cons far)
qed

definition restores :: "instr list" where
  "restores = map Pop (rev enum_class.enum) @ [Add_sp 16, Iretq]"

definition resumed :: "cpu \<Rightarrow> cpu \<Rightarrow> bool" where
  "resumed c c' \<longleftrightarrow> regs c' = regs c \<and> rsp c' = rsp c \<and> rip c' = rip c \<and> rflags c' = rflags c \<and> seg_cs c' = seg_cs c \<and> seg_ss c' = seg_ss c"

definition calls :: "instr list" where
  "calls = [Load_sp 120 RDI, Load_sp 128 RSI, Call_handler]"

lemma common_code: "isr_common = saves @ calls @ restores"
  by (simp add: isr_common_def saves_def calls_def restores_def enum_reg_def)

lemma restores_ok:
  assumes "framed n e c0 c" and "saved c c'"
  shows "\<exists>c''. seq_r (map (exec h abi) restores) (c', k) = Inr (c'', k) \<and> resumed c0 c''"
proof -
  let ?b = "frame_top c0"
  have keep: "cells c' a = cells c a" if "unat (a - (?b - 56)) < 56" for a
    using that assms by (simp add: saved_def framed_def)
  have frame: "cells c' (?b - 40) = rip c0" "cells c' (?b - 32) = ucast (seg_cs c0)" "cells c' (?b - 24) = rflags c0"
    "cells c' (?b - 16) = rsp c0" "cells c' (?b - 8) = ucast (seg_ss c0)"
    using assms(1) by (simp_all add: keep framed_def)
  have regs: "cells c' (?b - 64) = regs c0 RAX" "cells c' (?b - 72) = regs c0 RBX" "cells c' (?b - 80) = regs c0 RCX"
    "cells c' (?b - 88) = regs c0 RDX" "cells c' (?b - 96) = regs c0 RBP" "cells c' (?b - 104) = regs c0 RSI"
    "cells c' (?b - 112) = regs c0 RDI" "cells c' (?b - 120) = regs c0 R8" "cells c' (?b - 128) = regs c0 R9"
    "cells c' (?b - 136) = regs c0 R10" "cells c' (?b - 144) = regs c0 R11" "cells c' (?b - 152) = regs c0 R12"
    "cells c' (?b - 160) = regs c0 R13" "cells c' (?b - 168) = regs c0 R14" "cells c' (?b - 176) = regs c0 R15"
    using assms by (simp_all add: saved_def framed_def enum_reg_def upt_conv_Cons)
  have sp: "rsp c' = ?b - 176" using assms by (simp add: saved_def framed_def)
  have cast: "ucast (ucast w :: u64) = w" for w :: u16
    by (rule bit_word_eqI) (simp add: bit_simps)
  show ?thesis
    by (simp add: restores_def enum_reg_def sp regs frame resumed_def cast) (rule regs_eqI, simp add: enum_reg_def)
qed

lemma aligned_frame: "(frame_top c - 176) AND mask 4 = 0"
proof -
  have "frame_top c = push_bit 4 (drop_bit 4 (frame_top c))"
    by (rule bit_word_eqI) (auto simp: frame_top_def bit_simps)
  then have "frame_top c - 176 = push_bit 4 (drop_bit 4 (frame_top c) - 11)"
    by (simp add: push_bit_eq_mult algebra_simps)
  moreover have "push_bit 4 w AND mask 4 = 0" for w :: u64 by (rule bit_word_eqI) (auto simp: bit_simps)
  ultimately show ?thesis by simp
qed

lemma abi_saved:
  assumes "abi_ok abi" and "saved c c'" and "rsp c' AND mask 4 = 0"
  shows "saved c (abi (c'\<lparr>regs := f\<rparr>))"
proof -
  let ?a = "abi (c'\<lparr>regs := f\<rparr>)"
  have keep: "rsp ?a = rsp c'" "unat (a - rsp c') < 176 \<Longrightarrow> cells ?a a = cells c' a" for a
    using assms(1,3) by (simp_all add: abi_ok_def)
  have sp: "rsp c' = rsp c - 120" using assms(2) by (simp add: saved_def)
  have "unat (a - rsp c') < 176" if "unat (a - rsp c) < 56" for a
  proof -
    have diff: "a - rsp c' = (a - rsp c) + 120" by (simp add: sp)
    have "unat ((a - rsp c) + 120) = unat (a - rsp c) + 120" using that by (subst unat_word_ariths) simp
    then show ?thesis using that unfolding diff by linarith
  qed
  then have "unat (a - rsp c) < 56 \<Longrightarrow> cells ?a a = cells c a" for a
    using keep(2) assms(2) by (simp add: saved_def)
  moreover have "unat (rsp c - 8 * of_nat (Suc i) - rsp c') < 176" if "i \<in> set [0..<15]" for i
    using that sp by (auto simp: upt_conv_Cons)
  then have "map (\<lambda>i. cells ?a (rsp c - 8 * of_nat (Suc i))) [0..<15] = map (\<lambda>i. cells c' (rsp c - 8 * of_nat (Suc i))) [0..<15]"
    using keep(2) by (intro map_cong refl) blast
  ultimately show ?thesis using assms(2) keep(1) unfolding saved_def by metis
qed

lemma interrupt_ok:
  assumes "v < 34" and "abi_ok abi" and "h (of_nat v) (if has_error_code v then ucast err else 0) k = Inr k'"
  shows "\<exists>c'. interrupt h abi v err target (c, k) = Inr (c', k') \<and> resumed c c'"
proof -
  let ?e = "if has_error_code v then err else 0"
  obtain c1 where c1: "seq_r (map (exec h abi) (isr_stubs ! v)) (deliver v err target c, k) = Inr (c1, k)"
    "framed (of_nat v) ?e c c1"
    using stub_frames [OF assms(1)] by blast
  obtain c2 where c2: "seq_r (map (exec h abi) saves) (c1, k) = Inr (c2, k)" "saved c1 c2"
    using saves_ok by blast
  have sp: "rsp c1 = frame_top c - 56" "rsp c2 = frame_top c - 176" using c1(2) c2(2) by (simp_all add: framed_def saved_def)
  have keep: "unat (a - rsp c1) < 56 \<Longrightarrow> cells c2 a = cells c1 a" for a using c2(2) by (simp add: saved_def)
  have args: "cells c2 (rsp c2 + 120) = of_nat v" "cells c2 (rsp c2 + 128) = ?e"
    using c1(2) sp keep [of "frame_top c - 56"] keep [of "frame_top c - 48"] by (simp_all add: framed_def)
  have "ucast (of_nat v :: u64) = (of_nat v :: s32)" using assms(1) by (simp add: unsigned_of_nat take_bit_nat_eq_self)
  with args assms(3) have "\<exists>f. seq_r (map (exec h abi) calls) (c2, k) = Inr (abi (c2\<lparr>regs := f\<rparr>), k')"
    by (auto simp: calls_def split: if_splits)
  then obtain f where f: "seq_r (map (exec h abi) calls) (c2, k) = Inr (abi (c2\<lparr>regs := f\<rparr>), k')" ..
  have "saved c1 (abi (c2\<lparr>regs := f\<rparr>))"
    using aligned_frame [of c] sp by (intro abi_saved [OF assms(2) c2(2)]) simp
  from restores_ok [OF c1(2) this] obtain c3 where
    "seq_r (map (exec h abi) restores) (abi (c2\<lparr>regs := f\<rparr>), k') = Inr (c3, k')" "resumed c c3" by blast
  with c1(1) c2(1) f show ?thesis
    by (auto simp: interrupt_def common_code seq_r_append simp del: seq_r.simps list.map)
qed

text \<open>
  C22: Interrupt delivery, from the assembly to C: for each of the 34 vectors the stub and the common code call
  \<open>isr_handler\<close> with the vector and the processor's error code (0 if the exception has none), on a
  stack aligned for the calling convention; when it returns, the interrupted code goes on with all its registers, its
  stack pointer, flags, segments and instruction pointer, and the kernel state is the one
  \<open>isr_handler\<close> left.
\<close>

theorem interrupt_transparent:
  assumes "v < 34" and "abi_ok abi"
    and "isr_handler d fault junk buf (of_nat v) (if has_error_code v then ucast err else 0) k = Inr k'"
  shows "\<exists>c'. interrupt (\<lambda>int_num code. isr_handler d fault junk buf int_num code) abi v err target (c, k) = Inr (c', k')
    \<and> regs c' = regs c \<and> rsp c' = rsp c \<and> rip c' = rip c \<and> rflags c' = rflags c \<and> seg_cs c' = seg_cs c \<and> seg_ss c' = seg_ss c"
  using interrupt_ok [OF assms(1,2), of "isr_handler d fault junk buf" err k k' target c] assms(3) by (simp add: resumed_def)

text \<open>A timer interrupt that leaves all registers the handler may use at zero.\<close>

definition sample_cpu :: cpu where
  "sample_cpu = \<lparr>regs = (\<lambda>r. 7), rsp = 0x107FF8, rip = 0x100123, rflags = 0x202, seg_cs = 8, seg_ss = 0x10, cells = (\<lambda>a. 0)\<rparr>"

theorem interrupt_transparent_witness:
  "\<exists>c' k'. interrupt (\<lambda>int_num code. isr_handler (press 0) 0 [] [] int_num code) (\<lambda>c. c\<lparr>regs := \<lambda>r. 0\<rparr>) 32 0 0x100FF0
      (sample_cpu, sample_kernel) = Inr (c', k')
    \<and> regs c' RAX = 7 \<and> rsp c' = 0x107FF8 \<and> rip c' = 0x100123 \<and> k_ticks k' = 1"
proof -
  have "abi_ok (\<lambda>c. c\<lparr>regs := \<lambda>r. 0\<rparr>)" by (simp add: abi_ok_def)
  moreover obtain k' where "isr_handler (press 0) 0 [] [] 32 0 sample_kernel = Inr k'" "k_ticks k' = 1"
    using timer_tick_ok [OF sample_kernel_ok] by (simp add: isr_handler_def) (simp add: sample_kernel_def)
  ultimately show ?thesis
    using interrupt_transparent [of 32 "\<lambda>c. c\<lparr>regs := \<lambda>r. 0\<rparr>" "press 0" 0 "[]" "[]" 0 sample_kernel k' "0x100FF0" sample_cpu]
    by (auto simp: has_error_code_def sample_cpu_def)
qed

end
