(* ===== verification/Relate.thy ===== *)
theory Relate
  imports Interrupts
begin

text \<open>
  Relational reasoning about the whole kernel above the drawing routines: a relation between screens that the drawing
  routines and the text's variables respect is respected by every function of the console, the shell, the keyboard and the
  interrupt handler. Each function is related to itself by a transfer rule.
\<close>

section \<open>Control structures\<close>

lemma bind_r_transfer [transfer_rule]:
  "rel_fun (rel_sum (=) A) (rel_fun (rel_fun A (rel_sum (=) B)) (rel_sum (=) B)) bind_r bind_r"
  unfolding bind_r_def [abs_def] by transfer_prover

lemma for_n_transfer [transfer_rule]:
  "rel_fun (=) (rel_fun (rel_fun (=) (rel_fun A A)) (rel_fun A A)) for_n for_n"
  unfolding for_n_def by transfer_prover

lemma for_r_transfer [transfer_rule]:
  "rel_fun (=) (rel_fun (rel_fun (=) (rel_fun A (rel_sum (=) A))) (rel_fun A (rel_sum (=) A))) for_r for_r"
  unfolding for_r_def by transfer_prover

lemma seq_r_transfer [transfer_rule]:
  "rel_fun (list_all2 (rel_fun A (rel_sum (=) A))) (rel_fun A (rel_sum (=) A)) seq_r seq_r"
proof -
  have "rel_fun A (rel_sum (=) A) (seq_r fs) (seq_r gs)" if "list_all2 (rel_fun A (rel_sum (=) A)) fs gs" for fs gs
    using that
  proof (induction rule: list_all2_induct)
    case (Cons f fs g gs)
    then show ?case using bind_r_transfer [of A A] by (fastforce simp: rel_fun_def)
  qed (simp add: rel_fun_def)
  then show ?thesis by (simp add: rel_fun_def)
qed

text \<open>A program over the console whose results, from screens related by \<open>R\<close>, are related by \<open>S\<close>.\<close>

definition program_rel :: "(fb \<Rightarrow> fb \<Rightarrow> bool) \<Rightarrow> ('a \<Rightarrow> 'a \<Rightarrow> bool) \<Rightarrow> (fb \<Rightarrow> 'a result) \<Rightarrow> bool" where
  "program_rel R S f \<longleftrightarrow> rel_fun R (rel_sum (=) S) f f"

named_theorems program_rules "rules for console programs that respect a relation"

text \<open>Kernels with related screens and nothing else between them.\<close>

definition over :: "(fb \<Rightarrow> fb \<Rightarrow> bool) \<Rightarrow> kernel \<Rightarrow> kernel \<Rightarrow> bool" where
  "over R k l \<longleftrightarrow> R (k_screen k) (k_screen l) \<and> l = k\<lparr>k_screen := k_screen l\<rparr>"

lemma overE:
  "over R k l \<Longrightarrow> (\<And>st. R (k_screen k) st \<Longrightarrow> l = k\<lparr>k_screen := st\<rparr> \<Longrightarrow> thesis) \<Longrightarrow> thesis"
  by (auto simp: over_def)

lemma over_set:
  "over R k l \<Longrightarrow> R a b \<Longrightarrow> over R (k\<lparr>k_screen := a\<rparr>) (l\<lparr>k_screen := b\<rparr>)"
  "over R k l \<Longrightarrow> over R (k\<lparr>k_ports := tr\<rparr>) (l\<lparr>k_ports := tr\<rparr>)"
  "over R k l \<Longrightarrow> over R (k\<lparr>k_disk := dr\<rparr>) (l\<lparr>k_disk := dr\<rparr>)"
  "over R k l \<Longrightarrow> over R (k\<lparr>k_ticks := t\<rparr>) (l\<lparr>k_ticks := t\<rparr>)"
  by (erule overE, simp add: over_def)+

lemma over_trans: "transp R \<Longrightarrow> over R k l \<Longrightarrow> over R l m \<Longrightarrow> over R k m"
  by (erule overE, erule overE) (auto simp: over_def dest: transpD)

lemma over_fields [transfer_rule]:
  "rel_fun (over R) (=) k_ports k_ports" "rel_fun (over R) (=) k_ticks k_ticks" "rel_fun (over R) R k_screen k_screen"
  "rel_fun (over R) (=) k_kbd k_kbd" "rel_fun (over R) (=) k_shell k_shell" "rel_fun (over R) (=) k_pages k_pages"
  "rel_fun (over R) (=) k_disk k_disk"
  by (auto simp: rel_fun_def elim!: overE)

lemma over_updates [transfer_rule]:
  "rel_fun (=) (rel_fun (over R) (over R)) k_ports_update k_ports_update"
  "rel_fun (=) (rel_fun (over R) (over R)) k_ticks_update k_ticks_update"
  "rel_fun (rel_fun R R) (rel_fun (over R) (over R)) k_screen_update k_screen_update"
  "rel_fun (=) (rel_fun (over R) (over R)) k_kbd_update k_kbd_update"
  "rel_fun (=) (rel_fun (over R) (over R)) k_shell_update k_shell_update"
  "rel_fun (=) (rel_fun (over R) (over R)) k_disk_update k_disk_update"
  by (auto simp: rel_fun_def elim!: overE) (simp_all add: over_def)

section \<open>The contract of the drawing routines\<close>

locale screen_relation =
  fixes R :: "fb \<Rightarrow> fb \<Rightarrow> bool"
  assumes geometry_rel [transfer_rule]: "rel_fun R (=) fb_cols fb_cols" "rel_fun R (=) fb_rows fb_rows"
    and variables_rel [transfer_rule]: "rel_fun R (=) cur_col cur_col" "rel_fun R (=) cur_row cur_row"
      "rel_fun R (=) theme_fg theme_fg" "rel_fun R (=) theme_bg theme_bg" "rel_fun R (=) last_activity last_activity"
      "rel_fun R (=) screen_buf screen_buf"
    and updates_rel [transfer_rule]: "rel_fun (=) (rel_fun R R) cur_col_update cur_col_update"
      "rel_fun (=) (rel_fun R R) cur_row_update cur_row_update" "rel_fun (=) (rel_fun R R) theme_fg_update theme_fg_update"
      "rel_fun (=) (rel_fun R R) theme_bg_update theme_bg_update"
      "rel_fun (=) (rel_fun R R) last_activity_update last_activity_update"
      "rel_fun (=) (rel_fun R R) screen_buf_update screen_buf_update"
    and clear_rel [transfer_rule]: "rel_fun (=) (rel_fun R R) fb_clear fb_clear"
    and fill_rel [transfer_rule]: "rel_fun (=) (rel_fun (=) (rel_fun (=) (rel_fun R R))) fb_fill_cell fb_fill_cell"
    and char_rel [transfer_rule]: "rel_fun (=) (rel_fun (=) (rel_fun (=) (rel_fun (=) (rel_fun (=) (rel_fun R (rel_sum (=) R))))))
      fb_draw_char fb_draw_char"
    and scroll_rel [transfer_rule]: "rel_fun R (rel_sum (=) R) fb_scroll fb_scroll"
begin

lemma cursor_rel [transfer_rule]:
  "rel_fun R R fb_draw_cursor fb_draw_cursor" "rel_fun R R fb_erase_cursor fb_erase_cursor"
  unfolding fb_draw_cursor_def [abs_def] fb_erase_cursor_def [abs_def] by transfer_prover+

lemma set_cell_rel [transfer_rule]:
  "rel_fun (=) (rel_fun (=) (rel_fun (=) (rel_fun R R))) set_cell set_cell"
  unfolding set_cell_def [abs_def] by transfer_prover

text \<open>The text.\<close>

lemma scroll_if_rel [transfer_rule]: "rel_fun R (rel_sum (=) R) scroll_if_needed scroll_if_needed"
  unfolding scroll_if_needed_def [abs_def] by transfer_prover

lemma setters_rel [transfer_rule]:
  "rel_fun (=) (rel_fun R R) fb_update_cursor fb_update_cursor"
  "rel_fun (=) (rel_fun R R) fb_cursor_activity fb_cursor_activity"
  "rel_fun R (=) fb_get_row fb_get_row" "rel_fun (=) (rel_fun R (rel_sum (=) R)) fb_set_row fb_set_row"
  "rel_fun (=) (rel_fun R R) fb_set_col fb_set_col" "rel_fun R R advance advance"
  "rel_fun R R fb_backspace fb_backspace"
  unfolding fb_update_cursor_def [abs_def] fb_cursor_activity_def [abs_def] fb_get_row_def [abs_def] fb_set_row_def [abs_def]
    fb_set_col_def [abs_def] advance_def [abs_def] fb_backspace_def [abs_def]
  by transfer_prover+

lemma write_loop_rel: "rel_fun R (rel_sum (=) R) (write_loop row col fg bg i chars) (write_loop row col fg bg i chars)"
proof (induction chars arbitrary: i)
  case Nil
  then show ?case by (simp add: rel_fun_def)
next
  case (Cons a as)
  define rest where "rest = (\<lambda>i. write_loop row col fg bg i as)"
  have [transfer_rule]: "rel_fun (=) (rel_fun R (rel_sum (=) R)) rest rest" using Cons.IH by (simp add: rest_def rel_fun_def)
  have eq: "write_loop row col fg bg i (a # as) = (\<lambda>st. if a \<noteq> 0 \<and> col + i < fb_cols st
     then bind_r (fb_draw_char (col + i) row a fg bg st) (\<lambda>st. bind_r (int_inc i) (\<lambda>i. rest i st)) else Inr st)"
    by (simp add: rest_def fun_eq_iff)
  show ?case unfolding eq by transfer_prover
qed

lemma print_loop_rel: "rel_fun R (rel_sum (=) R) (print_loop fg bg i chars) (print_loop fg bg i chars)"
proof (induction chars arbitrary: i)
  case Nil
  then show ?case by (simp add: rel_fun_def)
next
  case (Cons a as)
  define rest where "rest = (\<lambda>i. print_loop fg bg i as)"
  have [transfer_rule]: "rel_fun (=) (rel_fun R (rel_sum (=) R)) rest rest" using Cons.IH by (simp add: rest_def rel_fun_def)
  have eq: "print_loop fg bg i (a # as) = (\<lambda>st. if a = 0 then Inr st else bind_r (scroll_if_needed st) (\<lambda>st.
      bind_r (fb_draw_char (cur_col st) (cur_row st) a fg bg st) (\<lambda>st. bind_r (int_inc i) (\<lambda>i. rest i (advance st)))))"
    by (simp add: rest_def fun_eq_iff)
  show ?case unfolding eq by transfer_prover
qed

lemma loops_rel [transfer_rule]:
  "rel_fun (=) (rel_fun (=) (rel_fun (=) (rel_fun (=) (rel_fun (=) (rel_fun (=) (rel_fun R (rel_sum (=) R))))))) write_loop write_loop"
  "rel_fun (=) (rel_fun (=) (rel_fun (=) (rel_fun (=) (rel_fun R (rel_sum (=) R))))) print_loop print_loop"
  using write_loop_rel print_loop_rel by (simp_all add: rel_fun_def)

lemma printing_rel [transfer_rule]:
  "rel_fun (=) (rel_fun (=) (rel_fun (=) (rel_fun (=) (rel_fun (=) (rel_fun R (rel_sum (=) R)))))) write_fb write_fb"
  "rel_fun (=) (rel_fun R (rel_sum (=) R)) fb_print fb_print" "rel_fun (=) (rel_fun R (rel_sum (=) R)) fb_println fb_println"
proof -
  show [transfer_rule]: "rel_fun (=) (rel_fun (=) (rel_fun (=) (rel_fun (=) (rel_fun (=) (rel_fun R (rel_sum (=) R)))))) write_fb write_fb"
    unfolding write_fb_def [abs_def] by transfer_prover
  show "rel_fun (=) (rel_fun R (rel_sum (=) R)) fb_print fb_print"
    unfolding fb_print_def [abs_def] fb_print_color_def by transfer_prover
  show "rel_fun (=) (rel_fun R (rel_sum (=) R)) fb_println fb_println"
    unfolding fb_println_def [abs_def] fb_println_color_def by transfer_prover
qed

lemma redraw_rel [transfer_rule]:
  "rel_fun R R fb_clear_screen fb_clear_screen"
  "rel_fun (=) (rel_fun (=) (rel_fun R (rel_sum (=) R))) fb_update_theme fb_update_theme"
proof -
  show "rel_fun R R fb_clear_screen fb_clear_screen"
    unfolding fb_clear_screen_def [abs_def] buf_rows_def buf_cols_def by transfer_prover
  have [transfer_rule]: "rel_fun (=) (rel_fun (=) (rel_fun R (rel_sum (=) R))) redraw_cell redraw_cell"
    unfolding redraw_cell_def [abs_def] by transfer_prover
  have [transfer_rule]: "rel_fun R (rel_sum (=) R) redraw_screen redraw_screen"
    unfolding redraw_screen_def [abs_def] buf_rows_def buf_cols_def by transfer_prover
  show "rel_fun (=) (rel_fun (=) (rel_fun R (rel_sum (=) R))) fb_update_theme fb_update_theme"
    unfolding fb_update_theme_def [abs_def] by transfer_prover
qed

text \<open>The shell.\<close>

lemma program_ops [program_rules]:
  "program_rel R R (fb_print chars)" "program_rel R R (fb_println chars)" "program_rel R R (fb_update_theme fg bg)"
  "program_rel R R (\<lambda>st. Inr (fb_clear_screen st))" "program_rel R S (\<lambda>st. Inl e)"
  "program_rel R R (\<lambda>st. Inr st)" "program_rel R (rel_prod R (=)) (\<lambda>st. Inr (st, tr))"
  using printing_rel(2,3) redraw_rel by (simp_all add: program_rel_def rel_fun_def)

lemma program_bind [program_rules]:
  "program_rel R R f \<Longrightarrow> program_rel R S g \<Longrightarrow> program_rel R S (\<lambda>st. bind_r (f st) g)"
  using bind_r_transfer [of R S] by (simp add: program_rel_def rel_fun_def)

lemma program_value [program_rules]:
  "(\<And>x. program_rel R S (f x)) \<Longrightarrow> program_rel R S (\<lambda>st. bind_r r (\<lambda>x. f x st))"
  by (cases r) (simp_all add: program_rel_def rel_fun_def)

lemma program_seq [program_rules]: "list_all (program_rel R R) fs \<Longrightarrow> program_rel R R (seq_r fs)"
proof (induction fs)
  case (Cons f fs)
  then show ?case using program_bind [of f R "seq_r fs"] by simp
qed (simp add: program_rel_def rel_fun_def)

lemma program_if [program_rules]:
  "program_rel R S f \<Longrightarrow> program_rel R S g \<Longrightarrow> program_rel R S (\<lambda>st. if b then f st else g st)"
  by (cases b) simp_all

lemma program_switch [program_rules]:
  "program_rel R S r \<Longrightarrow> program_rel R S (\<lambda>st. str_switch a (cs st) (d st)) \<Longrightarrow> program_rel R S (\<lambda>st. str_switch a ((t, r st) # cs st) (d st))"
  "program_rel R S d \<Longrightarrow> program_rel R S (\<lambda>st. str_switch a [] (d st))"
  unfolding str_switch.simps by (auto intro!: program_value program_if)

lemma commands_program [program_rules]:
  "program_rel R R (cmd_help fb_println n)" "program_rel R R (cmd_clear fb_println fb_clear_screen n)"
  "program_rel R R (cmd_mem fb_print fb_println p junk n)" "program_rel R R (cmd_disk fb_print fb_println dr junk n)"
  "program_rel R R (cmd_theme fb_print fb_println fb_update_theme argv)"
  "program_rel R R (cmd_unknown fb_print fb_println name)"
  "program_rel R (rel_prod R (=)) (\<lambda>st. cmd_reboot fb_println n (st, tr))"
  unfolding cmd_help_def [abs_def] cmd_clear_def [abs_def] cmd_mem_def [abs_def] cmd_disk_def [abs_def] cmd_theme_def [abs_def]
    cmd_unknown_def [abs_def] cmd_reboot_def Let_def split
  by (auto simp del: seq_r.simps intro!: program_rules)

lemma shell_program:
  "program_rel R (rel_prod R (=)) (\<lambda>st. shell_exec_args p dr junk argv (st, tr))"
  unfolding shell_exec_args_def shell_exec_args_on_def Let_def split by (intro program_rules)

lemma shell_exec_rel [transfer_rule]:
  "rel_fun (=) (rel_fun (=) (rel_fun (=) (rel_fun (=) (rel_fun (rel_prod (=) (rel_prod R (=))) (rel_sum (=) (rel_prod (=) (rel_prod R (=)))))))) 
    shell_exec shell_exec"
proof -
  have [transfer_rule]: "rel_fun (=) (rel_fun (=) (rel_fun (=) (rel_fun (=) (rel_fun (rel_prod R (=)) (rel_sum (=) (rel_prod R (=)))))))
      shell_exec_args shell_exec_args"
    using shell_program by (auto simp: program_rel_def rel_fun_def)
  show ?thesis unfolding shell_exec_def [abs_def] by transfer_prover
qed

text \<open>The handlers.\<close>

lemma keyboard_rel [transfer_rule]:
  "rel_fun (=) (rel_fun (=) (rel_fun (over R) (rel_sum (=) (over R)))) keyboard_handler keyboard_handler"
proof -
  have [transfer_rule]: "rel_fun (=) (rel_fun (over R) (rel_sum (=) (over R))) key_enter key_enter"
    unfolding key_enter_def [abs_def] by transfer_prover
  have [transfer_rule]: "rel_fun (over R) (over R) key_backspace key_backspace"
    unfolding key_backspace_def [abs_def] by transfer_prover
  have [transfer_rule]: "rel_fun (=) (rel_fun (over R) (rel_sum (=) (over R))) key_char key_char"
    unfolding key_char_def [abs_def] by transfer_prover
  show ?thesis unfolding keyboard_handler_def [abs_def] by transfer_prover
qed

lemma timer_rel [transfer_rule]: "rel_fun (over R) (over R) timer_tick timer_tick"
  unfolding timer_tick_def [abs_def] by transfer_prover

lemma isr_rel [transfer_rule]:
  "rel_fun (=) (rel_fun (=) (rel_fun (=) (rel_fun (=) (rel_fun (=) (rel_fun (=) (rel_fun (over R) (rel_sum (=) (over R))))))))
    isr_handler isr_handler"
proof -
  have [transfer_rule]: "rel_fun (=) (rel_fun (=) (rel_fun R (rel_sum (=) R))) report_page_fault report_page_fault"
    unfolding report_page_fault_def [abs_def] by transfer_prover
  have [transfer_rule]: "rel_fun (=) (rel_fun (=) (rel_fun (=) (rel_fun R (rel_sum (=) R)))) report_exception report_exception"
    unfolding report_exception_def [abs_def] by transfer_prover
  show ?thesis unfolding isr_handler_def [abs_def] by transfer_prover
qed

text \<open>The running kernel.\<close>

lemma irq_step_rel:
  assumes "irq_step junk k e k'" and "over R k l"
  shows "\<exists>l'. irq_step junk l e l' \<and> over R k' l'"
proof -
  have isr: "\<exists>l'. isr_handler d fault junk buf n code l = Inr l' \<and> over R k' l'"
    if "isr_handler d fault junk buf n code k = Inr k'" for d fault buf n code
  proof -
    have "rel_sum (=) (over R) (isr_handler d fault junk buf n code k) (isr_handler d fault junk buf n code l)"
      using isr_rel assms(2) by (simp add: rel_fun_def)
    then show ?thesis using that by (cases "isr_handler d fault junk buf n code l") simp_all
  qed
  have same: "pressed d l = pressed d k" for d using assms(2) by (auto simp: pressed_def elim: overE)
  show ?thesis
    using assms(1)
  proof cases
    case (step_tick d fault buf code)
    then show ?thesis using isr irq_step.step_tick by metis
  next
    case (step_key d fault buf code)
    then show ?thesis using isr irq_step.step_key same by metis
  qed
qed

lemma irq_run_rel:
  assumes "irq_run junk k evs k'" and "over R k l"
  shows "\<exists>l'. irq_run junk l evs l' \<and> over R k' l'"
  using assms
proof (induction rule: irq_run.induct)
  case (run_step k evs k1 e k2)
  then show ?case using irq_step_rel irq_run.run_step by metis
qed (auto intro: irq_run.run_idle)

end

end
