(* ===== verification/Preempt.thy ===== *)
theory Preempt
  imports Console
begin

text \<open>
  Printing with interrupts enabled, as in the second half of \<open>kernel_main\<close>: the timer interrupt can come in
  between the statements of the printing functions, and all it does to the console is
  \<open>fb_update_cursor\<close>. The text survives every interleaving; the picture does not.
\<close>

section \<open>Printing functions with interruption points (fb.c)\<close>

text \<open>
  \<open>serve ts\<close>: the timer interrupts at one point, each with the value of the tick counter. A schedule gives
  the interrupts at each point; without any, the functions are those of \<open>Terminal\<close>.
\<close>

definition serve :: "u32 list \<Rightarrow> fb \<Rightarrow> fb" where
  "serve = fold fb_update_cursor"

definition advance_irq :: "u32 list \<Rightarrow> u32 list \<Rightarrow> fb \<Rightarrow> fb" where
  "advance_irq ts ts' st =
    (let st = serve ts (st\<lparr>cur_col := cur_col st + 1\<rparr>)
     in if fb_cols st \<le> cur_col st
        then let st = serve ts' (st\<lparr>cur_col := 0\<rparr>) in st\<lparr>cur_row := cur_row st + 1\<rparr>
        else st)"

fun print_loop_irq :: "(nat \<Rightarrow> u32 list) \<Rightarrow> u32 \<Rightarrow> u32 \<Rightarrow> s32 \<Rightarrow> u8 list \<Rightarrow> fb \<Rightarrow> fb result" where
  "print_loop_irq q fg bg i [] st = Inl Out_of_bounds"
| "print_loop_irq q fg bg i (a # as) st =
    (let st = serve (q 0) st in
     if a = 0 then Inr st
     else bind_r (scroll_if_needed st) (\<lambda>st.
          let st = serve (q 1) st in
          bind_r (fb_draw_char (cur_col st) (cur_row st) a fg bg st) (\<lambda>st.
          let st = advance_irq (q 3) (q 4) (serve (q 2) st) in
          bind_r (int_inc i) (\<lambda>i. print_loop_irq (\<lambda>n. q (n + 5)) fg bg i as st))))"

definition fb_print_irq :: "(nat \<Rightarrow> u32 list) \<Rightarrow> u8 list \<Rightarrow> fb \<Rightarrow> fb result" where
  "fb_print_irq q chars st =
    bind_r (print_loop_irq q (theme_fg st) (theme_bg st) 0 chars (fb_erase_cursor st)) (\<lambda>st. Inr (fb_draw_cursor st))"

fun write_loop_irq ::
  "(nat \<Rightarrow> u32 list) \<Rightarrow> s32 \<Rightarrow> s32 \<Rightarrow> u32 \<Rightarrow> u32 \<Rightarrow> s32 \<Rightarrow> u8 list \<Rightarrow> fb \<Rightarrow> fb result" where
  "write_loop_irq q row col fg bg i [] st = Inl Out_of_bounds"
| "write_loop_irq q row col fg bg i (a # as) st =
    (let st = serve (q 0) st in
     if a \<noteq> 0 \<and> col + i < fb_cols st
     then bind_r (fb_draw_char (col + i) row a fg bg st) (\<lambda>st.
          bind_r (int_inc i) (\<lambda>i. write_loop_irq (\<lambda>n. q (n + 1)) row col fg bg i as st))
     else Inr st)"

definition write_fb_irq :: "(nat \<Rightarrow> u32 list) \<Rightarrow> s32 \<Rightarrow> s32 \<Rightarrow> u8 list \<Rightarrow> u32 \<Rightarrow> u32 \<Rightarrow> fb \<Rightarrow> fb result" where
  "write_fb_irq q row col chars fg bg st =
    (if sint row < 0 \<or> fb_rows st \<le> row \<or> sint col < 0 \<or> fb_cols st \<le> col then Inr st
     else write_loop_irq q row col fg bg 0 chars st)"

definition fb_println_irq :: "(nat \<Rightarrow> u32 list) \<Rightarrow> u8 list \<Rightarrow> fb \<Rightarrow> fb result" where
  "fb_println_irq q chars st =
    (let fg = theme_fg st; bg = theme_bg st; st = serve (q 0) (fb_erase_cursor st) in
     bind_r (scroll_if_needed st) (\<lambda>st.
     let st = serve (q 1) st in
     bind_r (write_fb_irq (\<lambda>n. q (n + 5)) (cur_row st) (cur_col st) chars fg bg st) (\<lambda>st.
     let st = (serve (q 2) st)\<lparr>cur_col := 0\<rparr>;
         st = serve (q 3) st;
         st = serve (q 4) (st\<lparr>cur_row := cur_row st + 1\<rparr>) in
     bind_r (scroll_if_needed st) (\<lambda>st. Inr (fb_draw_cursor st)))))"

section \<open>No interrupts\<close>

lemma serve_Nil [simp]: "serve [] st = st"
  by (simp add: serve_def)

lemma advance_quiet [simp]: "advance_irq [] [] = advance"
  by (simp add: advance_irq_def advance_def Let_def fun_eq_iff)

lemma print_loop_quiet: "print_loop_irq (\<lambda>n. []) fg bg i chars st = print_loop fg bg i chars st"
  by (induction chars arbitrary: i st) (simp_all add: bind_r_def split: sum.splits)

lemma write_loop_quiet: "write_loop_irq (\<lambda>n. []) row col fg bg i chars st = write_loop row col fg bg i chars st"
  by (induction chars arbitrary: i st) (simp_all add: bind_r_def split: sum.splits)

lemma print_quiet: "fb_print_irq (\<lambda>n. []) = fb_print"
  by (simp add: fun_eq_iff fb_print_irq_def fb_print_def fb_print_color_def print_loop_quiet)

lemma write_quiet: "write_fb_irq (\<lambda>n. []) = write_fb"
  by (simp add: fun_eq_iff write_fb_irq_def write_fb_def write_loop_quiet)

section \<open>The timer leaves the text alone\<close>

lemma cursor_cell_ok:
  assumes "fb_wf st"
  shows "evolves st (fb_draw_cursor st) \<and> tty_of (fb_draw_cursor st) = tty_of st \<and> last_activity (fb_draw_cursor st) = last_activity st"
    and "evolves st (fb_erase_cursor st) \<and> tty_of (fb_erase_cursor st) = tty_of st \<and> last_activity (fb_erase_cursor st) = last_activity st"
proof -
  have "evolves st (fb_fill_cell (cur_col st) (cur_row st) v st) \<and> tty_of (fb_fill_cell (cur_col st) (cur_row st) v st) = tty_of st
      \<and> last_activity (fb_fill_cell (cur_col st) (cur_row st) v st) = last_activity st"
    if "cur_col st < fb_cols st \<and> cur_row st < fb_rows st" for v
    using paint_evolves [OF fill_cell_paints [OF assms, of "cur_col st" "cur_row st" v]] that
    by (simp add: word_less_nat_alt)
  then show "evolves st (fb_draw_cursor st) \<and> tty_of (fb_draw_cursor st) = tty_of st \<and> last_activity (fb_draw_cursor st) = last_activity st"
    and "evolves st (fb_erase_cursor st) \<and> tty_of (fb_erase_cursor st) = tty_of st \<and> last_activity (fb_erase_cursor st) = last_activity st"
    by (simp_all add: fb_draw_cursor_def fb_erase_cursor_def)
qed

lemma evolves_wf: "evolves st st' \<Longrightarrow> fb_wf st' = fb_wf st"
  by (simp add: evolves_def same_mode_shape)

lemma serve_ok:
  "fb_wf st \<Longrightarrow> evolves st (serve ts st) \<and> tty_of (serve ts st) = tty_of st \<and> last_activity (serve ts st) = last_activity st"
proof (induction ts arbitrary: st)
  case (Cons n ts)
  let ?s = "fb_update_cursor n st"
  have s: "evolves st ?s \<and> tty_of ?s = tty_of st \<and> last_activity ?s = last_activity st"
    using cursor_cell_ok [OF Cons.prems] by (simp add: fb_update_cursor_def)
  with Cons.IH [of ?s] evolves_wf [of st ?s] Cons.prems show ?case
    by (auto simp: serve_def intro: evolves_trans)
qed simp

text \<open>Text in order: \<open>screen_ok UNIV\<close>, which says nothing of the picture, depends on mode and text only.\<close>

lemma text_cong:
  assumes "same_mode st st'" and "tty_of st' = tty_of st" and "screen_ok UNIV st"
  shows "screen_ok UNIV st'"
  using assms(3) tty_of_fields [OF assms(2)] same_mode_shape [OF assms(1)]
  by (simp add: screen_ok_def grid_ok_def screen_mode_def blank_behind_def)

lemma text_wf: "screen_ok X st \<Longrightarrow> fb_wf st"
  by (simp add: screen_ok_def grid_ok_def screen_mode_def)

lemma serve_text:
  assumes "screen_ok UNIV st"
  shows "screen_ok UNIV (serve ts st)" "evolves st (serve ts st)" "tty_of (serve ts st) = tty_of st"
    "last_activity (serve ts st) = last_activity st"
  using serve_ok [OF text_wf [OF assms], of ts] text_cong [OF _ _ assms, of "serve ts st"] by (auto simp: evolves_def)

text \<open>Two states of equal mode and text stay so under the assignments to the cursor.\<close>

definition alike :: "fb \<Rightarrow> fb \<Rightarrow> bool" where
  "alike st st' \<longleftrightarrow> evolves st st' \<and> tty_of st' = tty_of st \<and> last_activity st' = last_activity st"

lemma alike_refl [simp]: "alike st st"
  by (simp add: alike_def)

lemma alike_trans: "alike st st1 \<Longrightarrow> alike st1 st2 \<Longrightarrow> alike st st2"
  by (auto simp: alike_def intro: evolves_trans)

lemma alike_serve: "fb_wf st \<Longrightarrow> alike st (serve ts st)"
  using serve_ok by (simp add: alike_def)

lemma alike_fields:
  assumes "alike st st'"
  shows "cur_col st' = cur_col st" "cur_row st' = cur_row st" "fb_cols st' = fb_cols st" "fb_rows st' = fb_rows st"
    "theme_fg st' = theme_fg st" "theme_bg st' = theme_bg st" "fb_wf st' = fb_wf st" "screen_buf st' = screen_buf st"
proof -
  have m: "same_mode st st'" and t: "tty_of st' = tty_of st" using assms by (simp_all add: alike_def evolves_def)
  show "cur_col st' = cur_col st" "cur_row st' = cur_row st" "fb_cols st' = fb_cols st" "fb_rows st' = fb_rows st"
    "theme_fg st' = theme_fg st" "theme_bg st' = theme_bg st" "fb_wf st' = fb_wf st" "screen_buf st' = screen_buf st"
    using tty_of_fields [OF t] same_mode_shape [OF m] by simp_all
qed

lemma alike_assign:
  assumes "alike st st'"
  shows "alike (st\<lparr>cur_col := v\<rparr>) (st'\<lparr>cur_col := v\<rparr>)" "alike (st\<lparr>cur_row := v\<rparr>) (st'\<lparr>cur_row := v\<rparr>)"
  using assms by (simp_all add: alike_def tty_of_def evolves_def same_mode_def region_def)

lemma advance_irq_alike:
  assumes "fb_wf st"
  shows "alike (advance st) (advance_irq ts ts' st)"
proof -
  let ?c = "st\<lparr>cur_col := cur_col st + 1\<rparr>"
  have wf: "fb_wf (s\<lparr>cur_col := v\<rparr>) = fb_wf s" for s v by (rule same_mode_shape) simp
  have a: "alike ?c (serve ts ?c)" using assms by (intro alike_serve) (simp add: wf)
  note f = alike_fields [OF a]
  show ?thesis
  proof (cases "fb_cols st \<le> cur_col st + 1")
    case False
    then show ?thesis using a f by (simp add: advance_def advance_irq_def Let_def)
  next
    case True
    let ?z = "(serve ts ?c)\<lparr>cur_col := 0\<rparr>"
    have z: "alike (?c\<lparr>cur_col := 0\<rparr>) ?z" using a by (rule alike_assign)
    have "alike ?z (serve ts' ?z)" using f(7) assms by (intro alike_serve) (simp add: wf)
    with z have b: "alike (?c\<lparr>cur_col := 0\<rparr>) (serve ts' ?z)" by (rule alike_trans)
    from alike_assign(2) [OF this] alike_fields(2) [OF this] show ?thesis
      using True f by (simp add: advance_def advance_irq_def Let_def)
  qed
qed

section \<open>The text survives\<close>

lemma alike_text: "alike st st' \<Longrightarrow> screen_ok UNIV st \<Longrightarrow> screen_ok UNIV st'"
  by (auto simp: alike_def evolves_def intro: text_cong)

text \<open>\<open>step_to f st st'\<close>: from \<open>st\<close> to \<open>st'\<close> the text changed by \<open>f\<close>, and is in order; nothing is said of the picture.\<close>

definition step_to :: "(tty \<Rightarrow> tty) \<Rightarrow> fb \<Rightarrow> fb \<Rightarrow> bool" where
  "step_to f st st' \<longleftrightarrow> screen_ok UNIV st' \<and> evolves st st' \<and> tty_of st' = f (tty_of st) \<and> last_activity st' = last_activity st"

lemma step_to_trans:
  "step_to f st st1 \<Longrightarrow> step_to g st1 st2 \<Longrightarrow> step_to (\<lambda>t. g (f t)) st st2"
  unfolding step_to_def by (metis evolves_trans)

lemma step_to_alike: "step_to f st st1 \<Longrightarrow> alike st1 st2 \<Longrightarrow> step_to f st st2"
  using alike_text [of st1 st2] unfolding step_to_def alike_def by (metis evolves_trans)

lemma alike_step: "alike st st1 \<Longrightarrow> step_to f st1 st2 \<Longrightarrow> step_to f st st2"
  unfolding step_to_def by (auto simp: alike_def intro: evolves_trans)

lemma step_to_wf: "step_to f st st' \<Longrightarrow> fb_wf st'"
  unfolding step_to_def using text_wf by blast

lemma scroll_step: "screen_ok UNIV st \<Longrightarrow> \<exists>st'. scroll_if_needed st = Inr st' \<and> step_to t_fit st st' \<and> cur_row st' < fb_rows st'"
  using scroll_if_needed_any [of UNIV st] by (auto simp: step_to_def)

lemma draw_step:
  assumes "screen_ok UNIV st" and "cur_row st < fb_rows st" and "ch \<noteq> 0"
    and "fg = theme_fg st" and "bg = theme_bg st"
  shows "\<exists>st'. fb_draw_char (cur_col st) (cur_row st) ch fg bg st = Inr st'
    \<and> step_to (t_put ch) st (advance_irq ts ts' (serve ts0 st'))"
proof -
  obtain st1 where st1: "fb_draw_char (cur_col st) (cur_row st) ch fg bg st = Inr st1" "step_to (t_put ch) st (advance st1)"
    using put_any [OF assms(1-3)] assms(4,5) by (auto simp: step_to_def)
  have "fb_wf st" using assms(1) by (rule text_wf)
  moreover have "unat (cur_col st) < unat (fb_cols st)" "unat (cur_row st) < unat (fb_rows st)" "unat (fb_rows st) \<le> 64"
    using assms(1,2) by (auto simp: screen_ok_def grid_ok_def screen_mode_def word_less_nat_alt)
  ultimately have "evolves st st1" using draw_char_ok [of st "cur_col st" "cur_row st" ch fg bg] st1(1) by auto
  then have wf: "fb_wf st1" using evolves_wf \<open>fb_wf st\<close> by simp
  then have s: "alike st1 (serve ts0 st1)" by (rule alike_serve)
  note f = alike_fields [OF s]
  have "alike (advance st1) (advance (serve ts0 st1))"
    using alike_assign(1) [OF s, of "cur_col st1 + 1"] alike_assign(2) [OF alike_assign(1) [OF s, of 0], of "cur_row st1 + 1"] f
    by (auto simp: advance_def Let_def)
  moreover have "alike (advance (serve ts0 st1)) (advance_irq ts ts' (serve ts0 st1))"
    using f(7) wf by (intro advance_irq_alike) simp
  ultimately show ?thesis using st1 by (blast intro: alike_trans step_to_alike)
qed

lemma step_theme:
  assumes "step_to f st st'" and "\<And>t. t_fg (f t) = t_fg t \<and> t_bg (f t) = t_bg t"
  shows "theme_fg st' = theme_fg st" "theme_bg st' = theme_bg st"
proof -
  have "tty_of st' = f (tty_of st)" using assms(1) by (simp add: step_to_def)
  from arg_cong [OF this, of t_fg] arg_cong [OF this, of t_bg] assms(2)
  show "theme_fg st' = theme_fg st" "theme_bg st' = theme_bg st" by simp_all
qed

lemma print_loop_irq_ok:
  assumes "screen_ok UNIV st" and "terminated chars" and "i + length chars \<le> 2 ^ 31"
  shows "\<exists>st'. print_loop_irq q (theme_fg st) (theme_bg st) (of_nat i) chars st = Inr st'
    \<and> step_to (t_print (cstr chars)) st st'"
  using assms
proof (induction chars arbitrary: st i q)
  case Nil
  then show ?case by simp
next
  case (Cons a as)
  let ?s = "serve (q 0) st"
  have s: "alike st ?s" using Cons.prems(1) by (intro alike_serve text_wf)
  note ok = alike_text [OF s Cons.prems(1)]
  show ?case
  proof (cases "a = 0")
    case True
    then show ?thesis using ok s by (auto simp: step_to_def alike_def t_print_def)
  next
    case False
    obtain st1 where st1: "scroll_if_needed ?s = Inr st1" "step_to t_fit ?s st1" "cur_row st1 < fb_rows st1"
      using scroll_step [OF ok] by blast
    let ?s1 = "serve (q 1) st1"
    have s1: "alike st1 ?s1" using step_to_wf [OF st1(2)] by (rule alike_serve)
    have fit: "step_to t_fit st ?s1" using alike_step [OF s step_to_alike [OF st1(2) s1]] .
    have theme: "theme_fg ?s1 = theme_fg st" "theme_bg ?s1 = theme_bg st" using step_theme [OF fit] by simp_all
    have "cur_row ?s1 < fb_rows ?s1" using st1(3) alike_fields [OF s1] by simp
    with fit theme False obtain st2 where st2: "fb_draw_char (cur_col ?s1) (cur_row ?s1) a (theme_fg st) (theme_bg st) ?s1 = Inr st2"
      "step_to (t_put a) ?s1 (advance_irq (q 3) (q 4) (serve (q 2) st2))"
      using draw_step [of ?s1 a "theme_fg st" "theme_bg st" "q 3" "q 4" "q 2"] by (auto simp: step_to_def)
    let ?s2 = "advance_irq (q 3) (q 4) (serve (q 2) st2)"
    have theme2: "theme_fg ?s2 = theme_fg st" "theme_bg ?s2 = theme_bg st" using step_theme [OF st2(2)] theme by simp_all
    have ended: "terminated as" using Cons.prems(2) False by (auto simp: terminated_def)
    then have "as \<noteq> []" by auto
    then have len: "Suc i + length as \<le> 2 ^ 31" "i < 2 ^ 31 - 1" using Cons.prems(3) by (cases "as"; auto)+
    have "screen_ok UNIV ?s2" using st2(2) by (simp add: step_to_def)
    from Cons.IH [OF this ended len(1), of "\<lambda>n. q (n + 5)"] theme2 obtain st3 where
      st3: "print_loop_irq (\<lambda>n. q (n + 5)) (theme_fg st) (theme_bg st) (of_nat (Suc i)) as ?s2 = Inr st3"
        "step_to (t_print (cstr as)) ?s2 st3" by auto
    have "print_loop_irq q (theme_fg st) (theme_bg st) (of_nat i) (a # as) st = Inr st3"
      using False st1(1) st2(1) st3(1) int_inc_of_nat [OF len(2)] by (simp add: Let_def)
    moreover have "step_to (t_print (cstr (a # as))) st st3"
    proof -
      have "0 < t_rows (tty_of st)"
        using Cons.prems(1) grid_numbers(4) grid_mode by (simp add: screen_ok_def)
      moreover have "step_to (\<lambda>t. t_print (cstr as) (t_put a (t_fit t))) st st3"
        using step_to_trans [OF fit step_to_trans [OF st2(2) st3(2)]] .
      ultimately show ?thesis using False by (simp add: step_to_def t_print_Cons t_put_fit)
    qed
    ultimately show ?thesis by blast
  qed
qed

lemma fb_print_irq_ok:
  assumes "screen_ok UNIV st" and "terminated chars" and "length chars \<le> 2 ^ 31"
  shows "\<exists>st'. fb_print_irq q chars st = Inr st' \<and> step_to (t_print (cstr chars)) st st'"
proof -
  let ?e = "fb_erase_cursor st"
  have e: "alike st ?e" using cursor_cell_ok(2) [OF text_wf [OF assms(1)]] by (simp add: alike_def)
  obtain st1 where st1: "print_loop_irq q (theme_fg st) (theme_bg st) 0 chars ?e = Inr st1" "step_to (t_print (cstr chars)) ?e st1"
    using print_loop_irq_ok [OF alike_text [OF e assms(1)] assms(2), of 0 q] assms(3) alike_fields [OF e] by auto
  have "alike st1 (fb_draw_cursor st1)" using cursor_cell_ok(1) [OF step_to_wf [OF st1(2)]] by (simp add: alike_def)
  with st1 e show ?thesis by (auto simp: fb_print_irq_def intro: alike_step step_to_alike)
qed

lemma write_loop_irq_ok:
  assumes "fb_wf st" and "unat (fb_rows st) \<le> 64" and "unat row < unat (fb_rows st)"
    and "terminated chars" and "i + length chars \<le> 2 ^ 31" and "unat col + i \<le> unat (fb_cols st)"
  shows "\<exists>st'. write_loop_irq q row col fg bg (of_nat i) chars st = Inr st' \<and> evolves st st'
    \<and> tty_of st' = t_write (unat row) (unat col + i) (cstr chars) (tty_of st) \<and> last_activity st' = last_activity st"
  using assms
proof (induction chars arbitrary: st i q)
  case Nil
  then show ?case by simp
next
  case (Cons a as)
  let ?s = "serve (q 0) st"
  have s: "evolves st ?s" "tty_of ?s = tty_of st" "last_activity ?s = last_activity st"
    using serve_ok [OF Cons.prems(1)] by blast+
  have shape: "fb_wf ?s" "fb_rows ?s = fb_rows st" "fb_cols ?s = fb_cols st"
    using s(1) Cons.prems(1) same_mode_shape(1,7,8) [of st ?s] by (simp_all add: evolves_def)
  have "unat (fb_cols st) < 4294967296" by (rule unat_less_32)
  moreover have "i < 4294967296" using Cons.prems(5) by simp
  ultimately have ci: "unat (col + of_nat i) = unat col + i"
    using Cons.prems(6) unat_add_u32 [of col "of_nat i"] by simp
  show ?case
  proof (cases "a \<noteq> 0 \<and> unat col + i < unat (fb_cols st)")
    case False
    then show ?thesis using s shape ci by (cases "a = 0") (auto simp: word_less_nat_alt intro!: exI [of _ ?s])
  next
    case True
    obtain st1 where st1: "fb_draw_char (col + of_nat i) row a fg bg ?s = Inr st1" "evolves ?s st1"
      "tty_of st1 = t_set (unat row) (unat col + i) a (tty_of st)" "last_activity st1 = last_activity st"
      using draw_char_ok [OF shape(1), of "col + of_nat i" row a fg bg] ci True Cons.prems(2,3) shape s by auto
    have ev: "evolves st st1" using s(1) st1(2) by (rule evolves_trans)
    then have mode: "same_mode st st1" by (simp add: evolves_def)
    have ended: "terminated as" using Cons.prems(4) True by (auto simp: terminated_def)
    then have "as \<noteq> []" by auto
    then have len: "Suc i + length as \<le> 2 ^ 31" "i < 2 ^ 31 - 1" using Cons.prems(5) by (cases "as"; auto)+
    obtain st2 where st2: "write_loop_irq (\<lambda>n. q (n + 1)) row col fg bg (of_nat (Suc i)) as st1 = Inr st2" "evolves st1 st2"
      "tty_of st2 = t_write (unat row) (unat col + Suc i) (cstr as) (tty_of st1)" "last_activity st2 = last_activity st1"
      using Cons.IH [of st1 "Suc i" "\<lambda>n. q (n + 1)"] Cons.prems(1-3) ended len(1) True same_mode_shape [OF mode] by auto
    have "write_loop_irq q row col fg bg (of_nat i) (a # as) st = Inr st2"
      using True ci shape st1(1) st2(1) int_inc_of_nat [OF len(2)] by (simp add: word_less_nat_alt Let_def)
    moreover have "tty_of st2 = t_write (unat row) (unat col + i) (cstr (a # as)) (tty_of st)"
      using True st1(3) st2(3) by simp
    moreover have "evolves st st2" using ev st2(2) by (rule evolves_trans)
    ultimately show ?thesis using st1(4) st2(4) by auto
  qed
qed

lemma next_row_alike:
  assumes "screen_mode st" and "blank_behind 0 (unat (cur_row st) + 1) st" and "cur_row st < fb_rows st" and "0 < fb_cols st"
    and "alike (st\<lparr>cur_col := 0, cur_row := cur_row st + 1\<rparr>) st'"
  shows "\<exists>t. scroll_if_needed st' = Inr t \<and> evolves st t \<and> screen_ok UNIV t
    \<and> tty_of t = t_fit ((tty_of st)\<lparr>t_col := 0, t_row := unat (cur_row st) + 1\<rparr>) \<and> last_activity t = last_activity st"
proof -
  let ?n = "st\<lparr>cur_col := 0, cur_row := cur_row st + 1\<rparr>"
  note f = alike_fields [OF assms(5)]
  have row: "unat (cur_row st + 1) = unat (cur_row st) + 1" by (rule unat_inc_u32 [OF assms(3)])
  have n: "evolves st st'" "tty_of st' = (tty_of st)\<lparr>t_col := 0, t_row := unat (cur_row st) + 1\<rparr>" "last_activity st' = last_activity st"
    using assms(5) by (auto simp: alike_def evolves_def same_mode_def region_def tty_of_def row)
  have wf: "fb_wf ?n = fb_wf st" by (rule same_mode_shape) simp
  then have mode: "screen_mode st'" using assms(1) f by (simp add: screen_mode_def)
  show ?thesis
  proof (cases "fb_rows st \<le> cur_row st + 1")
    case True
    then show ?thesis
      using scroll_any [of st' UNIV] mode assms(4) f n row
      by (auto simp: scroll_if_needed_def t_fit_def word_le_nat_alt intro: evolves_trans)
  next
    case False
    have "blank_behind 0 (unat (cur_row st) + 1) st'" using assms(2) f by (simp add: blank_behind_def)
    then have "screen_ok UNIV st'"
      using mode f row False assms(4) by (simp add: screen_ok_def grid_ok_def not_le)
    then show ?thesis
      using False f n row by (auto simp: scroll_if_needed_def t_fit_def word_le_nat_alt)
  qed
qed

lemma fb_println_irq_ok:
  assumes "screen_ok UNIV st" and "terminated chars" and "length chars \<le> 2 ^ 31"
  shows "\<exists>st'. fb_println_irq q chars st = Inr st' \<and> step_to (t_println (cstr chars)) st st'"
proof -
  let ?e = "serve (q 0) (fb_erase_cursor st)"
  have "alike st (fb_erase_cursor st)" using cursor_cell_ok(2) [OF text_wf [OF assms(1)]] by (simp add: alike_def)
  moreover from this have "alike (fb_erase_cursor st) ?e"
    using alike_fields(7) text_wf [OF assms(1)] by (intro alike_serve) simp
  ultimately have e: "alike st ?e" by (rule alike_trans)
  obtain s1 where s1: "scroll_if_needed ?e = Inr s1" "step_to t_fit ?e s1" "cur_row s1 < fb_rows s1"
    using scroll_step [OF alike_text [OF e assms(1)]] by blast
  let ?s = "serve (q 1) s1"
  have a1: "alike s1 ?s" using step_to_wf [OF s1(2)] by (rule alike_serve)
  have fit: "step_to t_fit st ?s" using alike_step [OF e step_to_alike [OF s1(2) a1]] .
  have low: "cur_row ?s < fb_rows ?s" using s1(3) alike_fields [OF a1] by simp
  have ok: "grid_ok ?s" "blank_behind (unat (cur_col ?s)) (unat (cur_row ?s)) ?s"
    using fit by (simp_all add: step_to_def screen_ok_def)
  have on: "fb_wf ?s" "unat (fb_rows ?s) \<le> 64" "unat (cur_row ?s) < unat (fb_rows ?s)" "unat (cur_col ?s) < unat (fb_cols ?s)"
    using ok(1) low by (simp_all add: grid_ok_def screen_mode_def word_less_nat_alt)
  obtain s2 where s2: "write_loop_irq (\<lambda>n. q (n + 5)) (cur_row ?s) (cur_col ?s) (theme_fg st) (theme_bg st) 0 chars ?s = Inr s2"
    "evolves ?s s2" "tty_of s2 = t_write (unat (cur_row ?s)) (unat (cur_col ?s)) (cstr chars) (tty_of ?s)"
    "last_activity s2 = last_activity ?s"
    using write_loop_irq_ok [OF on(1-3) assms(2), of 0 "cur_col ?s" "\<lambda>n. q (n + 5)" "theme_fg st" "theme_bg st"] assms(3) on(4) by auto
  have "sint (cur_row ?s) = int (unat (cur_row ?s))" "sint (cur_col ?s) = int (unat (cur_col ?s))"
    using on sint_of_nat_s32 [of "unat (cur_row ?s)"] sint_of_nat_s32 [of "unat (cur_col ?s)"]
    by (simp_all add: fb_wf_def word_less_nat_alt word_le_nat_alt)
  then have written: "write_fb_irq (\<lambda>n. q (n + 5)) (cur_row ?s) (cur_col ?s) chars (theme_fg st) (theme_bg st) ?s = Inr s2"
    using on s2(1) by (simp add: write_fb_irq_def word_le_nat_alt)
  have mode: "same_mode ?s s2" using s2(2) by (simp add: evolves_def)
  have pos: "cur_col s2 = cur_col ?s" "cur_row s2 = cur_row ?s"
    using arg_cong [OF s2(3), of t_col] arg_cong [OF s2(3), of t_row] by (simp_all add: word_unat_eq_iff)
  have shape: "fb_wf s2" "fb_rows s2 = fb_rows ?s" "fb_cols s2 = fb_cols ?s"
    using on(1) same_mode_shape [OF mode] by simp_all
  let ?z = "s2\<lparr>cur_col := 0\<rparr>"
  let ?c = "(serve (q 2) s2)\<lparr>cur_col := 0\<rparr>"
  have wf: "fb_wf (s\<lparr>cur_col := v\<rparr>) = fb_wf s" "fb_wf (s\<lparr>cur_row := v\<rparr>) = fb_wf s" for s v
    by (rule same_mode_shape, simp)+
  have "alike s2 (serve (q 2) s2)" using shape(1) by (rule alike_serve)
  from alike_assign(1) [OF this] have "alike ?z ?c" .
  moreover have "alike ?c (serve (q 3) ?c)"
    using alike_fields(7) [OF \<open>alike ?z ?c\<close>] shape(1) by (intro alike_serve) (simp add: wf)
  ultimately have z: "alike ?z (serve (q 3) ?c)" by (rule alike_trans)
  let ?d = "(serve (q 3) ?c)\<lparr>cur_row := cur_row s2 + 1\<rparr>"
  have row: "cur_row (serve (q 3) ?c) = cur_row s2" using alike_fields(2) [OF z] by simp
  have "alike (s2\<lparr>cur_col := 0, cur_row := cur_row s2 + 1\<rparr>) ?d" using alike_assign(2) [OF z] by simp
  moreover have "alike ?d (serve (q 4) ?d)"
    using alike_fields(7) [OF z] shape(1) by (intro alike_serve) (simp add: wf)
  ultimately have d: "alike (s2\<lparr>cur_col := 0, cur_row := cur_row s2 + 1\<rparr>) (serve (q 4) ?d)" by (rule alike_trans)
  have mode2: "screen_mode s2" using on(2) shape by (simp add: screen_mode_def)
  have zero: "0 < fb_cols s2" using grid_numbers(5) [OF mode2] by (simp add: word_less_nat_alt)
  obtain s3 where s3: "scroll_if_needed (serve (q 4) ?d) = Inr s3" "evolves s2 s3" "screen_ok UNIV s3"
    "tty_of s3 = t_fit ((tty_of s2)\<lparr>t_col := 0, t_row := unat (cur_row s2) + 1\<rparr>)" "last_activity s3 = last_activity s2"
    using next_row_alike [OF mode2 _ _ zero d] t_write_blank [OF ok(2) s2(3) mode] pos shape low by auto
  have "tty_of s3 = t_println (cstr chars) (tty_of st)"
    using s3(4) s2(3) fit pos by (simp add: t_println_def Let_def step_to_def flip: tty_of_simps)
  moreover have "evolves st s3" using fit s2(2) s3(2) by (auto simp: step_to_def intro: evolves_trans)
  moreover have "last_activity s3 = last_activity st" using fit s2(4) s3(5) by (simp add: step_to_def)
  ultimately have "step_to (t_println (cstr chars)) st s3" using s3(3) by (simp add: step_to_def)
  moreover have "alike s3 (fb_draw_cursor s3)" using cursor_cell_ok(1) [OF text_wf [OF s3(3)]] by (simp add: alike_def)
  ultimately have "step_to (t_println (cstr chars)) st (fb_draw_cursor s3)" by (rule step_to_alike)
  then show ?thesis using s1(1) written s3(1) row by (simp add: fb_println_irq_def Let_def)
qed

text \<open>
  C21: Whatever timer interrupts come in between the statements of \<open>fb_print\<close> and \<open>fb_println\<close>, and whatever
  the picture looked like: both return, the text and the cursor end as without interrupts, no byte outside the framebuffer is
  written, and a later change of theme brings picture and text together again.
\<close>

theorem preempted_text_intact:
  assumes "cursor_ok st" and "terminated chars" and "length chars \<le> 2 ^ 31"
  shows "\<exists>st1 st2. fb_print_irq q chars st = Inr st1 \<and> fb_println_irq q chars st = Inr st2
    \<and> tty_of st1 = t_print (cstr chars) (tty_of st) \<and> tty_of st2 = t_println (cstr chars) (tty_of st)
    \<and> (\<forall>a. a \<notin> region st \<longrightarrow> vram st1 a = vram st a \<and> vram st2 a = vram st a)
    \<and> (\<forall>s \<in> {st1, st2}. \<exists>s'. fb_update_theme fg bg s = Inr s' \<and> fb_ok s' \<and> tty_of s' = t_theme fg bg (tty_of s))"
proof -
  have ok: "screen_ok UNIV st" using assms(1) by (simp add: cursor_ok_def screen_ok_def)
  obtain st1 where st1: "fb_print_irq q chars st = Inr st1" "step_to (t_print (cstr chars)) st st1"
    using fb_print_irq_ok [OF ok assms(2,3)] by blast
  obtain st2 where st2: "fb_println_irq q chars st = Inr st2" "step_to (t_println (cstr chars)) st st2"
    using fb_println_irq_ok [OF ok assms(2,3)] by blast
  have repair: "\<exists>s'. fb_update_theme fg bg s = Inr s' \<and> fb_ok s' \<and> tty_of s' = t_theme fg bg (tty_of s)"
    if "screen_ok UNIV s" for s
    using theme_step [OF screen_ok_cursor [OF that], of fg bg] by (auto simp: ok_r_iff console_step_def fb_ok_def)
  have "screen_ok UNIV st1" "screen_ok UNIV st2" using st1(2) st2(2) by (simp_all add: step_to_def)
  with repair have "\<forall>s \<in> {st1, st2}. \<exists>s'. fb_update_theme fg bg s = Inr s' \<and> fb_ok s' \<and> tty_of s' = t_theme fg bg (tty_of s)"
    by blast
  moreover have "\<forall>a. a \<notin> region st \<longrightarrow> vram st1 a = vram st a \<and> vram st2 a = vram st a"
    using st1(2) st2(2) by (simp add: step_to_def evolves_def)
  moreover have "tty_of st1 = t_print (cstr chars) (tty_of st)" "tty_of st2 = t_println (cstr chars) (tty_of st)"
    using st1(2) st2(2) by (simp_all add: step_to_def)
  ultimately show ?thesis using st1(1) st2(1) by blast
qed

theorem preempted_text_intact_witness:
  "\<exists>st1. fb_println_irq (\<lambda>i. [0, 60]) (lit ''ok'') sample_fb = Inr st1
    \<and> tty_of st1 = t_println (cstr (lit ''ok'')) (tty_of sample_fb)"
proof -
  have "cursor_ok sample_fb" using sample_fb_ok screen_ok_cursor by (auto simp: fb_ok_def)
  from preempted_text_intact [OF this terminated_lit, of "''ok''" "\<lambda>i. [0, 60]" 0 0] show ?thesis
    by (auto simp: lit_def)
qed

section \<open>The picture does not\<close>

lemma t_write_left: "c' < c \<Longrightarrow> t_text (t_write r c s t) r c' = t_text t r c'"
  by (induction r c s t rule: t_write.induct) (simp_all add: t_set_def)

lemma quiet_tail: "(\<lambda>i. if i + 5 = (2::nat) then [n] else []) = (\<lambda>i. [])"
  by auto

text \<open>What \<open>fb_println\<close> has done when the second interrupt arrives: cursor erased, line written, cursor not moved.\<close>

lemma line_written:
  assumes "grid_ok st" and "cur_row st < fb_rows st"
    and "terminated (ch # chars)" and "ch \<noteq> 0" and "length (ch # chars) \<le> 2 ^ 31"
  obtains s where "write_fb (cur_row st) (cur_col st) (ch # chars) (theme_fg st) (theme_bg st) (fb_erase_cursor st) = Inr s"
    "same_mode st s" "cur_col s = cur_col st" "cur_row s = cur_row st" "theme_fg s = theme_fg st"
    "last_activity s = last_activity st" "screen_buf s (unat (cur_row st)) (unat (cur_col st)) = ch"
proof -
  let ?c = "unat (cur_col st)" and ?r = "unat (cur_row st)" and ?e = "fb_erase_cursor st"
  have wf: "fb_wf st" and rows: "unat (fb_rows st) \<le> 64" and on: "?c < unat (fb_cols st)" "?r < unat (fb_rows st)"
    using assms(1,2) by (simp_all add: grid_ok_def screen_mode_def word_less_nat_alt)
  have e: "alike st ?e" using cursor_cell_ok(2) [OF wf] by (simp add: alike_def)
  note f = alike_fields [OF e]
  obtain s where s: "write_loop (cur_row st) (cur_col st) (theme_fg st) (theme_bg st) 0 (ch # chars) ?e = Inr s"
    "evolves ?e s" "tty_of s = t_write ?r ?c (cstr (ch # chars)) (tty_of ?e)" "last_activity s = last_activity ?e"
    using write_loop_ok [of ?e "cur_row st" "ch # chars" 0 "cur_col st" "theme_fg st" "theme_bg st"] f wf rows on assms(3,5)
    by auto
  have "sint (cur_row st) = int ?r" "sint (cur_col st) = int ?c"
    using on rows wf sint_of_nat_s32 [of ?r] sint_of_nat_s32 [of ?c]
    by (simp_all add: fb_wf_def word_less_nat_alt word_le_nat_alt)
  then have "write_fb (cur_row st) (cur_col st) (ch # chars) (theme_fg st) (theme_bg st) ?e = Inr s"
    using on f s(1) by (simp add: write_fb_def word_le_nat_alt del: write_loop.simps)
  moreover have "same_mode st s" using e s(2) by (auto simp: alike_def evolves_def same_mode_def)
  moreover have "cur_col s = cur_col st" "cur_row s = cur_row st" "theme_fg s = theme_fg st"
    using arg_cong [OF s(3), of t_col] arg_cong [OF s(3), of t_row] arg_cong [OF s(3), of t_fg] f
    by (simp_all add: word_unat_eq_iff)
  moreover have "last_activity s = last_activity st" using s(4) e by (simp add: alike_def)
  moreover have "screen_buf s ?r ?c = ch"
    using arg_cong [OF s(3), of "\<lambda>t. t_text t ?r ?c"] on f assms(4) t_write_left [of ?c "Suc ?c"] by (simp add: t_set_def)
  ultimately show thesis by (rule that)
qed

text \<open>A cursor drawn in one cell is still there when the next one is drawn in the row below.\<close>

lemma cursor_left_behind:
  fixes f g c r s
  defines "s' \<equiv> (fb_fill_cell c r f s)\<lparr>cur_col := 0, cur_row := r + 1\<rparr>"
  assumes wf: "fb_wf s" and on: "unat c < unat (fb_cols s)" "unat r < unat (fb_rows s)" "r + 1 < fb_rows s"
  shows "same_mode s s'" and "(x, y) \<in> cell s (unat c) (unat r) \<Longrightarrow> pic (fb_fill_cell 0 (r + 1) g s') x y = shown f"
    and "screen_buf (fb_fill_cell 0 (r + 1) g s') = screen_buf s"
proof -
  let ?s = "fb_fill_cell c r f s"
  note p = fill_cell_paints [OF wf on(1,2), of f]
  note a = paint_evolves [OF p]
  show m: "same_mode s s'" using a(1) by (simp add: s'_def evolves_def)
  have row: "unat (r + 1) = unat r + 1" by (rule unat_inc_u32) (use on(2) in \<open>simp add: word_less_nat_alt\<close>)
  have wf': "fb_wf s'" using same_mode_shape(1) [OF m] wf by simp
  have on': "unat (0 :: u32) < unat (fb_cols s')" "unat (r + 1) < unat (fb_rows s')"
    using on same_mode_shape(7,8) [OF m] by (simp_all add: word_less_nat_alt)
  note q = fill_cell_paints [OF wf' on', of g]
  show "screen_buf (fb_fill_cell 0 (r + 1) g s') = screen_buf s"
    using tty_of_fields(3) [OF paint_evolves(2) [OF q]] tty_of_fields(3) [OF a(2)] by (simp add: s'_def)
  assume xy: "(x, y) \<in> cell s (unat c) (unat r)"
  then have scr: "(x, y) \<in> on_screen s" using cell_on_screen [OF wf on(1,2)] by blast
  have "(x, y) \<notin> cell s' 0 (unat r + 1)"
    using cells_disjoint [OF wf, of "unat c" "unat r" 0 "unat r + 1"] xy same_mode_shape(4) [OF m] by auto
  then have "pic (fb_fill_cell 0 (r + 1) g s') x y = pic s' x y"
    using q scr same_mode_shape(3) [OF m] row by (simp add: paint_def)
  also have "pic s' x y = pic ?s x y" by (simp add: s'_def pic_def off_def)
  also have "pic ?s x y = shown f" using p scr xy by (simp add: paint_def)
  finally show "pic (fb_fill_cell 0 (r + 1) g s') x y = shown f" .
qed

text \<open>
  C38: A timer interrupt that shows the cursor just before \<open>fb_println\<close> moves it to the next row paints
  over the first character of the line: the text buffer has the character, the screen a solid block.
\<close>

theorem preempted_println_hides_char:
  assumes "fb_ok st" and "cur_row st + 1 < fb_rows st" and "cur_row st < fb_rows st"
    and "terminated (ch # chars)" and "ch \<noteq> 0" and "length (ch # chars) \<le> 2 ^ 31"
    and "n - last_activity st < CURSOR_SOLID_TICKS"
  shows "\<exists>st'. fb_println_irq (\<lambda>i. if i = 2 then [n] else []) (ch # chars) st = Inr st'
    \<and> screen_buf st' (unat (cur_row st)) (unat (cur_col st)) = ch
    \<and> (\<forall>x y. (x, y) \<in> cell st (unat (cur_col st)) (unat (cur_row st)) \<longrightarrow> pic st' x y = shown (theme_fg st))"
proof -
  let ?c = "cur_col st" and ?r = "cur_row st" and ?e = "fb_erase_cursor st"
  have grid: "grid_ok st" using assms(1) by (simp add: fb_ok_def screen_ok_def)
  obtain s where s: "write_fb ?r ?c (ch # chars) (theme_fg st) (theme_bg st) ?e = Inr s" "same_mode st s"
    "cur_col s = ?c" "cur_row s = ?r" "theme_fg s = theme_fg st" "last_activity s = last_activity st"
    "screen_buf s (unat ?r) (unat ?c) = ch"
    using line_written [OF grid assms(3-6)] by blast
  have wf0: "fb_wf st" and "?c < fb_cols st" using grid by (simp_all add: grid_ok_def screen_mode_def)
  then have wf: "fb_wf s" and on: "unat ?c < unat (fb_cols s)" "unat ?r < unat (fb_rows s)" "?r + 1 < fb_rows s"
    using assms(2,3) same_mode_shape [OF s(2)] by (simp_all add: word_less_nat_alt)
  let ?s3 = "fb_fill_cell ?c ?r (theme_fg st) s"
  let ?s4 = "?s3\<lparr>cur_col := 0, cur_row := ?r + 1\<rparr>"
  note left = cursor_left_behind [OF wf on, where f = "theme_fg st"]
  note f = alike_fields [of st ?e] and f3 = tty_of_fields [OF paint_evolves(2) [OF fill_cell_paints [OF wf on(1,2)]]]
  have e: "alike st ?e" using cursor_cell_ok(2) [OF wf0] by (simp add: alike_def)
  have tick: "fb_update_cursor n s = ?s3"
    using assms(7) on s(3-6) by (simp add: fb_update_cursor_def fb_draw_cursor_def word_less_nat_alt)
  have draw: "fb_draw_cursor ?s4 = fb_fill_cell 0 (?r + 1) (theme_fg ?s4) ?s4"
    using on same_mode_shape(7,8) [OF left(1)] by (simp add: fb_draw_cursor_def word_less_nat_alt)
  have fits: "scroll_if_needed ?s4 = Inr ?s4" "scroll_if_needed ?e = Inr ?e"
    using on f [OF e] assms(3) same_mode_shape(8) [OF left(1)]
    by (simp_all add: scroll_if_needed_def word_le_nat_alt word_less_nat_alt)
  have run: "fb_println_irq (\<lambda>i. if i = 2 then [n] else []) (ch # chars) st = Inr (fb_fill_cell 0 (?r + 1) (theme_fg ?s4) ?s4)"
    using s tick fits draw f [OF e] f3
    by (simp add: fb_println_irq_def Let_def quiet_tail write_quiet serve_def cong: if_cong)
  have "cell s = cell st" using same_mode_shape(4) [OF s(2)] by simp
  with run s(7) left(2,3) show ?thesis by auto
qed

theorem preempted_println_hides_char_witness:
  "\<exists>st'. fb_println_irq (\<lambda>i. if i = 2 then [5] else []) (lit ''Welcome'') sample_fb = Inr st'
    \<and> screen_buf st' 0 0 = 87 \<and> (\<forall>x y. (x, y) \<in> cell sample_fb 0 0 \<longrightarrow> pic st' x y = shown (theme_fg sample_fb))"
proof -
  have w: "lit ''Welcome'' = 87 # lit ''elcome''" by (simp add: lit_def)
  have t: "terminated (87 # lit ''elcome'')" using terminated_lit [of "''Welcome''"] unfolding w .
  have "last_activity sample_fb = 0" by (simp add: sample_fb_def fb_setup_def fb_boot_def Let_def)
  then have s: "cur_row sample_fb = 0" "cur_col sample_fb = 0" "cur_row sample_fb + 1 < fb_rows sample_fb"
    "cur_row sample_fb < fb_rows sample_fb" "5 - last_activity sample_fb < CURSOR_SOLID_TICKS"
    by (simp_all add: sample_fb_geometry CURSOR_SOLID_TICKS_def)
  have l: "length (87 # lit ''elcome'') \<le> 2 ^ 31" by (simp add: lit_def)
  from preempted_println_hides_char [OF sample_fb_ok s(3,4) t _ l s(5)] s(1,2) show ?thesis unfolding w by simp
qed

end
