(* ===== verification/Oblivious.thy ===== *)
theory Oblivious
  imports Relate Preempt
begin

text \<open>
  The picture never influences the text: no function of the kernel reads a pixel back except to copy it to
  another pixel. Two kernels that agree in everything but the video memory take the same branches, raise the same
  errors and stay so. The drawing routines are related to themselves by transfer rules; the rest is \<open>Relate\<close>.
\<close>

section \<open>Twins\<close>

text \<open>Equal but for the pixels.\<close>

definition twin :: "fb \<Rightarrow> fb \<Rightarrow> bool" where
  "twin st st' \<longleftrightarrow> st' = st\<lparr>vram := vram st'\<rparr>"

abbreviation twin_r :: "fb result \<Rightarrow> fb result \<Rightarrow> bool" where
  "twin_r \<equiv> rel_sum (=) twin"

definition any_bytes :: "memory \<Rightarrow> memory \<Rightarrow> bool" where
  "any_bytes m m' = True"

lemma twinE: "twin st st' \<Longrightarrow> (\<And>v. st' = st\<lparr>vram := v\<rparr> \<Longrightarrow> thesis) \<Longrightarrow> thesis"
  by (auto simp: twin_def)

lemma twin_refl [simp]: "twin st st"
  by (simp add: twin_def)

lemma twin_vram [simp]: "twin st (st\<lparr>vram := v\<rparr>)" "twin (st\<lparr>vram := v\<rparr>) st"
  by (simp_all add: twin_def)

lemma twin_trans: "twin a b \<Longrightarrow> twin b c \<Longrightarrow> twin a c"
  by (auto elim!: twinE)

lemma twin_sym: "twin a b \<Longrightarrow> twin b a"
  by (auto elim!: twinE)

lemma twin_fields [transfer_rule]:
  "rel_fun twin (=) fb_addr fb_addr" "rel_fun twin (=) fb_pitch fb_pitch" "rel_fun twin (=) fb_width fb_width"
  "rel_fun twin (=) fb_height fb_height" "rel_fun twin (=) fb_bpp fb_bpp" "rel_fun twin (=) fb_cols fb_cols"
  "rel_fun twin (=) fb_rows fb_rows" "rel_fun twin (=) glyph_w glyph_w" "rel_fun twin (=) glyph_h glyph_h"
  "rel_fun twin (=) cur_col cur_col" "rel_fun twin (=) cur_row cur_row" "rel_fun twin (=) theme_fg theme_fg"
  "rel_fun twin (=) theme_bg theme_bg" "rel_fun twin (=) last_activity last_activity"
  "rel_fun twin (=) screen_buf screen_buf" "rel_fun twin any_bytes vram vram"
  by (auto simp: rel_fun_def any_bytes_def elim!: twinE)

lemma twin_updates [transfer_rule]:
  "rel_fun (=) (rel_fun twin twin) cur_col_update cur_col_update"
  "rel_fun (=) (rel_fun twin twin) cur_row_update cur_row_update"
  "rel_fun (=) (rel_fun twin twin) theme_fg_update theme_fg_update"
  "rel_fun (=) (rel_fun twin twin) theme_bg_update theme_bg_update"
  "rel_fun (=) (rel_fun twin twin) last_activity_update last_activity_update"
  "rel_fun (=) (rel_fun twin twin) screen_buf_update screen_buf_update"
  "rel_fun (rel_fun any_bytes any_bytes) (rel_fun twin twin) vram_update vram_update"
  by (auto simp: rel_fun_def elim!: twinE) (simp_all add: twin_def)

section \<open>Drawing\<close>

lemma put32_transfer [transfer_rule]: "rel_fun (=) (rel_fun (=) (rel_fun any_bytes any_bytes)) put32 put32"
  by (simp add: rel_fun_def any_bytes_def)

lemma rep_movsq_fst: "fst (rep_movsq n dst src m) = fst (rep_movsq n dst src m')"
  by (induction n arbitrary: dst src m m') simp_all

lemma rep_transfer [transfer_rule]:
  "rel_fun (=) (rel_fun (=) (rel_fun (=) (rel_fun any_bytes (rel_prod (=) any_bytes)))) rep_movsq rep_movsq"
  "rel_fun (=) (rel_fun (=) (rel_fun (=) (rel_fun any_bytes any_bytes))) rep_stosq rep_stosq"
  using rep_movsq_fst by (auto simp: rel_fun_def rel_prod_sel any_bytes_def)

lemma fb_draw_pixel_twin [transfer_rule]:
  "rel_fun (=) (rel_fun (=) (rel_fun (=) (rel_fun (=) (rel_fun (=) (rel_fun twin twin))))) fb_draw_pixel fb_draw_pixel"
  unfolding fb_draw_pixel_def [abs_def] by transfer_prover

lemma fb_clear_twin [transfer_rule]: "rel_fun (=) (rel_fun twin twin) fb_clear fb_clear"
  unfolding fb_clear_def [abs_def] by transfer_prover

lemma fb_fill_cell_twin [transfer_rule]:
  "rel_fun (=) (rel_fun (=) (rel_fun (=) (rel_fun twin twin))) fb_fill_cell fb_fill_cell"
  unfolding fb_fill_cell_def [abs_def] by transfer_prover

lemma set_cell_twin [transfer_rule]:
  "rel_fun (=) (rel_fun (=) (rel_fun (=) (rel_fun twin twin))) set_cell set_cell"
  unfolding set_cell_def [abs_def] by transfer_prover

lemma fb_draw_char_twin [transfer_rule]:
  "rel_fun (=) (rel_fun (=) (rel_fun (=) (rel_fun (=) (rel_fun (=) (rel_fun twin twin_r))))) fb_draw_char fb_draw_char"
  unfolding fb_draw_char_def [abs_def] by transfer_prover

lemma scroll_twin [transfer_rule]: "rel_fun twin twin_r fb_scroll fb_scroll"
proof -
  have [transfer_rule]: "rel_fun twin twin_r scroll_text scroll_text"
    unfolding scroll_text_def [abs_def] buf_rows_def buf_cols_def by transfer_prover
  show ?thesis unfolding fb_scroll_def [abs_def] by transfer_prover
qed

interpretation pic: screen_relation twin
  by unfold_locales (fact twin_fields twin_updates fb_clear_twin fb_fill_cell_twin fb_draw_char_twin scroll_twin)+

section \<open>The running kernel\<close>

abbreviation twin_kernel :: "kernel \<Rightarrow> kernel \<Rightarrow> bool" where
  "twin_kernel \<equiv> over twin"

abbreviation twin_kernel_r :: "kernel result \<Rightarrow> kernel result \<Rightarrow> bool" where
  "twin_kernel_r \<equiv> rel_sum (=) twin_kernel"

lemma twin_kernel_trans: "twin_kernel k l \<Longrightarrow> twin_kernel l m \<Longrightarrow> twin_kernel k m"
  by (rule over_trans) (auto intro: transpI twin_trans)

lemma twin_kernel_refl [simp]: "twin_kernel k k"
  by (simp add: over_def)

lemma twin_kernel_sym: "twin_kernel k l \<Longrightarrow> twin_kernel l k"
  by (erule overE) (simp add: over_def twin_sym)

lemma twin_tty: "twin st st' \<Longrightarrow> tty_of st' = tty_of st"
  by (auto simp: tty_of_def elim: twinE)

lemma twin_session: "twin_kernel k l \<Longrightarrow> session_of l = session_of k"
  by (auto simp: session_of_def twin_tty elim: overE)

text \<open>
  C14: Noninterference of the picture: two kernels that differ in nothing but the contents of the video memory can
  serve the same interrupts, and after them still differ in nothing else: text, input line, ports and all other
  components are equal, whatever the pixels were. The same holds for the errors of the handler.
\<close>

theorem picture_never_read:
  assumes "twin_kernel k l"
  shows "(irq_run junk k evs k' \<longrightarrow> (\<exists>l'. irq_run junk l evs l' \<and> twin_kernel k' l'))
    \<and> (isr_handler d fault junk buf n code k = Inl e \<longleftrightarrow> isr_handler d fault junk buf n code l = Inl e)"
proof -
  have "twin_kernel_r (isr_handler d fault junk buf n code k) (isr_handler d fault junk buf n code l)"
    using pic.isr_rel assms by (simp add: rel_fun_def)
  then have "isr_handler d fault junk buf n code k = Inl e \<longleftrightarrow> isr_handler d fault junk buf n code l = Inl e"
    by (auto elim: rel_sum.cases)
  with pic.irq_run_rel [OF _ assms] show ?thesis by blast
qed

theorem picture_never_read_witness:
  "\<exists>k' l'. irq_run (replicate 16 0) sample_kernel [Tick, Key 0x1E] k'
    \<and> irq_run (replicate 16 0) (sample_kernel\<lparr>k_screen := (k_screen sample_kernel)\<lparr>vram := (\<lambda>_. 7)\<rparr>\<rparr>) [Tick, Key 0x1E] l'
    \<and> session_of l' = session_of k'"
proof -
  have t: "twin_kernel sample_kernel (sample_kernel\<lparr>k_screen := (k_screen sample_kernel)\<lparr>vram := (\<lambda>_. 7)\<rparr>\<rparr>)"
    by (simp add: over_def)
  obtain k' where k': "irq_run (replicate 16 0) sample_kernel [Tick, Key 0x1E] k'" using sample_run by blast
  with picture_never_read [OF t, of "replicate 16 0" "[Tick, Key 0x1E]" k'] twin_session show ?thesis by blast
qed

section \<open>Timer interrupts inside the printing functions\<close>

definition any_ticks :: "u32 list \<Rightarrow> u32 list \<Rightarrow> bool" where
  "any_ticks ts ts' = True"

lemma fb_update_cursor_twin: "twin (fb_update_cursor n st) st"
proof -
  have pixel: "twin (fb_draw_pixel x y r g b s) st" if "twin s st" for x y r g b s
    using twin_trans [OF _ that] by (simp add: fb_draw_pixel_def Let_def)
  have "twin (for_n n (\<lambda>sy. for_n m (\<lambda>sx. fb_draw_pixel (px + of_nat sx) (py + of_nat sy) r g b)) s) st" if "twin s st" for n m px py r g b s
    by (rule for_n_inv [where I = "\<lambda>_ s. twin s st"], fact that) (rule for_n_inv [where I = "\<lambda>_ s. twin s st"], simp_all add: pixel)
  then show ?thesis
    by (simp add: fb_update_cursor_def fb_draw_cursor_def fb_erase_cursor_def fb_fill_cell_def Let_def)
qed

lemma serve_any: "twin st st' \<Longrightarrow> twin (serve ts st) st'"
proof (induction ts arbitrary: st)
  case (Cons n ts)
  then show ?case using twin_trans [OF fb_update_cursor_twin Cons.prems] by (simp add: serve_def)
qed simp

lemma serve_twin [transfer_rule]: "rel_fun any_ticks (rel_fun twin twin) serve serve"
  using serve_any twin_sym by (metis (no_types, lifting) rel_funI)

lemma advance_irq_twin [transfer_rule]: "rel_fun any_ticks (rel_fun any_ticks (rel_fun twin twin)) advance_irq advance_irq"
  unfolding advance_irq_def [abs_def] by transfer_prover

lemma print_loop_irq_twin: "rel_fun (rel_fun (=) any_ticks) (rel_fun twin twin_r)
    (\<lambda>q. print_loop_irq q fg bg i chars) (\<lambda>q. print_loop_irq q fg bg i chars)"
proof (induction chars arbitrary: i)
  case Nil
  then show ?case by (simp add: rel_fun_def)
next
  case (Cons a as)
  define rest where "rest = (\<lambda>q i. print_loop_irq q fg bg i as)"
  have [transfer_rule]: "rel_fun (rel_fun (=) any_ticks) (rel_fun (=) (rel_fun twin twin_r)) rest rest"
    using Cons.IH by (simp add: rest_def rel_fun_def)
  have eq: "(\<lambda>q. print_loop_irq q fg bg i (a # as)) = (\<lambda>q st. let st = serve (q 0) st in
     if a = 0 then Inr st
     else bind_r (scroll_if_needed st) (\<lambda>st.
          let st = serve (q 1) st in
          bind_r (fb_draw_char (cur_col st) (cur_row st) a fg bg st) (\<lambda>st.
          let st = advance_irq (q 3) (q 4) (serve (q 2) st) in
          bind_r (int_inc i) (\<lambda>i. rest (\<lambda>n. q (n + 5)) i st))))"
    unfolding rest_def by (intro ext) (rule print_loop_irq.simps(2))
  show ?case unfolding eq by transfer_prover
qed

lemma write_loop_irq_twin: "rel_fun (rel_fun (=) any_ticks) (rel_fun twin twin_r)
    (\<lambda>q. write_loop_irq q row col fg bg i chars) (\<lambda>q. write_loop_irq q row col fg bg i chars)"
proof (induction chars arbitrary: i)
  case Nil
  then show ?case by (simp add: rel_fun_def)
next
  case (Cons a as)
  define rest where "rest = (\<lambda>q i. write_loop_irq q row col fg bg i as)"
  have [transfer_rule]: "rel_fun (rel_fun (=) any_ticks) (rel_fun (=) (rel_fun twin twin_r)) rest rest"
    using Cons.IH by (simp add: rest_def rel_fun_def)
  have eq: "(\<lambda>q. write_loop_irq q row col fg bg i (a # as)) = (\<lambda>q st. let st = serve (q 0) st in
     if a \<noteq> 0 \<and> col + i < fb_cols st
     then bind_r (fb_draw_char (col + i) row a fg bg st) (\<lambda>st.
          bind_r (int_inc i) (\<lambda>i. rest (\<lambda>n. q (n + 1)) i st))
     else Inr st)"
    unfolding rest_def by (intro ext) (rule write_loop_irq.simps(2))
  show ?case unfolding eq by transfer_prover
qed

lemma loops_irq_twin [transfer_rule]:
  "rel_fun (rel_fun (=) any_ticks) (rel_fun (=) (rel_fun (=) (rel_fun (=) (rel_fun (=) (rel_fun twin twin_r))))) print_loop_irq print_loop_irq"
  "rel_fun (rel_fun (=) any_ticks) (rel_fun (=) (rel_fun (=) (rel_fun (=) (rel_fun (=) (rel_fun (=) (rel_fun (=) (rel_fun twin twin_r)))))))
    write_loop_irq write_loop_irq"
  using print_loop_irq_twin write_loop_irq_twin by (simp_all add: rel_fun_def)

lemma print_irq_transfer [transfer_rule]:
  "rel_fun (rel_fun (=) any_ticks) (rel_fun (=) (rel_fun twin twin_r)) fb_print_irq fb_print_irq"
  "rel_fun (rel_fun (=) any_ticks) (rel_fun (=) (rel_fun twin twin_r)) fb_println_irq fb_println_irq"
proof -
  show "rel_fun (rel_fun (=) any_ticks) (rel_fun (=) (rel_fun twin twin_r)) fb_print_irq fb_print_irq"
    unfolding fb_print_irq_def [abs_def] by transfer_prover
  have [transfer_rule]: "rel_fun (rel_fun (=) any_ticks) (rel_fun (=) (rel_fun (=) (rel_fun (=) (rel_fun (=) (rel_fun (=) (rel_fun twin twin_r))))))
      write_fb_irq write_fb_irq"
    unfolding write_fb_irq_def [abs_def] by transfer_prover
  show "rel_fun (rel_fun (=) any_ticks) (rel_fun (=) (rel_fun twin twin_r)) fb_println_irq fb_println_irq"
    unfolding fb_println_irq_def [abs_def] by transfer_prover
qed

lemma println_quiet: "fb_println_irq (\<lambda>n. []) = fb_println"
  by (simp add: fun_eq_iff fb_println_irq_def fb_println_def fb_println_color_def write_quiet Let_def)

text \<open>Whatever the schedule, the text is that of the uninterrupted call.\<close>

lemma irq_twin_quiet:
  assumes "twin st st'"
  shows "twin_r (fb_print_irq q chars st) (fb_print chars st')" and "twin_r (fb_println_irq q chars st) (fb_println chars st')"
  using print_irq_transfer assms
  by (simp_all add: rel_fun_def any_ticks_def print_quiet [symmetric] println_quiet [symmetric])

end
