(* ===== verification/Boot.thy ===== *)
theory Boot
  imports Interrupts
begin

text \<open>
  \<open>kernel_main\<close> (\<open>kernel.c\<close>): the composition of all components up to the idle loop, and its second
  half, which runs with interrupts enabled, as a system in which timer interrupts can come in between
  any two of its calls.
\<close>

section \<open>kernel_main (kernel.c)\<close>

text \<open>The static state at boot; \<open>v\<close> is the video memory, \<open>h\<close> the heap's memory, \<open>a\<close>, \<open>b\<close> the addresses of the page directories.\<close>

definition kernel_boot :: "memory \<Rightarrow> (u64 \<Rightarrow> block_header) \<Rightarrow> u64 \<Rightarrow> u64 \<Rightarrow> kernel" where
  "kernel_boot v h a b = \<lparr>k_ports = [], k_ticks = 0, k_screen = fb_boot v, k_kbd = kbd_boot, k_shell = replicate 256 0,
    k_pages = pmm_boot, k_heap = \<lparr>hdr = h, head = 0\<rparr>, k_disk = drive_boot, k_idt = idt_boot, k_tables = boot_tables a b,
    k_sti = False\<rparr>"

text \<open>The calls with interrupts off, up to \<open>sti\<close>; \<open>None\<close> if the memory map walk does not end.\<close>

definition boot_early :: "memory \<Rightarrow> u64 \<Rightarrow> (nat \<Rightarrow> u64) \<Rightarrow> u64 \<Rightarrow> kernel \<Rightarrow> kernel result option" where
  "boot_early m mbi stub idt_addr k =
    Option.bind (pmm_init m mbi (k_pages k)) (\<lambda>r.
      case r of
        Inl e \<Rightarrow> Some (Inl e)
      | Inr p \<Rightarrow> Option.bind (fb_init m mbi (k_screen k)) (\<lambda>st. Some (
          bind_r (paging_map_fb (fb_get_addr st) (fb_get_size st) (k_tables k)) (\<lambda>pt.
          let st = fb_clear FB_BLACK st in
          bind_r (idt_init stub idt_addr (k_idt k)) (\<lambda>i.
          bind_r (heap_init (k_heap k, p)) (\<lambda>(h, p).
          Inr (k\<lparr>k_pages := p, k_screen := st, k_tables := pt, k_idt := i, k_heap := h,
            k_ports := pic_init (k_ports k), k_sti := True\<rparr>)))))))"

text \<open>A call that works on the console, or on the ports, only.\<close>

definition con_call :: "(fb \<Rightarrow> fb result) \<Rightarrow> kernel \<Rightarrow> kernel result" where
  "con_call f k = bind_r (f (k_screen k)) (\<lambda>st. Inr (k\<lparr>k_screen := st\<rparr>))"

definition port_call :: "(trace \<Rightarrow> trace result) \<Rightarrow> kernel \<Rightarrow> kernel result" where
  "port_call f k = bind_r (f (k_ports k)) (\<lambda>tr. Inr (k\<lparr>k_ports := tr\<rparr>))"

definition boot_ata_init :: "device \<Rightarrow> u16 list \<Rightarrow> kernel \<Rightarrow> kernel result" where
  "boot_ata_init d buf k =
    bind_r (ata_init_on fb_println d buf (k_disk k) (k_screen k) (k_ports k)) (\<lambda>(dr, st, tr).
      Inr (k\<lparr>k_disk := dr, k_screen := st, k_ports := tr\<rparr>))"

text \<open>The calls behind \<open>sti\<close>, in order; then comes the empty loop.\<close>

definition boot_late :: "device \<Rightarrow> u16 list \<Rightarrow> (kernel \<Rightarrow> kernel result) list" where
  "boot_late d buf =
    [port_call (pit_init d),
     con_call (\<lambda>st. Inr (fb_clear FB_BLACK st)),
     boot_ata_init d buf,
     con_call (fb_println (lit ''Welcome to JordanOS'')),
     con_call (fb_println (lit ''Type a command or help'')),
     con_call (fb_print (lit ''> '')),
     port_call (keyboard_init d)]"

definition kernel_main ::
  "memory \<Rightarrow> u64 \<Rightarrow> (nat \<Rightarrow> u64) \<Rightarrow> u64 \<Rightarrow> device \<Rightarrow> u16 list \<Rightarrow> kernel \<Rightarrow> kernel result option" where
  "kernel_main m mbi stub idt_addr d buf k =
    map_option (\<lambda>r. bind_r r (seq_r (boot_late d buf))) (boot_early m mbi stub idt_addr k)"

section \<open>What boot needs\<close>

text \<open>
  A boot information block with a memory map whose pages fit the bitmap, and a framebuffer of a mode
  the drawing code can serve, of at most 64 text rows, above the first GiB and within one GiB.
\<close>

definition boot_info_ok :: "memory \<Rightarrow> u64 \<Rightarrow> bool list \<Rightarrow> mb2_fb_tag \<Rightarrow> bool" where
  "boot_info_ok m mbi pm tag \<longleftrightarrow>
    (\<exists>t es n. mmap_at m mbi t es n \<and> pm = page_map (regions m t es 0 n) \<and> length pm \<le> 1048576)
    \<and> (\<exists>a. mb2_find_tag m mbi MB2_TAG_FB = Some a \<and> a \<noteq> 0 \<and> tag = read_fb_tag m a)
    \<and> mode_ok tag \<and> unat (tag_height tag) div (2 * max 8 (unat (tag_width tag) div 96)) \<le> 64
    \<and> fits (tag_addr tag) (ucast (tag_height tag) * ucast (tag_pitch tag)) \<and> 2 ^ 30 \<le> unat (tag_addr tag)"

text \<open>Controllers that read back their masks, and a disk that reports less than 1 TiB.\<close>

definition boot_device_ok :: "pics \<Rightarrow> device \<Rightarrow> u16 list \<Rightarrow> bool" where
  "boot_device_ok p d buf \<longleftrightarrow> mask_readback d p \<and> length buf = 256
    \<and> (\<forall>tr ws tr'. ata_identify d buf tr = Inr (0, ws, tr') \<longrightarrow> sector_count ws < 2 ^ 31)"

definition dirs_ok :: "u64 \<Rightarrow> u64 \<Rightarrow> bool" where
  "dirs_ok a b \<longleftrightarrow> a AND mask 12 = 0 \<and> b AND mask 12 = 0 \<and> a \<noteq> b"

section \<open>The calls with interrupts off\<close>

text \<open>The request lines of \<open>M\<close>, and no others, are open; line \<open>n\<close> raises vector \<open>32 + n\<close>.\<close>

definition lines_open :: "pics \<Rightarrow> nat set \<Rightarrow> trace \<Rightarrow> bool" where
  "lines_open p M tr \<longleftrightarrow> pics_ready (pics_after p tr)
    \<and> (\<forall>n<16. irq_masked (pics_after p tr) n = (n \<notin> M) \<and> irq_vector (pics_after p tr) n = 32 + n)"

definition blank_tty :: "tty \<Rightarrow> bool" where
  "blank_tty t \<longleftrightarrow> t_col t = 0 \<and> t_row t = 0 \<and> t_text t = (\<lambda>r c. 0) \<and> t_fg t = FB_WHITE \<and> t_bg t = FB_BLACK"

text \<open>Gates for all exceptions and the two open lines; the first GiB and the framebuffer are mapped to themselves.\<close>

definition gates_ok :: "(nat \<Rightarrow> u64) \<Rightarrow> idt_state \<Rightarrow> bool" where
  "gates_ok stub i \<longleftrightarrow> (\<forall>v<256. dispatch i v = (if v < 34 then Some (0x08, stub v) else None))"

definition mapped_ok :: "fb \<Rightarrow> page_tables \<Rightarrow> bool" where
  "mapped_ok st pt \<longleftrightarrow> (\<forall>va. unat va < 2 ^ 30 \<or> va \<in> region st \<longrightarrow> translate pt va = Some va)"

definition heap_ready :: "bool list \<Rightarrow> heap \<Rightarrow> pmm \<Rightarrow> bool" where
  "heap_ready pm h p \<longleftrightarrow> (True \<in> set pm \<and> \<not> pm ! 0 \<longrightarrow> (\<exists>a. heap_inv (h, p) [(a, 4072, 0)]))"

text \<open>The counters that \<open>mem\<close> reports: all pages of the memory map, and the free ones but for the page of the heap.\<close>

definition pages_left :: "bool list \<Rightarrow> pmm \<Rightarrow> bool" where
  "pages_left pm p \<longleftrightarrow> unat (pages_num p) = length pm \<and> unat (free_pages p) = count_list pm True - 1"

text \<open>
  The drive record after boot: filled in from an identification block that the disk sent, or as in the loaded image
  if the identification failed.
\<close>

definition disk_read :: "device \<Rightarrow> u16 list \<Rightarrow> ata_drive \<Rightarrow> bool" where
  "disk_read d buf dr \<longleftrightarrow> (\<exists>tr ws tr'. ata_identify d buf tr = Inr (0, ws, tr')
    \<and> model dr = pad 41 (rtrim (model_bytes ws)) \<and> present dr = 1 \<and> unat (total_sectors dr) = sector_count ws)"

definition disk_absent :: "device \<Rightarrow> u16 list \<Rightarrow> ata_drive \<Rightarrow> bool" where
  "disk_absent d buf dr \<longleftrightarrow> dr = drive_boot
    \<and> (\<exists>tr r ws tr'. ata_identify d buf tr = Inr (r, ws, tr') \<and> r \<noteq> 0)"

text \<open>Clearing in the theme's background, with an empty text, puts the console in order.\<close>

lemma clear_ok:
  assumes "screen_mode st" and "blank_tty (tty_of st)"
  shows "fb_ok (fb_clear FB_BLACK st) \<and> tty_of (fb_clear FB_BLACK st) = tty_of st \<and> evolves st (fb_clear FB_BLACK st)"
proof -
  let ?s = "fb_clear FB_BLACK st"
  have wf: "fb_wf st" and bg: "theme_bg st = FB_BLACK" using assms by (simp_all add: screen_mode_def blank_tty_def)
  note cl = clear_displays [OF wf, unfolded bg]
  have text0: "screen_buf st = (\<lambda>r c. 0)" and at: "cur_col st = 0" "cur_row st = 0"
    using assms(2) by (simp_all add: blank_tty_def unat_eq_0)
  have m: "same_mode st ?s" using cl by (simp add: evolves_def)
  have f: "screen_buf ?s = (\<lambda>r c. 0)" "cur_col ?s = 0" "cur_row ?s = 0"
    using cl tty_of_fields [of ?s st] text0 at by simp_all
  have "renders X ?s" for X using cl f by (simp add: renders_def displays_def)
  moreover have "grid_ok ?s"
    using assms(1) grid_numbers(4,5) [OF assms(1)] same_mode_shape [OF m] f
    by (simp add: grid_ok_def screen_mode_def word_less_nat_alt)
  ultimately show ?thesis using cl f by (simp add: fb_ok_def screen_ok_def blank_behind_def)
qed

lemma fb_setup_blank:
  "blank_tty (tty_of (fb_setup tag (fb_boot v)))"
  by (simp add: blank_tty_def tty_of_def fb_setup_def fb_boot_def Let_def)

lemma heap_init_returns:
  assumes "pmm_ok p"
  shows "\<exists>h' q. heap_init (h, p) = Inr (h', q) \<and> pmm_ok q \<and> heap_ready (page_view p) h' q \<and> pages_left (page_view p) q"
proof (cases "page_avail p = {}")
  case True
  then have "pmm_alloc p = Inr (0, p)" by (rule pages.alloc_empty [OF assms])
  moreover have "True \<notin> set (page_view p)" using True by (auto simp: page_avail_def in_set_conv_nth)
  moreover from this have "count_list (page_view p) True = 0" by (simp add: count_list_0_iff)
  ultimately show ?thesis using assms
    by (simp add: heap_init_def heap_init_on_def heap_ready_def Let_def pages_left_def pmm_ok_def)
next
  case False
  from heap_init_correct [OF assms this, of h] obtain a h' q where
    run: "heap_init (h, p) = Inr (h', q)" "a \<in> page_avail p" "pmm_ok q" "a \<noteq> 0 \<longrightarrow> heap_inv (h', q) [(a, 4072, 0)]"
      and taken: "page_avail q = page_avail p - {a}" by blast
  have "card (page_avail q) = card (page_avail p) - 1" using taken run(2) by (simp add: card_Diff_singleton)
  then have "unat (free_pages q) = count_list (page_view p) True - 1"
    using card_page_avail [OF run(3)] card_page_avail [OF assms] assms by (simp add: pmm_ok_def)
  moreover obtain b where "pmm_alloc p = Inr (b, q)"
    using run(1) by (auto simp: heap_init_def heap_init_on_def bind_r_def Let_def split: sum.splits)
  then have "pages_num q = pages_num p" using pmm_alloc_allocates [OF assms] by (auto simp: allocates_def split: if_splits)
  ultimately have left: "pages_left (page_view p) q" by (simp add: pages_left_def)
  have "a \<noteq> 0" if "\<not> page_view p ! 0"
  proof
    assume "a = 0"
    with run(2) obtain i where i: "i < unat (pages_num p)" "page_view p ! i" "page_addr i = 0" by (auto simp: page_avail_def)
    then have "i \<le> 1048576" using assms by (simp add: pmm_ok_def)
    from unat_page_addr [OF this] i that show False by simp
  qed
  with run left show ?thesis by (auto simp: heap_ready_def)
qed


lemma paging_ok:
  assumes "dirs_ok a b" and "fits (fb_addr st) (fb_get_size st)" and "2 ^ 30 \<le> unat (fb_addr st)" and "fb_wf st"
  shows "\<exists>pt. paging_map_fb (fb_get_addr st) (fb_get_size st) (boot_tables a b) = Inr pt \<and> mapped_ok st pt"
proof -
  let ?pa = "fb_addr st" and ?sz = "fb_get_size st"
  have dirs: "a AND mask 12 = 0" "b AND mask 12 = 0" "a \<noteq> b" using assms(1) by (simp_all add: dirs_ok_def)
  note ok = boot_tables_ok [OF dirs]
  obtain pt where pt: "paging_map_fb ?pa ?sz (boot_tables a b) = Inr pt"
    using paging_map_fb_runs [OF ok assms(2)] by blast
  have low: "translate pt va = Some va" if "unat va < 2 ^ 30" for va
  proof -
    have "1 \<le> unat ?pa div 2 ^ 30" using div_le_mono [OF assms(3), of "2 ^ 30"] by simp
    moreover have "unat va div 2 ^ 30 = 0" using that by simp
    moreover have "pdpt (boot_tables a b) ! 0 AND NOT (mask 12) = a" "fb_pd_addr (boot_tables a b) = b"
      using table_ref(2) [OF dirs(1)] by (simp_all add: boot_tables_def)
    ultimately have "translate pt va = translate (boot_tables a b) va"
      using dirs(3) by (intro other_translates [OF ok assms(2) pt]) simp_all
    then show ?thesis using boot_translates [OF dirs(1,3) that] by simp
  qed
  have "translate pt va = Some va" if va: "va \<in> region st" for va
  proof -
    obtain k where k: "va = ?pa + of_nat k" "k < unat (fb_height st) * unat (fb_pitch st)"
      using va by (auto simp: region_def)
    have area: "unat (fb_height st) * unat (fb_pitch st) < 4294967296" using assms(4) by (simp add: fb_wf_def)
    have "unat (ucast w :: u64) = unat w" for w :: u32
      using unat_less_32 [of w] by (intro unat_ucast_small) simp
    then have sz: "unat ?sz = unat (fb_height st) * unat (fb_pitch st)"
      using area by (simp add: fb_get_size_def unat_word_ariths)
    have "unat (of_nat k :: u64) = k" using k(2) area by (intro unat_of_nat_u64) linarith
    moreover have "unat ?pa < 549755813888" using assms(2) by (simp add: fits_def)
    ultimately have "unat va = unat ?pa + k" using k area by (simp add: unat_word_ariths)
    then show ?thesis using fb_translates [OF ok assms(2) pt] k(2) sz by simp
  qed
  with pt low show ?thesis by (auto simp: mapped_ok_def fb_get_addr_def)
qed

lemma shell_data_boot: "pmm_ok p \<Longrightarrow> shell_data_ok p drive_boot"
  using pmm_ok_counts [of p] by (simp add: shell_data_ok_def drive_boot_def terminated_def)

definition first_tty :: "mb2_fb_tag \<Rightarrow> tty" where
  "first_tty tag = tty_of (fb_setup tag (fb_boot (\<lambda>_. 0)))"

text \<open>The state when interrupts are switched on: everything set up, the controllers closed, nothing on the screen.\<close>

definition early_state ::
  "pics \<Rightarrow> (nat \<Rightarrow> u64) \<Rightarrow> bool list \<Rightarrow> mb2_fb_tag \<Rightarrow> kernel \<Rightarrow> bool" where
  "early_state p stub pm tag k \<longleftrightarrow> kernel_ok k \<and> k_sti k \<and> lines_open p {} (k_ports k) \<and> gates_ok stub (k_idt k)
    \<and> mapped_ok (k_screen k) (k_tables k) \<and> heap_ready pm (k_heap k) (k_pages k)
    \<and> pages_left pm (k_pages k) \<and> k_disk k = drive_boot \<and> blank_tty (tty_of (k_screen k)) \<and> tty_of (k_screen k) = first_tty tag \<and> k_kbd k = kbd_boot"

text \<open>The parts of the setup that have nothing to do with the screen.\<close>

lemma boot_parts:
  assumes "mmap_at m mbi t es n" and "pm = page_map (regions m t es 0 n)" and "length pm \<le> 1048576"
  obtains q i h' q' where "pmm_init m mbi pmm_boot = Some (Inr q)" "idt_init stub ia idt_boot = Inr i" "gates_ok stub i"
    "heap_init (h, q) = Inr (h', q')" "pmm_ok q'" "heap_ready pm h' q'" "pages_left pm q'"
proof -
  have "0 < n" using assms(1) by (simp add: mmap_at_def)
  then obtain r where "pmm_init m mbi pmm_boot = Some r" "builds pm r"
    using pmm_init_loop_builds [OF assms(1) _ pmm_built_empty, of 0 pmm_boot] assms(2)
    by (auto simp: pmm_init_def mmap_first_at [OF assms(1)])
  then obtain q where q: "pmm_init m mbi pmm_boot = Some (Inr q)" "pmm_ok q" "page_view q = pm"
    using assms(3) by (auto simp: builds_def ok_r_iff pmm_built_def)
  obtain i where i: "idt_init stub ia idt_boot = Inr i" "gates_ok stub i"
    using idt_init_runs [where st = idt_boot and stub = stub and a = ia]
    by (auto simp: ok_r_iff idt_boot_def dispatch_def gates_ok_def)
  obtain h' q' where "heap_init (h, q) = Inr (h', q')" "pmm_ok q'" "heap_ready pm h' q'" "pages_left pm q'"
    using heap_init_returns [OF q(2)] q(3) by blast
  with q(1) i show thesis by (rule that)
qed

lemma boot_early_ok:
  assumes "boot_info_ok m mbi pm tag" and "dirs_ok a b"
  shows "\<exists>k. boot_early m mbi stub ia (kernel_boot v h a b) = Some (Inr k) \<and> early_state p stub pm tag k"
proof -
  obtain t es n where map: "mmap_at m mbi t es n" "pm = page_map (regions m t es 0 n)" "length pm \<le> 1048576"
    using assms(1) by (auto simp: boot_info_ok_def)
  obtain q i h' q' where q: "pmm_init m mbi pmm_boot = Some (Inr q)"
    and i: "idt_init stub ia idt_boot = Inr i" "gates_ok stub i"
    and heap: "heap_init (\<lparr>hdr = h, head = 0\<rparr>, q) = Inr (h', q')" "pmm_ok q'" "heap_ready pm h' q'" "pages_left pm q'"
    by (rule boot_parts [OF map])
  let ?st = "fb_setup tag (fb_boot v)"
  have mode: "mode_ok tag" using assms(1) by (simp add: boot_info_ok_def)
  note wf = fb_setup_wf [OF mode, of "fb_boot v"]
  have init: "fb_init m mbi (fb_boot v) = Some ?st" using assms(1) by (auto simp: boot_info_ok_def fb_init_def)
  have fields: "fb_addr ?st = tag_addr tag" "fb_get_size ?st = ucast (tag_height tag) * ucast (tag_pitch tag)"
    by (simp_all add: fb_setup_def fb_get_size_def Let_def)
  have "screen_mode ?st" using assms(1) wf by (simp add: screen_mode_def boot_info_ok_def fb_setup_grid fb_setup_cell)
  note cl = clear_ok [OF this fb_setup_blank]
  let ?c = "fb_clear FB_BLACK ?st"
  obtain pt where pt: "paging_map_fb (fb_get_addr ?st) (fb_get_size ?st) (boot_tables a b) = Inr pt" "mapped_ok ?st pt"
    using paging_ok [OF assms(2), of ?st] assms(1) wf by (auto simp: boot_info_ok_def fields)
  let ?k = "(kernel_boot v h a b)\<lparr>k_pages := q', k_screen := ?c, k_tables := pt, k_idt := i, k_heap := h',
    k_ports := pic_init [], k_sti := True\<rparr>"
  have run: "boot_early m mbi stub ia (kernel_boot v h a b) = Some (Inr ?k)"
    using q init pt(1) i(1) heap(1) by (simp add: boot_early_def kernel_boot_def Let_def)
  have m: "same_mode ?st ?c" using cl by (simp add: evolves_def)
  have "region ?c = region ?st" "fb_addr ?c = fb_addr ?st"
    using same_mode_shape(2) [OF m] m by (simp_all add: same_mode_def)
  then have "mapped_ok ?c pt" using pt(2) by (simp add: mapped_ok_def)
  moreover have "tty_of ?st = first_tty tag" by (simp add: first_tty_def tty_of_def fb_setup_def fb_boot_def Let_def)
  moreover have "lines_open p {} (pic_init [])"
    by (simp add: lines_open_def pic_init_sets pics_set_masked pics_set_vector)
  moreover have "kernel_ok ?k"
    using cl shell_data_boot [OF heap(2)] by (simp add: kernel_ok_def kernel_boot_def)
  ultimately have "early_state p stub pm tag ?k"
    using cl fb_setup_blank [of tag v] i(2) heap(3,4) by (simp add: early_state_def kernel_boot_def)
  with run show ?thesis by blast
qed

section \<open>The calls with interrupts on\<close>

text \<open>What the later calls and the timer leave alone.\<close>

definition stays :: "kernel \<Rightarrow> kernel \<Rightarrow> bool" where
  "stays k0 k \<longleftrightarrow> k_kbd k = k_kbd k0 \<and> k_pages k = k_pages k0 \<and> k_heap k = k_heap k0 \<and> k_idt k = k_idt k0
    \<and> k_tables k = k_tables k0 \<and> k_sti k = k_sti k0 \<and> evolves (k_screen k0) (k_screen k)"

text \<open>The open lines \<open>M\<close>, the terminal \<open>T\<close>, and what is known of the drive record, \<open>D\<close>.\<close>

definition booting :: "pics \<Rightarrow> kernel \<Rightarrow> nat set \<Rightarrow> tty \<Rightarrow> (ata_drive \<Rightarrow> bool) \<Rightarrow> kernel \<Rightarrow> bool" where
  "booting p k0 M T D k \<longleftrightarrow> kernel_ok k \<and> stays k0 k \<and> lines_open p M (k_ports k) \<and> tty_of (k_screen k) = T
    \<and> D (k_disk k)"

lemma con_call_ok:
  assumes "booting p k0 M T D k" and "\<And>st. fb_ok st \<Longrightarrow> does fb_ok fb_keeps tty_of g st (f st)"
  shows "ok_r (booting p k0 M (g T) D) (con_call f k)"
proof -
  have "fb_ok (k_screen k)" using assms(1) by (simp add: booting_def kernel_ok_def)
  with assms(2) obtain st where "f (k_screen k) = Inr st" "fb_ok st" "tty_of st = g (tty_of (k_screen k))"
    "evolves (k_screen k) st" by (auto simp: does_def ok_r_iff fb_keeps_def)
  with assms(1) show ?thesis
    by (auto simp: con_call_def booting_def stays_def intro: evolves_trans)
qed

lemma clear_call_ok:
  assumes "booting p k0 M T D k" and "blank_tty T"
  shows "ok_r (booting p k0 M T D) (con_call (\<lambda>st. Inr (fb_clear FB_BLACK st)) k)"
proof -
  have "screen_mode (k_screen k)" "blank_tty (tty_of (k_screen k))"
    using assms by (auto simp: booting_def kernel_ok_def fb_ok_def screen_ok_def grid_ok_def)
  from clear_ok [OF this] assms(1) show ?thesis
    by (auto simp: con_call_def booting_def stays_def intro: evolves_trans)
qed

lemma unmask_lines:
  assumes "lines_open p M tr" and "mask_readback d p" and "i < 16"
    and "\<And>tr. \<exists>es. list_all pic_free es \<and> f tr = pic_unmask d (of_nat i) (tr @ es)"
  shows "ok_r (lines_open p (insert i M)) (f tr)"
proof -
  obtain es where es: "list_all pic_free es" "f tr = pic_unmask d (of_nat i) (tr @ es)" using assms(4) by blast
  have same: "pics_after p (tr @ es) = pics_after p tr" using pics_after_free [OF es(1)] by simp
  have "sint (of_nat i :: s32) = int i" using assms(3) by (intro sint_of_nat_s32) simp
  then have "ok_r (\<lambda>tr'. unmasked (pics_after p tr) i (pics_after p tr')) (f tr)"
    using pic_unmask_clears [OF assms(2), of "tr @ es" "of_nat i"] assms(1,3) es(2) same
    by (simp add: lines_open_def)
  then show ?thesis by (rule ok_r_mono) (use assms(1) in \<open>auto simp: lines_open_def unmasked_def\<close>)
qed

lemma unmask_call_ok:
  assumes "booting p k0 M T D k" and "mask_readback d p" and "i < 16"
    and "\<And>tr. \<exists>es. list_all pic_free es \<and> f tr = pic_unmask d (of_nat i) (tr @ es)"
  shows "ok_r (booting p k0 (insert i M) T D) (port_call f k)"
  using unmask_lines [OF _ assms(2,3), of M "k_ports k" f] assms(1,4)
  by (auto simp: ok_r_iff port_call_def booting_def stays_def)

lemma pit_call: "\<exists>es. list_all pic_free es \<and> pit_init d tr = pic_unmask d (of_nat 0) (tr @ es)"
  by (rule exI [of _ "[Out8 0x43 0x36, Out8 0x40 0x9B, Out8 0x40 0x2E]"])
    (simp add: pit_init_def Let_def port_defs TICK_HZ_def)

lemma keyboard_call: "\<exists>es. list_all pic_free es \<and> keyboard_init d tr = pic_unmask d (of_nat 1) (tr @ es)"
  by (rule exI [of _ "[]"]) (simp add: keyboard_init_def)

lemma tick_ok:
  assumes "booting p k0 M T D k" and "irq_step junk k Tick k'"
  shows "booting p k0 M T D k'"
proof -
  have "k' = timer_tick k" using assms(2) by (cases rule: irq_tickE) (auto simp: isr_handler_def)
  moreover have "kernel_ok k" using assms(1) by (simp add: booting_def)
  moreover have "k_kbd (timer_tick k) = k_kbd k" by (simp add: timer_tick_def Let_def)
  ultimately show ?thesis
    using assms(1) timer_tick_ok [of k] pics_after_free [of "[Out8 0x20 0x20, Out8 0x80 0]"]
    by (auto simp: booting_def stays_def undisturbed_def session_of_def lines_open_def intro: evolves_trans)
qed

text \<open>The disk: either its failure is announced, or its record is filled in.\<close>

definition disk_failed :: "tty \<Rightarrow> tty" where
  "disk_failed = t_println (bytes ''Drive identification failed'')"

text \<open>Either the identification fails and the message is all that happens, or the record is filled in and the console left alone.\<close>

lemma ata_outcome:
  assumes "boot_device_ok p d buf"
  obtains (failed) tr' where "disk_absent d buf drive_boot" "\<forall>p. pics_after p tr' = pics_after p tr"
      "\<And>println (con :: fb). ata_init_on println d buf drive_boot con tr
        = bind_r (println (lit ''Drive identification failed'') con) (\<lambda>con. Inr (drive_boot, con, tr'))"
  | (filled) tr' dr where "disk_read d buf dr" "\<forall>p. pics_after p tr' = pics_after p tr" "\<And>pg. shell_data_ok pg drive_boot \<Longrightarrow> shell_data_ok pg dr"
      "\<And>println (con :: fb). ata_init_on println d buf drive_boot con tr = Inr (dr, con, tr')"
proof -
  have buf: "length buf = 256" using assms by (simp add: boot_device_ok_def)
  obtain r ws tr' where run: "ata_identify d buf tr = Inr (r, ws, tr')" "identified tr buf (r, ws, tr')"
    using ata_identify_runs [OF buf, of tr d] by (auto simp: ok_r_iff)
  obtain es where "tr' = tr @ es" "list_all pic_free es" using ata_identify_ports [OF run(1)] by blast
  then have lines: "\<forall>p. pics_after p tr' = pics_after p tr" by (simp add: pics_after_free)
  show thesis
  proof (cases "r = 0")
    case False
    show thesis by (rule failed [OF _ lines]) (use False run(1) in \<open>auto simp: disk_absent_def ata_init_on_def\<close>)
  next
    case True
    then have ws: "length ws = 256" "sector_count ws < 2 ^ 31"
      using run assms by (auto simp: identified_def boot_device_ok_def)
    obtain n where n: "read_sector_count ws = Inr n" "unat n = sector_count ws"
      using read_sector_count_correct [of ws] ws(1) by auto
    let ?m = "pad 41 (rtrim (model_bytes ws))"
    let ?dr = "drive_boot\<lparr>model := ?m, present := 1, total_sectors := n\<rparr>"
    have model: "read_model ws (model drive_boot) = Inr ?m" using read_model_correct [of ws] ws(1) by (simp add: drive_boot_def)
    have "length (rtrim (model_bytes ws)) \<le> 40" using length_rtrim [of "model_bytes ws"] ws(1) by simp
    then have "length ?m = 41" "terminated ?m" by (simp_all add: pad_def terminated_def)
    then have data: "shell_data_ok pg drive_boot \<Longrightarrow> shell_data_ok pg ?dr" for pg using n(2) ws(2) by (simp add: shell_data_ok_def)
    have "disk_read d buf ?dr" using True run(1) n(2) by (auto simp: disk_read_def)
    from filled [OF this lines data] show thesis using True run(1) model n(1) by (simp add: ata_init_on_def)
  qed
qed

lemma boot_ata_init_ok:
  assumes "booting p k0 M T (\<lambda>dr. dr = drive_boot) k" and "boot_device_ok p d buf"
  shows "ok_r (\<lambda>k'. booting p k0 M T (disk_read d buf) k' \<or> booting p k0 M (disk_failed T) (disk_absent d buf) k')
    (boot_ata_init d buf k)"
proof (rule ata_outcome [OF assms(2), where tr = "k_ports k"], goal_cases failed filled)
  case (failed tr)
  have k: "k_disk k = drive_boot" "stays k0 k" "tty_of (k_screen k) = T" and ok: "kernel_ok k" "fb_ok (k_screen k)"
    using assms(1) by (simp_all add: booting_def) (simp add: kernel_ok_def)
  have "does fb_ok fb_keeps tty_of disk_failed (k_screen k) (fb_println (lit ''Drive identification failed'') (k_screen k))"
    using fbc.println_does [OF ok(2) terminated_lit, of "''Drive identification failed''"] by (simp add: disk_failed_def)
  then obtain st where st: "fb_println (lit ''Drive identification failed'') (k_screen k) = Inr st" "fb_ok st"
    "tty_of st = disk_failed (tty_of (k_screen k))" "evolves (k_screen k) st"
    by (auto simp: does_def ok_r_iff fb_keeps_def)
  have "kernel_ok (k\<lparr>k_screen := st, k_ports := tr\<rparr>)" using ok(1) st(2) by (simp add: kernel_ok_def)
  then have "booting p k0 M (disk_failed T) (disk_absent d buf) (k\<lparr>k_disk := drive_boot, k_screen := st, k_ports := tr\<rparr>)"
    using assms(1) k st failed(1,2) unfolding booting_def stays_def lines_open_def
    by (auto simp: kernel_ok_def intro: evolves_trans)
  then show ?thesis using st(1) k(1) failed(3) by (simp add: boot_ata_init_def)
next
  case (filled tr dr)
  have "booting p k0 M T (disk_read d buf) (k\<lparr>k_disk := dr, k_screen := k_screen k, k_ports := tr\<rparr>)"
    using assms(1) filled(1,2) filled(3) [of "k_pages k"] by (auto simp: booting_def stays_def lines_open_def kernel_ok_def)
  then show ?thesis using assms(1) filled(4) by (simp add: boot_ata_init_def booting_def)
qed

section \<open>From sti to the idle loop\<close>

text \<open>The greeting, by the number of calls still to make.\<close>

definition greeting :: "nat \<Rightarrow> tty \<Rightarrow> tty" where
  "greeting n t =
    (let welcome = t_println (bytes ''Welcome to JordanOS''); hint = t_println (bytes ''Type a command or help'')
     in if 4 \<le> n then t else if n = 3 then welcome t else if n = 2 then hint (welcome t)
        else t_print (bytes ''> '') (hint (welcome t)))"

definition opened :: "nat \<Rightarrow> nat set" where
  "opened n = (if n = 7 then {} else if n = 0 then {0, 1} else {0})"

text \<open>The two outcomes of the identification: what was printed above the greeting, and what is known of the record.\<close>

definition disk_outcomes :: "device \<Rightarrow> u16 list \<Rightarrow> tty \<Rightarrow> (tty \<times> (ata_drive \<Rightarrow> bool)) set" where
  "disk_outcomes d buf t = {(t, disk_read d buf), (disk_failed t, disk_absent d buf)}"

definition at_stage :: "pics \<Rightarrow> device \<Rightarrow> u16 list \<Rightarrow> kernel \<Rightarrow> nat \<Rightarrow> kernel \<Rightarrow> bool" where
  "at_stage p d buf k0 n k \<longleftrightarrow>
    (if 4 < n then booting p k0 (opened n) (tty_of (k_screen k0)) (\<lambda>dr. dr = drive_boot) k
     else \<exists>(T, D) \<in> disk_outcomes d buf (tty_of (k_screen k0)). booting p k0 (opened n) (greeting n T) D k)"

lemma println_lit:
  "fb_ok st \<Longrightarrow> nul_free t \<Longrightarrow> length t < 2 ^ 31 \<Longrightarrow>
    does fb_ok fb_keeps tty_of (t_println (bytes t)) st (fb_println (lit t) st)"
  using fbc.println_does [of st "lit t"] by simp

lemma print_lit:
  "fb_ok st \<Longrightarrow> nul_free t \<Longrightarrow> length t < 2 ^ 31 \<Longrightarrow>
    does fb_ok fb_keeps tty_of (t_print (bytes t)) st (fb_print (lit t) st)"
  using fbc.print_does [of st "lit t"] by simp

text \<open>A greeting line takes the kernel from one stage to the next.\<close>

lemma greeting_call_ok:
  assumes "at_stage p d buf k0 (Suc n) k" and "n \<in> {1, 2, 3}"
    and "\<And>st. fb_ok st \<Longrightarrow> does fb_ok fb_keeps tty_of g st (f st)"
    and "\<And>t. greeting n t = g (greeting (Suc n) t)"
  shows "ok_r (at_stage p d buf k0 n) (con_call f k)"
proof -
  have "opened (Suc n) = opened n" using assms(2) by (auto simp: opened_def)
  with assms(1,2) obtain T D where T: "(T, D) \<in> disk_outcomes d buf (tty_of (k_screen k0))"
    "booting p k0 (opened n) (greeting (Suc n) T) D k" by (auto simp: at_stage_def)
  from con_call_ok [OF T(2) assms(3)] have "ok_r (booting p k0 (opened n) (greeting n T) D) (con_call f k)"
    by (simp add: assms(4))
  then show ?thesis by (rule ok_r_mono) (use T(1) assms(2) in \<open>auto simp: at_stage_def\<close>)
qed

text \<open>The device behind the call may be another one than before: only the disk's answer matters later.\<close>

lemma call_ok_on:
  assumes "at_stage p d buf k0 (Suc n) k" and "n < 7" and "blank_tty (tty_of (k_screen k0))" and "boot_device_ok p e buf"
  shows "ok_r (at_stage p (if 4 \<le> n then e else d) buf k0 n) ((boot_late e buf ! (6 - n)) k)"
proof -
  let ?unread = "\<lambda>dr. dr = drive_boot"
  have mask: "mask_readback e p" using assms(4) by (simp add: boot_device_ok_def)
  consider "n = 6" | "n = 5" | "n = 4" | "n = 3" | "n = 2" | "n = 1" | "n = 0" using assms(2) by linarith
  then show ?thesis
  proof cases
    case 1
    then have "booting p k0 {} (tty_of (k_screen k0)) ?unread k" using assms(1) by (simp add: at_stage_def opened_def)
    from unmask_call_ok [OF this mask _ pit_call] 1 show ?thesis
      by (auto simp: boot_late_def at_stage_def opened_def ok_r_iff)
  next
    case 2
    then have "booting p k0 {0} (tty_of (k_screen k0)) ?unread k" using assms(1) by (simp add: at_stage_def opened_def)
    from clear_call_ok [OF this assms(3)] 2 show ?thesis
      by (auto simp: boot_late_def at_stage_def opened_def ok_r_iff)
  next
    case 3
    then have "booting p k0 {0} (tty_of (k_screen k0)) ?unread k" using assms(1) by (simp add: at_stage_def opened_def)
    from boot_ata_init_ok [OF this assms(4)] 3 show ?thesis
      by (auto simp: boot_late_def at_stage_def opened_def greeting_def disk_outcomes_def ok_r_iff)
  next
    case 4
    have "ok_r (at_stage p d buf k0 n) (con_call (fb_println (lit ''Welcome to JordanOS'')) k)"
      by (rule greeting_call_ok [OF assms(1) _ println_lit]) (use 4 in \<open>simp_all add: greeting_def Let_def\<close>)
    with 4 show ?thesis by (simp add: boot_late_def)
  next
    case 5
    have "ok_r (at_stage p d buf k0 n) (con_call (fb_println (lit ''Type a command or help'')) k)"
      by (rule greeting_call_ok [OF assms(1) _ println_lit]) (use 5 in \<open>simp_all add: greeting_def Let_def\<close>)
    with 5 show ?thesis by (simp add: boot_late_def)
  next
    case 6
    have "ok_r (at_stage p d buf k0 n) (con_call (fb_print (lit ''> '')) k)"
      by (rule greeting_call_ok [OF assms(1) _ print_lit]) (use 6 in \<open>simp_all add: greeting_def Let_def\<close>)
    with 6 show ?thesis by (simp add: boot_late_def)
  next
    case 7
    then obtain T D where T: "(T, D) \<in> disk_outcomes d buf (tty_of (k_screen k0))" "booting p k0 {0} (greeting 1 T) D k"
      using assms(1) by (auto simp: at_stage_def opened_def)
    have "ok_r (booting p k0 (insert 1 {0}) (greeting 1 T) D) (port_call (keyboard_init e) k)"
      by (rule unmask_call_ok [OF T(2) mask _ keyboard_call]) simp
    moreover have "insert 1 {0} = opened 0" "greeting 1 T = greeting 0 T" by (auto simp: opened_def greeting_def)
    ultimately have "ok_r (booting p k0 (opened 0) (greeting 0 T) D) (port_call (keyboard_init e) k)" by simp
    then have "ok_r (at_stage p d buf k0 0) (port_call (keyboard_init e) k)"
      by (rule ok_r_mono) (use T(1) in \<open>auto simp: at_stage_def\<close>)
    with 7 show ?thesis by (simp add: boot_late_def)
  qed
qed

lemma call_ok:
  assumes "at_stage p d buf k0 (Suc n) k" and "n < 7" and "blank_tty (tty_of (k_screen k0))" and "boot_device_ok p d buf"
  shows "ok_r (at_stage p d buf k0 n) ((boot_late d buf ! (6 - n)) k)"
  using call_ok_on [OF assms] by simp

text \<open>
  The second half of \<open>kernel_main\<close> as a system: the next call, or an interrupt on an open
  line between two calls. The first component is the calls still to make.
\<close>

definition irq_line :: "irq \<Rightarrow> nat" where
  "irq_line e = (case e of Tick \<Rightarrow> 0 | Key code \<Rightarrow> 1)"

inductive boot_step ::
  "u8 list \<Rightarrow> pics \<Rightarrow> (kernel \<Rightarrow> kernel result) list \<times> kernel \<Rightarrow> (kernel \<Rightarrow> kernel result) list \<times> kernel \<Rightarrow> bool"
  for junk p where
  boot_call: "f k = Inr k' \<Longrightarrow> boot_step junk p (f # fs, k) (fs, k')"
| boot_irq: "fs \<noteq> [] \<Longrightarrow> irq_step junk k e k' \<Longrightarrow> \<not> irq_masked (pics_after p (k_ports k)) (irq_line e)
    \<Longrightarrow> boot_step junk p (fs, k) (fs, k')"

inductive_cases boot_stepE: "boot_step junk p (fs, k) (fs', k')"

text \<open>The invariant: the calls still to make tell the stage.\<close>

definition boot_inv :: "pics \<Rightarrow> kernel \<Rightarrow> device \<Rightarrow> u16 list \<Rightarrow> (kernel \<Rightarrow> kernel result) list \<times> kernel \<Rightarrow> bool" where
  "boot_inv p k0 d buf = (\<lambda>(fs, k). \<exists>n\<le>7. fs = drop (7 - n) (boot_late d buf) \<and> at_stage p d buf k0 n k)"

lemma length_boot_late [simp]: "length (boot_late d buf) = 7"
  by (simp add: boot_late_def)

lemma late_drop:
  "n < 7 \<Longrightarrow> drop (7 - Suc n) (boot_late d buf) = boot_late d buf ! (6 - n) # drop (7 - n) (boot_late d buf)"
proof -
  assume "n < 7"
  then have "Suc (6 - n) = 7 - n" "7 - Suc n = 6 - n" "6 - n < 7" by arith+
  then show ?thesis using Cons_nth_drop_Suc [of "6 - n" "boot_late d buf"] by simp
qed

lemma boot_inv_next:
  assumes "boot_inv p k0 d buf (fs, k)" and "fs \<noteq> []"
  shows "\<exists>n<7. at_stage p d buf k0 (Suc n) k \<and> fs = boot_late d buf ! (6 - n) # drop (7 - n) (boot_late d buf)"
proof -
  obtain n where n: "n \<le> 7" "fs = drop (7 - n) (boot_late d buf)" "at_stage p d buf k0 n k"
    using assms(1) by (auto simp: boot_inv_def)
  with assms(2) obtain i where i: "n = Suc i" "i < 7" by (cases n) auto
  with n late_drop [OF i(2)] show ?thesis by blast
qed

text \<open>The stage depends on the ports only through the state of the controllers, and not on the time.\<close>

lemma at_stage_ports:
  assumes "at_stage p d buf k0 n k" and "pics_after p tr = pics_after p (k_ports k)"
  shows "at_stage p d buf k0 n (k\<lparr>k_ticks := t, k_ports := tr\<rparr>)"
proof -
  have "booting p k0 M T D (k\<lparr>k_ticks := t, k_ports := tr\<rparr>) = booting p k0 M T D k" for M T D
    using assms(2) by (simp add: booting_def stays_def lines_open_def)
  then show ?thesis using assms(1) by (simp add: at_stage_def)
qed

lemma at_stage_tick:
  assumes "at_stage p d buf k0 n k"
  shows "at_stage p d buf k0 n (timer_tick k)"
proof -
  have "irq_step junk k Tick (timer_tick k)" for junk by (rule step_tick) (simp add: isr_handler_def)
  with assms tick_ok [OF _ this] show ?thesis by (fastforce simp: at_stage_def split: if_splits)
qed

text \<open>Until the last call, no keyboard interrupt gets in.\<close>

lemma only_ticks:
  assumes "at_stage p d buf k0 (Suc n) k" and "\<not> irq_masked (pics_after p (k_ports k)) (irq_line e)"
  shows "e = Tick"
proof -
  have "lines_open p (opened (Suc n)) (k_ports k)" using assms(1) by (auto simp: at_stage_def booting_def split: if_splits)
  moreover have "1 \<notin> opened (Suc n)" by (simp add: opened_def)
  ultimately show ?thesis using assms(2) by (cases e) (auto simp: lines_open_def irq_line_def)
qed

lemma boot_step_inv:
  assumes "boot_step junk p (fs, k) (fs', k')" and "boot_inv p k0 d buf (fs, k)"
    and "blank_tty (tty_of (k_screen k0))" and "boot_device_ok p d buf"
  shows "boot_inv p k0 d buf (fs', k')"
proof -
  have "fs \<noteq> []" using assms(1) by (auto elim: boot_stepE)
  then obtain n where n: "n < 7" "at_stage p d buf k0 (Suc n) k"
    "fs = boot_late d buf ! (6 - n) # drop (7 - n) (boot_late d buf)"
    using boot_inv_next [OF assms(2)] by blast
  consider (call) "(boot_late d buf ! (6 - n)) k = Inr k'" "fs' = drop (7 - n) (boot_late d buf)"
    | (irq) e where "fs' = fs" "irq_step junk k e k'" "\<not> irq_masked (pics_after p (k_ports k)) (irq_line e)"
    using assms(1) n(3) by (auto elim: boot_stepE)
  then show ?thesis
  proof cases
    case call
    then have "at_stage p d buf k0 n k'" using call_ok [OF n(2,1) assms(3,4)] by simp
    with call n(1) show ?thesis by (auto simp: boot_inv_def intro!: exI [of _ n])
  next
    case irq
    then have "e = Tick" using only_ticks [OF n(2)] by blast
    with irq(2) have "k' = timer_tick k" by (auto elim: irq_tickE simp: isr_handler_def)
    then have "at_stage p d buf k0 (Suc n) k'" using at_stage_tick [OF n(2)] by simp
    with irq(1) n(1,3) late_drop [OF n(1), of d buf] show ?thesis
      unfolding boot_inv_def by (intro case_prodI exI [of _ "Suc n"]) simp
  qed
qed

lemma boot_steps_inv:
  assumes "(boot_step junk p)\<^sup>*\<^sup>* (boot_late d buf, k0) c" and "at_stage p d buf k0 7 k0"
    and "blank_tty (tty_of (k_screen k0))" and "boot_device_ok p d buf"
  shows "boot_inv p k0 d buf c"
  using assms(1)
proof (induction rule: rtranclp_induct)
  case base
  then show ?case using assms(2) by (auto simp: boot_inv_def)
next
  case (step c c')
  then show ?case using boot_step_inv [OF _ _ assms(3,4)] by (cases c; cases c') blast
qed

text \<open>What boot establishes.\<close>

definition booted :: "pics \<Rightarrow> device \<Rightarrow> u16 list \<Rightarrow> (nat \<Rightarrow> u64) \<Rightarrow> bool list \<Rightarrow> tty \<Rightarrow> kernel \<Rightarrow> bool" where
  "booted p d buf stub pm t0 k \<longleftrightarrow> kernel_ok k \<and> k_sti k \<and> lines_open p {0, 1} (k_ports k) \<and> gates_ok stub (k_idt k)
    \<and> mapped_ok (k_screen k) (k_tables k) \<and> heap_ready pm (k_heap k) (k_pages k)
    \<and> s_input (session_of k) = [] \<and> \<not> s_shift (session_of k) \<and> stopped (k_kbd k) = 0
    \<and> pages_left pm (k_pages k)
    \<and> (\<exists>(T, D) \<in> disk_outcomes d buf t0. tty_of (k_screen k) = greeting 0 T \<and> D (k_disk k))"

lemma early_blank: "early_state p stub pm tag k0 \<Longrightarrow> blank_tty (tty_of (k_screen k0))"
  unfolding early_state_def by blast

lemma early_stage: "early_state p stub pm tag k0 \<Longrightarrow> at_stage p d buf k0 7 k0"
  by (simp add: early_state_def at_stage_def booting_def stays_def opened_def)

lemma stage_booted:
  assumes "early_state p stub pm tag k0" and "at_stage p d buf k0 0 k"
  shows "booted p d buf stub pm (tty_of (k_screen k0)) k"
proof -
  have b: "kernel_ok k" "stays k0 k" "lines_open p {0, 1} (k_ports k)"
    "\<exists>(T, D) \<in> disk_outcomes d buf (tty_of (k_screen k0)). tty_of (k_screen k) = greeting 0 T \<and> D (k_disk k)"
    using assms(2) by (auto simp: at_stage_def booting_def opened_def)
  have "region (k_screen k) = region (k_screen k0)"
    using b(2) same_mode_shape(2) by (auto simp: stays_def evolves_def)
  with assms(1) b show ?thesis
    by (auto simp: booted_def early_state_def stays_def mapped_ok_def session_of_def kbd_boot_def kbd_input_def)
qed

lemma late_runs:
  assumes "at_stage p d buf k0 n k" and "n \<le> 7" and "blank_tty (tty_of (k_screen k0))" and "boot_device_ok p d buf"
  shows "ok_r (at_stage p d buf k0 0) (seq_r (drop (7 - n) (boot_late d buf)) k)"
  using assms(1,2)
proof (induction n arbitrary: k)
  case 0
  then show ?case by simp
next
  case (Suc n)
  note late_drop [of n d buf]
  moreover have "ok_r (at_stage p d buf k0 n) ((boot_late d buf ! (6 - n)) k)"
    using Suc.prems assms(3,4) by (intro call_ok) simp_all
  ultimately show ?case using Suc.IH Suc.prems(2) by (auto simp del: diff_Suc_Suc intro!: ok_r_bind)
qed


section \<open>The system boots\<close>

lemma kernel_main_returns:
  assumes "boot_info_ok m mbi pm tag" and "dirs_ok a b" and "boot_device_ok p d buf"
  shows "\<exists>k. kernel_main m mbi stub ia d buf (kernel_boot v h a b) = Some (Inr k) \<and> booted p d buf stub pm (first_tty tag) k"
proof -
  obtain k0 where k0: "boot_early m mbi stub ia (kernel_boot v h a b) = Some (Inr k0)" "early_state p stub pm tag k0"
    using boot_early_ok [OF assms(1,2)] by blast
  note blank = early_blank [OF k0(2)]
  have "ok_r (at_stage p d buf k0 0) (seq_r (boot_late d buf) k0)"
    using late_runs [OF early_stage [OF k0(2)] _ blank assms(3)] by simp
  then obtain k where "seq_r (boot_late d buf) k0 = Inr k" "at_stage p d buf k0 0 k" by (auto simp: ok_r_iff)
  with k0 stage_booted [OF k0(2)] show ?thesis by (auto simp: kernel_main_def early_state_def)
qed

text \<open>
  A first line, typed on the booted kernel: what is known of page counters and drive record is still known when
  the shell reports them.
\<close>

lemma first_line:
  assumes "boot_info_ok m mbi pm tag" and "dirs_ok a b" and "boot_device_ok p d buf" and "length junk = 16"
    and "types False codes cs" and "length cs \<le> 255" and "filter (\<lambda>e. e \<noteq> Tick) evs = map Key codes @ [Key 0x1C]"
  shows "\<exists>k. \<exists>(T, D) \<in> disk_outcomes d buf (first_tty tag).
    kernel_main m mbi stub ia d buf (kernel_boot v h a b) = Some (Inr k) \<and> D (k_disk k) \<and> pages_left pm (k_pages k)
    \<and> (\<exists>k'. irq_run junk k evs k')
    \<and> (\<forall>k'. irq_run junk k evs k' \<longrightarrow> kernel_ok k' \<and> s_input (session_of k') = []
        \<and> tty_of (k_screen k') = t_print (bytes ''> '')
            (t_script (shell_plan (k_pages k) (k_disk k) (take 16 (words cs))) (t_newline (t_print cs (greeting 0 T)))))"
proof -
  obtain k where k: "kernel_main m mbi stub ia d buf (kernel_boot v h a b) = Some (Inr k)" "booted p d buf stub pm (first_tty tag) k"
    using kernel_main_returns [OF assms(1-3)] by blast
  then have ok: "kernel_ok k" "stopped (k_kbd k) = 0" "s_input (session_of k) = []" "\<not> s_shift (session_of k)"
    and pages: "pages_left pm (k_pages k)" by (simp_all add: booted_def)
  obtain T D where T: "(T, D) \<in> disk_outcomes d buf (first_tty tag)" "tty_of (k_screen k) = greeting 0 T" "D (k_disk k)"
    using k(2) by (auto simp: booted_def)
  have "types (s_shift (session_of k)) codes cs" using assms(5) ok(4) by simp
  note typed = line_under_interrupts [OF ok(1,2) assms(4) ok(3) this assms(6,7)]
  have "input_words cs = take 16 (words cs)" by (rule types_words [OF assms(5,6)])
  then have "kernel_ok k' \<and> s_input (session_of k') = [] \<and> tty_of (k_screen k') = t_print (bytes ''> '')
      (t_script (shell_plan (k_pages k) (k_disk k) (take 16 (words cs))) (t_newline (t_print cs (greeting 0 T))))"
    if "irq_run junk k evs k'" for k'
    using typed that T(2) by (auto simp: session_of_def)
  with k(1) typed T(1,3) pages show ?thesis by blast
qed

text \<open>The port accesses of boot and the identification among them, which alone decides what is in the drive record.\<close>

lemma boot_early_ports: "boot_early m mbi stub ia k = Some (Inr k0) \<Longrightarrow> k_ports k0 = pic_init (k_ports k) \<and> k_disk k0 = k_disk k"
  by (cases "pmm_init m mbi (k_pages k)"; cases "the (pmm_init m mbi (k_pages k))")
    (auto simp: boot_early_def bind_r_eq_Inr Let_def bind_eq_Some_conv)

lemma con_call_ports: "con_call f k = Inr k' \<Longrightarrow> k_ports k' = k_ports k \<and> k_disk k' = k_disk k"
  by (auto simp: con_call_def bind_r_eq_Inr)

lemma port_call_runs: "port_call f k = Inr k' \<Longrightarrow> f (k_ports k) = Inr (k_ports k') \<and> k_disk k' = k_disk k"
  by (auto simp: port_call_def bind_r_eq_Inr)

text \<open>What an identification with the result \<open>r\<close> and the block \<open>ws\<close> makes of the drive record.\<close>

definition identified_as :: "s32 \<Rightarrow> u16 list \<Rightarrow> ata_drive \<Rightarrow> bool" where
  "identified_as r ws dr \<longleftrightarrow> (if r = 0
    then model dr = pad 41 (rtrim (model_bytes ws)) \<and> present dr = 1 \<and> unat (total_sectors dr) = sector_count ws
    else dr = drive_boot)"

lemma boot_ata_init_runs:
  assumes "boot_ata_init d buf k = Inr k'" and "k_disk k = drive_boot" and "length buf = 256"
  shows "\<exists>r ws tr'. ata_identify d buf (k_ports k) = Inr (r, ws, k_ports k') \<and> identified_as r ws (k_disk k')"
proof -
  have "length (model (k_disk k)) = 41" using assms(2) by (simp add: drive_boot_def)
  note init = ata_init_correct [OF assms(3) this, where d = d and tr = "k_ports k" and println = fb_println and con = "k_screen k"]
  then obtain r ws tr where run: "ata_identify d buf (k_ports k) = Inr (r, ws, tr)" by (auto split: sum.split_asm)
  show ?thesis
  proof (cases "r = 0")
    case True
    then obtain n where "unat n = sector_count ws" "ata_init_on fb_println d buf (k_disk k) (k_screen k) (k_ports k)
        = Inr ((k_disk k)\<lparr>model := pad 41 (rtrim (model_bytes ws)), present := 1, total_sectors := n\<rparr>, k_screen k, tr)"
      using init run by auto
    with assms(1) run True show ?thesis by (auto simp: boot_ata_init_def identified_as_def)
  next
    case False
    with init run have "ata_init_on fb_println d buf (k_disk k) (k_screen k) (k_ports k)
        = bind_r (fb_println (lit ''Drive identification failed'') (k_screen k)) (\<lambda>con. Inr (k_disk k, con, tr))" by simp
    with assms(1,2) run False show ?thesis by (auto simp: boot_ata_init_def identified_as_def bind_r_eq_Inr)
  qed
qed

lemma boot_identification:
  assumes "kernel_main m mbi stub ia d buf (kernel_boot v h a b) = Some (Inr k)" and "length buf = 256"
  obtains tr r ws tr' where "pit_init d (pic_init []) = Inr tr" and "ata_identify d buf tr = Inr (r, ws, tr')"
    and "keyboard_init d tr' = Inr (k_ports k)" and "identified_as r ws (k_disk k)"
proof -
  obtain k0 where k0: "boot_early m mbi stub ia (kernel_boot v h a b) = Some (Inr k0)" and run: "seq_r (boot_late d buf) k0 = Inr k"
    using assms(1) by (auto simp: kernel_main_def bind_r_eq_Inr)
  have start: "k_ports k0 = pic_init []" "k_disk k0 = drive_boot"
    using boot_early_ports [OF k0] by (simp_all add: kernel_boot_def)
  obtain k1 k2 k3 k4 k5 k6 where
    k: "port_call (pit_init d) k0 = Inr k1" "con_call (\<lambda>st. Inr (fb_clear FB_BLACK st)) k1 = Inr k2" "boot_ata_init d buf k2 = Inr k3"
      "con_call (fb_println (lit ''Welcome to JordanOS'')) k3 = Inr k4" "con_call (fb_println (lit ''Type a command or help'')) k4 = Inr k5"
      "con_call (fb_print (lit ''> '')) k5 = Inr k6" "port_call (keyboard_init d) k6 = Inr k"
    using run by (auto simp: boot_late_def bind_r_eq_Inr)
  note steps = port_call_runs [OF k(1)] con_call_ports [OF k(2)] con_call_ports [OF k(4)] con_call_ports [OF k(5)]
    con_call_ports [OF k(6)] port_call_runs [OF k(7)]
  then have "k_disk k2 = drive_boot" using start by simp
  from boot_ata_init_runs [OF k(3) this assms(2)] steps start show thesis by (auto intro: that)
qed

lemma plan_mem: "shell_plan pg dr [bytes ''mem''] = mem_plan (unat (pages_num pg)) (unat (free_pages pg))"
  and plan_disk: "shell_plan pg dr [bytes ''disk''] = disk_plan (cstr (model dr)) (unat (total_sectors dr))"
  by (simp_all add: shell_plan_def bytes_def)

lemma cstr_pad: "cstr (pad n bs) = cstr bs"
  by (induction bs arbitrary: n) (auto simp: cstr_def pad_def takeWhile_append takeWhile_replicate)

lemma disk_read_plan:
  assumes "disk_read d buf dr"
  shows "\<exists>tr ws tr'. ata_identify d buf tr = Inr (0, ws, tr')
    \<and> disk_plan (cstr (model dr)) (unat (total_sectors dr)) = disk_plan (cstr (rtrim (model_bytes ws))) (sector_count ws)"
  using assms unfolding disk_read_def by (metis cstr_pad)

lemma disk_absent_plan:
  assumes "disk_absent d buf dr"
  shows "disk_plan (cstr (model dr)) (unat (total_sectors dr)) = disk_plan [] 0"
  using assms by (simp add: disk_absent_def drive_boot_def cstr_def)

section \<open>A sample machine\<close>

text \<open>A boot information block: one reserved and three free pages, and the sample screen's mode.\<close>

definition boot_mbi :: memory where
  "boot_mbi = (\<lambda>_. 0)(8 := 6, 12 := 64, 16 := 24, 33 := 0x10, 40 := 2, 57 := 0x30, 64 := 1,
     72 := 8, 76 := 32, 83 := 0xFD, 89 := 0x10, 93 := 4, 97 := 3, 100 := 32)"

lemma boot_map_like:
  assumes "\<And>a. unat a < 72 \<Longrightarrow> m a = boot_mbi a" and "mb2_find_tag m 0 MB2_TAG_MMAP = Some 8"
  shows "mmap_at m 0 8 24 2" "page_map (regions m 8 24 0 2) = [False, True, True, True]"
proof -
  have "tag_entry_size m 8 = 24" "tag_size m 8 = 64"
    by (simp_all add: assms boot_mbi_def tag_entry_size_def tag_size_def ld32_def)
  then show "mmap_at m 0 8 24 2" by (simp add: mmap_at_def assms(2))
  have "page_map (regions m 8 24 0 2) = replicate 1 False @ replicate 3 True"
    by (simp add: regions_def page_map_def region_map_def upt_conv_Cons entry_at_def
        entry_length_def entry_type_def ld64_def ld32_def assms boot_mbi_def)
  then show "page_map (regions m 8 24 0 2) = [False, True, True, True]" by (simp add: numeral_3_eq_3)
qed

text \<open>The block is read within the first 4 KiB only.\<close>

lemma boot_mbi_like:
  assumes "\<And>a. unat a < 4096 \<Longrightarrow> m a = boot_mbi a"
  shows "boot_info_ok m 0 [False, True, True, True] sample_tag"
proof -
  have tags: "tags_at m (0 + 8) [(8, MB2_TAG_MMAP), (72, MB2_TAG_FB)]"
    by (simp add: assms boot_mbi_def tag_type_def tag_size_def mb2_next_tag_def ld32_def
        MB2_TAG_END_def MB2_TAG_FB_def MB2_TAG_MMAP_def)
  have find: "mb2_find_tag m 0 MB2_TAG_MMAP = Some 8" "mb2_find_tag m 0 MB2_TAG_FB = Some 72"
    using find_tag_tags [OF tags] by (simp_all add: MB2_TAG_END_def MB2_TAG_FB_def MB2_TAG_MMAP_def)
  have map: "mmap_at m 0 8 24 2" "page_map (regions m 8 24 0 2) = [False, True, True, True]"
    by (rule boot_map_like; (simp add: assms find)?)+
  then have "\<exists>t es n. mmap_at m 0 t es n \<and> [False, True, True, True] = page_map (regions m t es 0 n)"
    by (intro exI [where x = 8] exI [where x = 24] exI [where x = 2]) simp
  moreover have "read_fb_tag m 72 = sample_tag"
    by (simp add: read_fb_tag_def sample_tag_def assms boot_mbi_def ld64_def ld32_def)
  moreover have "mode_ok sample_tag" "fits (tag_addr sample_tag) (ucast (tag_height sample_tag) * ucast (tag_pitch sample_tag))"
    by (simp_all add: sample_tag_def mode_ok_def fits_def)
  ultimately show ?thesis
    using find(2) by (simp add: boot_info_ok_def) (simp add: sample_tag_def)
qed

lemma boot_mbi_memory_map: "mb2_find_tag boot_mbi 0 MB2_TAG_MMAP = Some 8"
proof -
  have "tags_at boot_mbi (0 + 8) [(8, MB2_TAG_MMAP), (72, MB2_TAG_FB)]"
    by (simp add: boot_mbi_def tag_type_def tag_size_def mb2_next_tag_def ld32_def
        MB2_TAG_END_def MB2_TAG_FB_def MB2_TAG_MMAP_def)
  from find_tag_tags [OF this] show ?thesis by (simp add: MB2_TAG_END_def MB2_TAG_FB_def MB2_TAG_MMAP_def)
qed

lemma boot_mbi_ok: "boot_info_ok boot_mbi 0 [False, True, True, True] sample_tag"
  by (rule boot_mbi_like) simp

definition blank_heap :: "u64 \<Rightarrow> block_header" where
  "blank_heap = (\<lambda>_. \<lparr>b_size = 0, b_in_use = 0, b_next = 0, b_prev = 0\<rparr>)"

lemma sample_dirs_ok: "dirs_ok 0x103000 0x104000"
  by (simp add: dirs_ok_def mask_eq_exp_minus_1)

lemma zero_words: "insw sample_device port n tr = (replicate n 0, tr @ replicate n (In16 port 0))"
  by (induction n arbitrary: tr) (simp_all add: sample_device_def Let_def replicate_append_same)

lemma sample_device_ok: "boot_device_ok pics_set sample_device (replicate 256 0)"
proof -
  have "ws = replicate 256 0" if "ata_identify sample_device (replicate 256 0) tr = Inr (0, ws, tr')" for tr ws tr'
    using that
    by (auto simp: ata_identify_def Let_def port_defs zero_words store_block_def overwrite_all split: if_splits prod.splits)
  moreover have "sector_count (replicate 256 0) < 2 ^ 31" by (simp add: sector_count_def)
  ultimately have "sector_count ws < 2 ^ 31"
    if "ata_identify sample_device (replicate 256 0) tr = Inr (0, ws, tr')" for tr ws tr'
    using that by blast
  then show ?thesis using sample_device_readback unfolding boot_device_ok_def by auto
qed

end
