(* ===== verification/Weave.thy ===== *)
theory Weave
  imports Ports
begin

text \<open>
  Port accesses with timer interrupts between them. Each interrupt puts the two writes of its \<open>pic_eoi\<close> on the
  bus. The driver still sees a device that answers to its own accesses: the device behind a bus on which
  those writes are woven in. So what is proved of a driver for every device holds with interrupts in its midst.
\<close>

section \<open>The bus\<close>

text \<open>\<open>r i\<close> interrupts are served just before the \<open>i\<close>-th access; what each leaves on the bus.\<close>

definition interrupted :: "nat \<Rightarrow> trace \<Rightarrow> trace" where
  "interrupted n = pic_eoi 0 ^^ n"

fun weave :: "(nat \<Rightarrow> nat) \<Rightarrow> trace \<Rightarrow> trace" where
  "weave r [] = []"
| "weave r (e # es) = interrupted (r 0) [] @ e # weave (\<lambda>i. r (Suc i)) es"

text \<open>The bus behind a program whose accesses from the \<open>n\<close>-th on are interrupted.\<close>

definition bus :: "(nat \<Rightarrow> nat) \<Rightarrow> nat \<Rightarrow> trace \<Rightarrow> trace" where
  "bus r n tr = take n tr @ weave r (drop n tr)"

definition irqs_in :: "(nat \<Rightarrow> nat) \<Rightarrow> nat \<Rightarrow> nat" where
  "irqs_in r m = sum_list (map r [0..<m])"

text \<open>The device as the program sees it: it answers to the bus, after the interrupts before the access.\<close>

definition woven :: "(nat \<Rightarrow> nat) \<Rightarrow> nat \<Rightarrow> device \<Rightarrow> device" where
  "woven r n d =
    \<lparr>dev_in8 = (\<lambda>tr port. dev_in8 d (interrupted (r (length tr - n)) (bus r n tr)) port),
     dev_in16 = (\<lambda>tr port. dev_in16 d (interrupted (r (length tr - n)) (bus r n tr)) port)\<rparr>"

section \<open>Each access meets the bus it should\<close>

lemma pic_eoi_0: "pic_eoi 0 tr = tr @ [Out8 0x20 0x20, Out8 0x80 0]"
  by (simp add: pic_eoi_def port_defs Let_def)

lemma interrupted_append: "interrupted n tr = tr @ interrupted n []"
proof (induction n)
  case (Suc n)
  then show ?case by (simp add: interrupted_def pic_eoi_0) 
qed (simp add: interrupted_def)

lemma weave_snoc: "weave r (es @ [e]) = weave r es @ interrupted (r (length es)) [] @ [e]"
  by (induction es arbitrary: r) simp_all

lemma bus_start [simp]: "bus r (length tr) tr = tr"
  by (simp add: bus_def)

lemma bus_snoc:
  assumes "n \<le> length tr"
  shows "bus r n (tr @ [e]) = interrupted (r (length tr - n)) (bus r n tr) @ [e]"
  using assms interrupted_append [of _ "bus r n tr"] by (simp add: bus_def weave_snoc)

lemma woven_inb:
  assumes "n \<le> length tr" and "inb (woven r n d) port tr = (v, tr')"
  shows "inb d port (interrupted (r (length tr - n)) (bus r n tr)) = (v, bus r n tr')"
  using assms by (auto simp: inb_def woven_def Let_def bus_snoc)

lemma woven_outb:
  "n \<le> length tr \<Longrightarrow> bus r n (outb port v tr) = outb port v (interrupted (r (length tr - n)) (bus r n tr))"
  by (simp add: outb_def bus_snoc)

text \<open>A string input can be interrupted between two words.\<close>

lemma woven_in16:
  assumes "n \<le> length tr" and "w = dev_in16 (woven r n d) tr port"
  shows "w = dev_in16 d (interrupted (r (length tr - n)) (bus r n tr)) port"
    and "bus r n (tr @ [In16 port w]) = interrupted (r (length tr - n)) (bus r n tr) @ [In16 port w]"
  using assms by (simp_all add: woven_def bus_snoc)

lemma length_interrupted: "length (interrupted n []) = 2 * n"
proof (induction n)
  case (Suc n)
  then show ?case by (simp add: interrupted_def pic_eoi_0)
qed (simp add: interrupted_def)

lemma length_weave: "length (weave r es) = length es + 2 * irqs_in r (length es)"
proof (induction es rule: rev_induct)
  case (snoc e es)
  then show ?case by (simp add: weave_snoc irqs_in_def length_interrupted)
qed (simp add: irqs_in_def)

section \<open>The controllers\<close>

lemma pics_interrupted: "fold pics_event (interrupted n []) p = p"
proof -
  have "list_all pic_free (interrupted n [])"
    by (induction n) (simp_all add: interrupted_def pic_eoi_0)
  then show ?thesis by (rule pics_after_free)
qed

lemma pics_weave: "fold pics_event (weave r es) p = fold pics_event es p"
  by (induction es arbitrary: r p) (simp_all add: pics_interrupted)

lemma pics_bus [simp]: "pics_after p (bus r n tr) = pics_after p tr"
proof -
  have "pics_after p (bus r n tr) = fold pics_event (drop n tr) (fold pics_event (take n tr) p)"
    by (simp add: bus_def pics_after_def pics_weave)
  also have "\<dots> = fold pics_event (take n tr @ drop n tr) p" by (simp only: fold_append comp_apply)
  finally show ?thesis by (simp add: pics_after_def)
qed

lemma pics_interrupted_bus [simp]: "pics_after p (interrupted m (bus r n tr)) = pics_after p tr"
  by (subst interrupted_append) (simp add: pics_interrupted)

text \<open>A controller that reads back its masks does so with interrupts between the accesses.\<close>

lemma woven_readback: "mask_readback d p \<Longrightarrow> mask_readback (woven r n d) p"
  by (simp add: mask_readback_def woven_def)

section \<open>What a device can hear\<close>

text \<open>
  The accesses other than the two writes of an end of interrupt. The controllers keep their masks and vectors through
  an end of interrupt, and neither a disk nor a timer is behind those ports.
\<close>

definition audible :: "io_event \<Rightarrow> bool" where
  "audible e \<longleftrightarrow> e \<noteq> Out8 0x20 0x20 \<and> e \<noteq> Out8 0x80 0"

definition sounds_like :: "trace \<Rightarrow> trace \<Rightarrow> bool" where
  "sounds_like tr tr' \<longleftrightarrow> filter audible tr = filter audible tr'"

text \<open>Devices that give the same answers to programs that, but for ends of interrupt, did the same.\<close>

definition answers_like :: "device \<Rightarrow> device \<Rightarrow> bool" where
  "answers_like e d \<longleftrightarrow> (\<forall>tr tr'. sounds_like tr tr' \<longrightarrow> dev_in8 e tr = dev_in8 d tr' \<and> dev_in16 e tr = dev_in16 d tr')"

definition deaf :: "device \<Rightarrow> bool" where
  "deaf d \<longleftrightarrow> answers_like d d"

lemma audible_interrupted: "filter audible (interrupted n []) = []"
  by (induction n) (simp_all add: interrupted_def pic_eoi_0 audible_def)

lemma audible_weave: "filter audible (weave r es) = filter audible es"
  by (induction es arbitrary: r) (simp_all add: audible_interrupted)

lemma bus_sounds: "sounds_like (bus r n tr) tr"
proof -
  have "filter audible (bus r n tr) = filter audible (take n tr @ drop n tr)"
    unfolding bus_def filter_append audible_weave ..
  then show ?thesis by (simp add: sounds_like_def)
qed

lemma woven_answers:
  assumes "deaf d"
  shows "answers_like (woven r n d) d"
proof -
  have "sounds_like (interrupted m (bus r n tr)) tr'" if "sounds_like tr tr'" for m tr tr'
    using that bus_sounds [of r n tr] by (subst interrupted_append) (simp add: sounds_like_def audible_interrupted)
  then show ?thesis using assms by (simp add: answers_like_def deaf_def woven_def)
qed

lemma sounds_pics:
  assumes "sounds_like tr tr'"
  shows "pics_after p tr = pics_after p tr'"
proof -
  have "fold pics_event (filter audible tr) p = fold pics_event tr p" for tr p
  proof (induction tr arbitrary: p)
    case (Cons e tr)
    have "pics_event e p = p" if "\<not> audible e"
      using pics_after_free [of "[e]" p] that by (auto simp: audible_def)
    with Cons show ?case by simp
  qed simp
  then show ?thesis using assms by (metis pics_after_def sounds_like_def)
qed

lemma sample_device_deaf: "deaf sample_device"
  using sounds_pics by (fastforce simp: deaf_def answers_like_def sample_device_def)

end
