(* ===== verification/Deaf.thy ===== *)
theory Deaf
  imports Relate Boot Weave
begin

text \<open>
  The drivers do not notice ends of interrupt if the devices do not: a relation between traces that every access
  keeps, and a relation between devices that answer related traces alike, are respected by every driver. Each driver is
  related to itself by a transfer rule. The instance: traces that differ in ends of interrupt only. It makes the calls of
  \<open>kernel_main\<close>, run against the woven device, do what they do against the device itself.
\<close>

section \<open>The contract of port accesses\<close>

locale port_relation =
  fixes T :: "trace \<Rightarrow> trace \<Rightarrow> bool" and D :: "device \<Rightarrow> device \<Rightarrow> bool"
  assumes access_rel: "T tr tr' \<Longrightarrow> T (tr @ [e]) (tr' @ [e])"
    and answer_rel [transfer_rule]: "rel_fun D (rel_fun T (=)) dev_in8 dev_in8" "rel_fun D (rel_fun T (=)) dev_in16 dev_in16"
begin

lemma append_rel [transfer_rule]: "rel_fun T (rel_fun (=) T) (@) (@)"
proof -
  have "T (tr @ es) (tr' @ es)" if "T tr tr'" for tr tr' es
  proof (induction es rule: rev_induct)
    case (snoc e es)
    then show ?case using access_rel [of "tr @ es" "tr' @ es" e] by simp
  qed (simp add: that)
  then show ?thesis by (simp add: rel_fun_def)
qed

lemma accesses_rel [transfer_rule]:
  "rel_fun (=) (rel_fun (=) (rel_fun T T)) outb outb"
  "rel_fun D (rel_fun (=) (rel_fun T (rel_prod (=) T))) inb inb"
  "rel_fun T T io_wait io_wait"
proof -
  show [transfer_rule]: "rel_fun (=) (rel_fun (=) (rel_fun T T)) outb outb"
    unfolding outb_def [abs_def] by transfer_prover
  show "rel_fun D (rel_fun (=) (rel_fun T (rel_prod (=) T))) inb inb"
    unfolding inb_def [abs_def] by transfer_prover
  show "rel_fun T T io_wait io_wait"
    unfolding io_wait_def [abs_def] by transfer_prover
qed

lemma words_rel [transfer_rule]: "rel_fun D (rel_fun (=) (rel_fun (=) (rel_fun T (rel_prod (=) T)))) insw insw"
proof -
  have "rel_prod (=) T (insw e port n tr) (insw d port n tr')" if "D e d" "T tr tr'" for e d port n tr tr'
    using that(2)
  proof (induction n arbitrary: tr tr')
    case (Suc n)
    have same: "dev_in16 e tr = dev_in16 d tr'" using answer_rel(2) that(1) Suc.prems by (auto simp: rel_fun_def)
    from Suc.IH [OF access_rel [OF Suc.prems, of "In16 port (dev_in16 d tr' port)"]] show ?case
      by (auto simp: same Let_def rel_prod_sel split: prod.split)
  qed simp
  then show ?thesis by (simp add: rel_fun_def)
qed

lemma poll_rel [transfer_rule]:
  "rel_fun D (rel_fun (=) (rel_fun (=) (rel_fun T (rel_prod (=) T)))) poll_status poll_status"
proof -
  have "rel_prod (=) T (poll_status e cond n tr) (poll_status d cond n tr')" if "D e d" "T tr tr'" for e d cond n tr tr'
    using that(2)
  proof (induction n arbitrary: tr tr')
    case (Suc n)
    have same: "dev_in8 e tr = dev_in8 d tr'" using answer_rel(1) that(1) Suc.prems by (auto simp: rel_fun_def)
    from Suc.IH [OF access_rel [OF Suc.prems]] access_rel [OF Suc.prems] show ?case by (simp add: same inb_def Let_def)
  qed simp
  then show ?thesis by (simp add: rel_fun_def)
qed

text \<open>The drivers of boot.\<close>

lemma unmask_rel [transfer_rule]: "rel_fun D (rel_fun (=) (rel_fun T (rel_sum (=) T))) pic_unmask pic_unmask"
  unfolding pic_unmask_def [abs_def] Let_def by transfer_prover

lemma drivers_rel [transfer_rule]:
  "rel_fun D (rel_fun T (rel_sum (=) T)) pit_init pit_init"
  "rel_fun D (rel_fun T (rel_sum (=) T)) keyboard_init keyboard_init"
  "rel_fun D (rel_fun (=) (rel_fun T (rel_sum (=) (rel_prod (=) (rel_prod (=) T))))) ata_identify ata_identify"
  unfolding pit_init_def [abs_def] keyboard_init_def [abs_def] ata_identify_def [abs_def] Let_def by transfer_prover+

lemma ata_init_rel:
  "rel_fun (=) (rel_fun D (rel_fun (=) (rel_fun (=) (rel_fun (=) (rel_fun T
    (rel_sum (=) (rel_prod (=) (rel_prod (=) T))))))))  ata_init_on ata_init_on"
  unfolding ata_init_on_def [abs_def] by transfer_prover

end

section \<open>Ends of interrupt\<close>

interpretation eoi: port_relation sounds_like answers_like
  by unfold_locales (auto simp: rel_fun_def answers_like_def sounds_like_def)

text \<open>\<open>k\<close> differs from \<open>l\<close> in the time and in ends of interrupt on the ports.\<close>

definition later :: "kernel \<Rightarrow> kernel \<Rightarrow> bool" where
  "later k l \<longleftrightarrow> (\<exists>t tr. k = l\<lparr>k_ticks := t, k_ports := tr\<rparr> \<and> sounds_like tr (k_ports l))"

lemma laterI: "sounds_like tr (k_ports l) \<Longrightarrow> later (l\<lparr>k_ticks := t, k_ports := tr\<rparr>) l"
  by (auto simp: later_def)

lemma con_call_later:
  assumes "later k l"
  shows "rel_sum (=) later (con_call f k) (con_call f l)"
proof -
  obtain t tr where k: "k = l\<lparr>k_ticks := t, k_ports := tr\<rparr>" "sounds_like tr (k_ports l)" using assms by (auto simp: later_def)
  have "later (k\<lparr>k_screen := st\<rparr>) (l\<lparr>k_screen := st\<rparr>)" for st
    using laterI [of tr "l\<lparr>k_screen := st\<rparr>" t] k by (cases l) simp
  then show ?thesis using k(1) by (cases "f (k_screen l)") (simp_all add: con_call_def)
qed

lemma port_call_later:
  assumes "later k l" and "rel_sum (=) sounds_like (f (k_ports k)) (g (k_ports l))"
  shows "rel_sum (=) later (port_call f k) (port_call g l)"
proof -
  obtain t tr where k: "k = l\<lparr>k_ticks := t, k_ports := tr\<rparr>" using assms(1) by (auto simp: later_def)
  have "later (k\<lparr>k_ports := tr1\<rparr>) (l\<lparr>k_ports := tr2\<rparr>)" if "sounds_like tr1 tr2" for tr1 tr2
    using laterI [of tr1 "l\<lparr>k_ports := tr2\<rparr>" t] that k by (cases l) simp
  with assms(2) show ?thesis by (cases rule: rel_sum.cases) (simp_all add: port_call_def)
qed

lemma ata_call_later:
  assumes "later k l" and "answers_like e d"
  shows "rel_sum (=) later (boot_ata_init e buf k) (boot_ata_init d buf l)"
proof -
  obtain t tr where k: "k = l\<lparr>k_ticks := t, k_ports := tr\<rparr>" "sounds_like tr (k_ports l)" using assms(1) by (auto simp: later_def)
  then have same: "k_disk k = k_disk l" "k_screen k = k_screen l" "k_ports k = tr" by simp_all
  have "rel_sum (=) (rel_prod (=) (rel_prod (=) sounds_like))
      (ata_init_on fb_println e buf (k_disk l) (k_screen l) tr) (ata_init_on fb_println d buf (k_disk l) (k_screen l) (k_ports l))"
    by (rule eoi.ata_init_rel [unfolded rel_fun_def, rule_format]) (simp_all add: assms(2) k(2))
  moreover have "later (k\<lparr>k_disk := dr, k_screen := st, k_ports := tr1\<rparr>) (l\<lparr>k_disk := dr, k_screen := st, k_ports := tr2\<rparr>)"
    if "sounds_like tr1 tr2" for dr st tr1 tr2
    using laterI [of tr1 "l\<lparr>k_disk := dr, k_screen := st, k_ports := tr2\<rparr>" t] that k by (cases l) simp
  ultimately show ?thesis unfolding boot_ata_init_def same by (cases rule: rel_sum.cases) auto
qed

text \<open>Every call behind \<open>sti\<close>, from a later state and on a device that answers alike.\<close>

lemma late_later:
  assumes "later k l" and "answers_like e d" and "i < 7"
  shows "rel_sum (=) later ((boot_late e buf ! i) k) ((boot_late d buf ! i) l)"
proof -
  have ports: "sounds_like (k_ports k) (k_ports l)" using assms(1) by (auto simp: later_def)
  have "rel_sum (=) sounds_like (pit_init e (k_ports k)) (pit_init d (k_ports l))"
    "rel_sum (=) sounds_like (keyboard_init e (k_ports k)) (keyboard_init d (k_ports l))"
    using eoi.drivers_rel assms(2) ports by (simp_all add: rel_fun_def)
  note calls = port_call_later [OF assms(1), where f = "pit_init e" and g = "pit_init d", OF this(1)]
    port_call_later [OF assms(1), where f = "keyboard_init e" and g = "keyboard_init d", OF this(2)]
    con_call_later [OF assms(1)] ata_call_later [OF assms(1,2)]
  consider "i = 0" | "i = 1" | "i = 2" | "i = 3" | "i = 4" | "i = 5" | "i = 6" using assms(3) by linarith
  then show ?thesis using calls by cases (simp_all add: boot_late_def)
qed

end
