(* ===== verification/Preempt_Boot.thy ===== *)
theory Preempt_Boot
  imports Oblivious Deaf
begin

text \<open>
  The second half of \<open>kernel_main\<close> with timer interrupts inside its calls: each call runs under a schedule of interrupts
  between the statements of the console (the pixels of \<open>fb_clear\<close>) and between the port accesses of the drivers.
  Up to the picture, the system is that of \<open>Boot\<close>.
\<close>

section \<open>The calls behind sti under a schedule (kernel.c)\<close>

text \<open>
  A schedule: the values of the tick counter at each point of a call into the console, and how many interrupts there
  are in the whole call, for which the handler has stepped the counter and sent an end of interrupt (nothing ties
  the two together: the true schedules are among them); and the number of interrupts before each port access.
\<close>

record schedule =
  at_points :: "nat \<Rightarrow> u32 list"
  in_call :: nat
  at_ports :: "nat \<Rightarrow> nat"

definition served :: "nat \<Rightarrow> kernel \<Rightarrow> kernel" where
  "served n k = for_n n (\<lambda>_ k. k\<lparr>k_ticks := inc_ticks (k_ticks k), k_ports := pic_eoi 0 (k_ports k)\<rparr>) k"

definition fb_clear_irq :: "(nat \<Rightarrow> u32 list) \<Rightarrow> u32 \<Rightarrow> fb \<Rightarrow> fb" where
  "fb_clear_irq q color st =
    for_n (unat (fb_height st)) (\<lambda>y st.
      let row = fb_addr st + ucast (of_nat y * fb_pitch st)
      in for_n (unat (fb_width st)) (\<lambda>x st.
           let st = serve (q (y * unat (fb_width st) + x)) st
           in st\<lparr>vram := put32 (row + of_nat x * 4) color (vram st)\<rparr>) st) st"

definition con_call_irq :: "((nat \<Rightarrow> u32 list) \<Rightarrow> fb \<Rightarrow> fb result) \<Rightarrow> schedule \<Rightarrow> kernel \<Rightarrow> kernel result" where
  "con_call_irq f s k = bind_r (con_call (f (at_points s)) k) (\<lambda>k. Inr (served (in_call s) k))"

text \<open>
  The port accesses of a driver: it runs against the woven device, and what is on the ports in the end is the bus. As it
  does not touch the screen, the timer's work on counter and cursor can be done at once.
\<close>

definition driver_irq :: "(nat \<Rightarrow> nat) \<Rightarrow> trace \<Rightarrow> kernel \<Rightarrow> kernel" where
  "driver_irq r tr k =
    ((timer_tick ^^ irqs_in r (length tr - length (k_ports k))) k)\<lparr>k_ports := bus r (length (k_ports k)) tr\<rparr>"

definition port_call_irq :: "(device \<Rightarrow> trace \<Rightarrow> trace result) \<Rightarrow> device \<Rightarrow> schedule \<Rightarrow> kernel \<Rightarrow> kernel result" where
  "port_call_irq f d s k =
    bind_r (f (woven (at_ports s) (length (k_ports k)) d) (k_ports k)) (\<lambda>tr. Inr (driver_irq (at_ports s) tr k))"

text \<open>\<open>ata_init\<close>: first all port accesses, then, if the disk failed, the message.\<close>

definition boot_ata_init_irq :: "device \<Rightarrow> u16 list \<Rightarrow> schedule \<Rightarrow> kernel \<Rightarrow> kernel result" where
  "boot_ata_init_irq d buf s k =
    (let e = woven (at_ports s) (length (k_ports k)) d in
     bind_r (ata_identify e buf (k_ports k)) (\<lambda>(r, ws, tr).
     let k' = driver_irq (at_ports s) tr k in
     bind_r (ata_init_on (fb_println_irq (at_points s)) e buf (k_disk k) (k_screen k') (k_ports k)) (\<lambda>(dr, st, tr).
       Inr (served (in_call s) (k'\<lparr>k_disk := dr, k_screen := st\<rparr>)))))"

definition boot_late_irq :: "device \<Rightarrow> u16 list \<Rightarrow> (schedule \<Rightarrow> kernel \<Rightarrow> kernel result) list" where
  "boot_late_irq d buf =
    [port_call_irq pit_init d,
     con_call_irq (\<lambda>q st. Inr (fb_clear_irq q FB_BLACK st)),
     boot_ata_init_irq d buf,
     con_call_irq (\<lambda>q. fb_println_irq q (lit ''Welcome to JordanOS'')),
     con_call_irq (\<lambda>q. fb_println_irq q (lit ''Type a command or help'')),
     con_call_irq (\<lambda>q. fb_print_irq q (lit ''> '')),
     port_call_irq keyboard_init d]"

inductive preempt_step ::
  "u8 list \<Rightarrow> pics \<Rightarrow> (schedule \<Rightarrow> kernel \<Rightarrow> kernel result) list \<times> kernel
    \<Rightarrow> (schedule \<Rightarrow> kernel \<Rightarrow> kernel result) list \<times> kernel \<Rightarrow> bool"
  for junk p where
  preempt_call: "f s k = Inr k' \<Longrightarrow> preempt_step junk p (f # fs, k) (fs, k')"
| preempt_irq: "fs \<noteq> [] \<Longrightarrow> irq_step junk k e k' \<Longrightarrow> \<not> irq_masked (pics_after p (k_ports k)) (irq_line e)
    \<Longrightarrow> preempt_step junk p (fs, k) (fs, k')"

inductive_cases preempt_stepE: "preempt_step junk p (fs, k) (fs', k')"

section \<open>Up to the picture\<close>

text \<open>
  \<open>k\<close> differs from \<open>l\<close> in the pixels, in the time, and in ends of interrupt on the ports, which leave masks and vectors of the
  interrupt controllers as they were.
\<close>

definition behind :: "kernel \<Rightarrow> kernel \<Rightarrow> bool" where
  "behind k l \<longleftrightarrow> (\<exists>t tr. twin_kernel k (l\<lparr>k_ticks := t, k_ports := tr\<rparr>) \<and> sounds_like tr (k_ports l))"

lemma twin_behind: "twin_kernel k l \<Longrightarrow> behind k l"
  unfolding behind_def by (intro exI [of _ "k_ticks l"] exI [of _ "k_ports l"]) (simp add: sounds_like_def)

lemma later_behind: "later k l \<Longrightarrow> behind k l"
  unfolding behind_def later_def using twin_kernel_refl by blast

lemma behind_trans:
  assumes "behind k l" and "behind l m"
  shows "behind k m"
proof -
  obtain t tr where k: "twin_kernel k (l\<lparr>k_ticks := t, k_ports := tr\<rparr>)" "sounds_like tr (k_ports l)"
    using assms(1) by (auto simp: behind_def)
  obtain t' tr' where l: "twin_kernel l (m\<lparr>k_ticks := t', k_ports := tr'\<rparr>)" "sounds_like tr' (k_ports m)"
    using assms(2) by (auto simp: behind_def)
  have "k_ports l = tr'" using over_fields(1) [of twin] l(1) by (fastforce simp: rel_fun_def)
  moreover have "twin_kernel (l\<lparr>k_ticks := t, k_ports := tr\<rparr>) (m\<lparr>k_ticks := t, k_ports := tr\<rparr>)"
    using over_set(2) [OF over_set(4) [OF l(1), of t], of tr] by simp
  ultimately show ?thesis using twin_kernel_trans [OF k(1)] k(2) l(2) unfolding behind_def sounds_like_def by metis
qed

lemma eoi_behind: "behind (k\<lparr>k_ticks := t, k_ports := pic_eoi 0 (k_ports k)\<rparr>) k"
  unfolding behind_def
  by (intro exI [of _ t] exI [of _ "pic_eoi 0 (k_ports k)"])
    (simp add: pic_eoi_0 sounds_like_def audible_def)

lemma served_behind: "behind k l \<Longrightarrow> behind (served n k) l"
  by (induction n) (auto simp: served_def intro: behind_trans [OF eoi_behind])

lemma tick_twin: "twin_kernel (timer_tick k) (k\<lparr>k_ticks := inc_ticks (k_ticks k), k_ports := pic_eoi 0 (k_ports k)\<rparr>)"
  using fb_update_cursor_twin by (simp add: timer_tick_def over_def Let_def twin_sym)

lemma ticks_behind: "behind ((timer_tick ^^ n) k) k"
  by (induction n) (auto intro: twin_behind behind_trans [OF twin_behind [OF tick_twin]] behind_trans [OF eoi_behind])

lemma driver_behind:
  assumes "twin_kernel k l"
  shows "behind (driver_irq r tr k) (l\<lparr>k_ports := tr\<rparr>)"
proof -
  let ?k = "(timer_tick ^^ irqs_in r (length tr - length (k_ports k))) k"
  have "behind ?k l" by (rule behind_trans [OF ticks_behind twin_behind [OF assms]])
  then obtain t tr' where t: "twin_kernel ?k (l\<lparr>k_ticks := t, k_ports := tr'\<rparr>)" unfolding behind_def by blast
  show ?thesis
    using over_set(2) [OF t, of "bus r (length (k_ports k)) tr"] unfolding behind_def driver_irq_def
    by (intro exI [of _ t] exI [of _ "bus r (length (k_ports k)) tr"]) (simp add: bus_sounds)
qed

lemma clear_irq_twin:
  assumes "twin st st'"
  shows "twin (fb_clear_irq q color st) (fb_clear color st')"
proof -
  have row: "twin (for_n w (\<lambda>x st. let st = serve (q' x st) st in st\<lparr>vram := put32 (row + of_nat x * 4) color (vram st)\<rparr>) s) s0"
    if "twin s s0" for w q' row s s0
  proof (rule for_n_inv [where I = "\<lambda>_ s. twin s s0"])
    show "twin (let st = serve (q' i t) t in st\<lparr>vram := put32 (row + of_nat i * 4) color (vram st)\<rparr>) s0"
      if "twin t s0" for i t
      unfolding Let_def by (rule twin_trans [OF twin_vram(2) serve_any [OF that]])
  qed (fact that)
  have "twin (fb_clear_irq q color st) st"
    unfolding fb_clear_irq_def
    by (rule for_n_inv [where I = "\<lambda>_ s. twin s st"]) (simp_all add: Let_def row [unfolded Let_def])
  moreover have "twin (fb_clear color st') st'"
  proof -
    have row: "twin (for_n w (\<lambda>x st. st\<lparr>vram := put32 (row + of_nat x * 4) color (vram st)\<rparr>) s) st'" if "twin s st'" for w row s
      by (rule for_n_inv [where I = "\<lambda>_ s. twin s st'"]) (auto intro: that twin_trans [OF twin_vram(2)])
    show ?thesis
      unfolding fb_clear_def by (rule for_n_inv [where I = "\<lambda>_ s. twin s st'"]) (simp_all add: Let_def row)
  qed
  ultimately show ?thesis using assms by (blast intro: twin_trans twin_sym)
qed

lemma con_call_behind:
  assumes "\<And>st st'. twin st st' \<Longrightarrow> twin_r (f (at_points s) st) (g st')" and "twin_kernel k l"
  shows "rel_sum (=) behind (con_call_irq f s k) (con_call g l)"
proof -
  have "twin_r (f (at_points s) (k_screen k)) (g (k_screen l))" using assms by (simp add: over_def)
  then show ?thesis
    using served_behind [OF twin_behind [OF over_set(1) [OF assms(2)]]]
    by (cases rule: rel_sum.cases) (simp_all add: con_call_irq_def con_call_def)
qed

lemma port_call_behind:
  assumes "twin_kernel k l"
  shows "rel_sum (=) behind (port_call_irq f d s k) (port_call (f (woven (at_ports s) (length (k_ports k)) d)) l)"
proof -
  have "k_ports l = k_ports k" using assms by (auto elim: overE)
  with driver_behind [OF assms] show ?thesis
    by (cases "f (woven (at_ports s) (length (k_ports k)) d) (k_ports k)") (simp_all add: port_call_def port_call_irq_def)
qed

lemma ata_init_transfer:
  "rel_fun (rel_fun (=) (rel_fun A (rel_sum (=) A))) (rel_fun (=) (rel_fun (=) (rel_fun (=) (rel_fun A (rel_fun (=)
    (rel_sum (=) (rel_prod (=) (rel_prod A (=)))))))))  ata_init_on ata_init_on"
  unfolding ata_init_on_def [abs_def] by transfer_prover

lemma ata_init_ports:
  assumes "ata_init_on f d buf dr st tr = Inr (dr', st', tr')"
  shows "\<exists>r ws. ata_identify d buf tr = Inr (r, ws, tr')"
  using assms by (auto simp: ata_init_on_def bind_r_def split: sum.splits if_splits)

lemma ata_behind:
  assumes "twin_kernel k l"
  shows "rel_sum (=) behind (boot_ata_init_irq d buf s k) (boot_ata_init (woven (at_ports s) (length (k_ports k)) d) buf l)"
proof -
  let ?e = "woven (at_ports s) (length (k_ports k)) d"
  have same: "k_ports l = k_ports k" "k_disk l = k_disk k" using assms by (auto elim: overE)
  show ?thesis
  proof (cases "ata_identify ?e buf (k_ports k)")
    case (Inl e)
    then show ?thesis using same by (simp add: boot_ata_init_irq_def boot_ata_init_def ata_init_on_def Let_def)
  next
    case (Inr x)
    obtain r ws tr where x: "x = (r, ws, tr)" by (cases x)
    let ?k = "driver_irq (at_ports s) tr k"
    obtain t tr' where t: "twin_kernel ?k (l\<lparr>k_ticks := t, k_ports := tr'\<rparr>)" "sounds_like tr' tr"
      using driver_behind [OF assms, of "at_ports s" tr] by (auto simp: behind_def)
    then have "twin (k_screen ?k) (k_screen l)" by (simp add: over_def)
    then have "rel_sum (=) (rel_prod (=) (rel_prod twin (=)))
        (ata_init_on (fb_println_irq (at_points s)) ?e buf (k_disk k) (k_screen ?k) (k_ports k))
        (ata_init_on fb_println ?e buf (k_disk k) (k_screen l) (k_ports k))"
      using ata_init_transfer [of twin] irq_twin_quiet(2) by (fastforce simp: rel_fun_def)
    moreover have "behind (served n (?k\<lparr>k_disk := dr, k_screen := a\<rparr>)) (l\<lparr>k_disk := dr, k_screen := b, k_ports := tr\<rparr>)"
      if "twin a b" for dr a b n
    proof (rule served_behind)
      have "twin_kernel (?k\<lparr>k_disk := dr, k_screen := a\<rparr>) (l\<lparr>k_ticks := t, k_ports := tr', k_disk := dr, k_screen := b\<rparr>)"
        by (intro over_set t(1) that)
      moreover have "l\<lparr>k_ticks := t, k_ports := tr', k_disk := dr, k_screen := b\<rparr>
          = l\<lparr>k_disk := dr, k_screen := b, k_ports := tr, k_ticks := t, k_ports := tr'\<rparr>" by (cases l) simp
      ultimately show "behind (?k\<lparr>k_disk := dr, k_screen := a\<rparr>) (l\<lparr>k_disk := dr, k_screen := b, k_ports := tr\<rparr>)"
        unfolding behind_def using t(2) by (intro exI [of _ t] exI [of _ tr']) simp
    qed
    moreover have ports: "tr1 = tr" if "ata_init_on f ?e buf dr st (k_ports k) = Inr (dr', st', tr1)" for f dr st dr' st' tr1
      using ata_init_ports [OF that] Inr x by simp
    ultimately show ?thesis
      using Inr x same by (cases rule: rel_sum.cases) (auto simp: boot_ata_init_irq_def boot_ata_init_def Let_def dest: ports)
  qed
qed

lemma length_boot_late_irq [simp]: "length (boot_late_irq d buf) = 7"
  by (simp add: boot_late_irq_def)

text \<open>Each call, under any schedule, is matched by the same call without interrupts, on the woven device.\<close>

lemma late_behind:
  assumes "i < 7" and "twin_kernel k l"
  shows "rel_sum (=) behind ((boot_late_irq d buf ! i) s k) ((boot_late (woven (at_ports s) (length (k_ports k)) d) buf ! i) l)"
proof -
  have clear: "twin st st' \<Longrightarrow> twin_r (Inr (fb_clear_irq q FB_BLACK st)) (Inr (fb_clear FB_BLACK st'))" for st st' q
    using clear_irq_twin by simp
  consider "i = 0" | "i = 1" | "i = 2" | "i = 3" | "i = 4" | "i = 5" | "i = 6" using assms(1) by linarith
  then show ?thesis
    using port_call_behind [OF assms(2)] con_call_behind [OF _ assms(2)] ata_behind [OF assms(2)] clear irq_twin_quiet
    by cases (simp_all add: boot_late_irq_def boot_late_def)
qed

section \<open>The invariant\<close>

text \<open>What boot asks of the devices, with interrupts between the accesses.\<close>

definition boot_bus_ok :: "pics \<Rightarrow> device \<Rightarrow> u16 list \<Rightarrow> bool" where
  "boot_bus_ok p d buf \<longleftrightarrow> mask_readback d p \<and> length buf = 256
    \<and> (\<forall>r n tr ws tr'. ata_identify (woven r n d) buf tr = Inr (0, ws, tr') \<longrightarrow> sector_count ws < 2 ^ 31)"

lemma boot_bus_device: "boot_bus_ok p d buf \<Longrightarrow> boot_device_ok p (woven r n d) buf"
  unfolding boot_bus_ok_def boot_device_ok_def using woven_readback by blast

text \<open>At a stage up to the picture; the disk has answered to a bus with some interrupts on it.\<close>

definition near_stage :: "pics \<Rightarrow> device \<Rightarrow> u16 list \<Rightarrow> kernel \<Rightarrow> nat \<Rightarrow> kernel \<Rightarrow> bool" where
  "near_stage p d buf k0 n k \<longleftrightarrow> (\<exists>l r i. twin_kernel k l \<and> at_stage p (woven r i d) buf k0 n l)"

definition preempt_inv ::
  "pics \<Rightarrow> kernel \<Rightarrow> device \<Rightarrow> u16 list \<Rightarrow> (schedule \<Rightarrow> kernel \<Rightarrow> kernel result) list \<times> kernel \<Rightarrow> bool" where
  "preempt_inv p k0 d buf = (\<lambda>(fs, k). \<exists>n\<le>7. fs = drop (7 - n) (boot_late_irq d buf) \<and> near_stage p d buf k0 n k)"

lemma late_irq_drop:
  assumes "n < 7"
  shows "drop (7 - Suc n) (boot_late_irq d buf) = boot_late_irq d buf ! (6 - n) # drop (7 - n) (boot_late_irq d buf)"
proof -
  have "Suc (6 - n) = 7 - n" "7 - Suc n = 6 - n" "6 - n < 7" using assms by arith+
  then show ?thesis using Cons_nth_drop_Suc [of "6 - n" "boot_late_irq d buf"] by simp
qed

lemma behind_stage:
  assumes "behind k l" and "at_stage p (woven r i d) buf k0 n l"
  shows "near_stage p d buf k0 n k"
  using assms at_stage_ports [OF assms(2)] sounds_pics unfolding behind_def near_stage_def by blast

text \<open>Under any schedule the next call returns, and is then a stage further.\<close>

lemma preempt_call_ok:
  assumes "near_stage p d buf k0 (Suc n) k" and "n < 7"
    and "blank_tty (tty_of (k_screen k0))" and "boot_bus_ok p d buf"
  shows "ok_r (near_stage p d buf k0 n) ((boot_late_irq d buf ! (6 - n)) s k)"
proof -
  let ?e = "woven (at_ports s) (length (k_ports k)) d"
  obtain l r i where l: "twin_kernel k l" "at_stage p (woven r i d) buf k0 (Suc n) l"
    using assms(1) by (auto simp: near_stage_def)
  obtain l' where l': "(boot_late ?e buf ! (6 - n)) l = Inr l'" "at_stage p (if 4 \<le> n then ?e else woven r i d) buf k0 n l'"
    using call_ok_on [OF l(2) assms(2,3) boot_bus_device [OF assms(4)]] by (auto simp: ok_r_iff)
  then obtain r' i' where stage: "at_stage p (woven r' i' d) buf k0 n l'" by (cases "4 \<le> n") auto
  have "rel_sum (=) behind ((boot_late_irq d buf ! (6 - n)) s k) ((boot_late ?e buf ! (6 - n)) l)"
    by (rule late_behind [OF _ l(1)]) simp
  then obtain k' where "(boot_late_irq d buf ! (6 - n)) s k = Inr k'" "behind k' l'"
    using l'(1) by (auto elim: rel_sum.cases)
  then show ?thesis using behind_stage [OF _ stage] by simp
qed

lemma near_stage_tick: "near_stage p d buf k0 n k \<Longrightarrow> near_stage p d buf k0 n (timer_tick k)"
  using at_stage_tick pic.timer_rel unfolding near_stage_def rel_fun_def by blast

lemma near_only_ticks:
  assumes "near_stage p d buf k0 (Suc n) k" and "\<not> irq_masked (pics_after p (k_ports k)) (irq_line e)"
  shows "e = Tick"
proof -
  obtain l r i where l: "twin_kernel k l" "at_stage p (woven r i d) buf k0 (Suc n) l" using assms(1) by (auto simp: near_stage_def)
  have "k_ports l = k_ports k" using l(1) by (auto elim: overE)
  then show ?thesis using only_ticks [OF l(2)] assms(2) by simp
qed

lemma preempt_inv_next:
  assumes "preempt_inv p k0 d buf (fs, k)" and "fs \<noteq> []"
  shows "\<exists>n<7. near_stage p d buf k0 (Suc n) k \<and> fs = boot_late_irq d buf ! (6 - n) # drop (7 - n) (boot_late_irq d buf)"
proof -
  obtain n where n: "n \<le> 7" "fs = drop (7 - n) (boot_late_irq d buf)" "near_stage p d buf k0 n k"
    using assms(1) by (auto simp: preempt_inv_def)
  with assms(2) obtain i where i: "n = Suc i" "i < 7" by (cases n) auto
  with n late_irq_drop [OF i(2)] show ?thesis by blast
qed

lemma preempt_step_inv:
  assumes "preempt_step junk p (fs, k) (fs', k')" and "preempt_inv p k0 d buf (fs, k)"
    and "blank_tty (tty_of (k_screen k0))" and "boot_bus_ok p d buf"
  shows "preempt_inv p k0 d buf (fs', k')"
proof -
  have "fs \<noteq> []" using assms(1) by (auto elim: preempt_stepE)
  then obtain n where n: "n < 7" "near_stage p d buf k0 (Suc n) k"
    "fs = boot_late_irq d buf ! (6 - n) # drop (7 - n) (boot_late_irq d buf)"
    using preempt_inv_next [OF assms(2)] by blast
  consider (call) s where "(boot_late_irq d buf ! (6 - n)) s k = Inr k'" "fs' = drop (7 - n) (boot_late_irq d buf)"
    | (irq) e where "fs' = fs" "irq_step junk k e k'" "\<not> irq_masked (pics_after p (k_ports k)) (irq_line e)"
    using assms(1) n(3) by (auto elim: preempt_stepE)
  then show ?thesis
  proof cases
    case call
    then have "near_stage p d buf k0 n k'" using preempt_call_ok [OF n(2,1) assms(3,4), of s] by simp
    with call n(1) show ?thesis by (auto simp: preempt_inv_def intro!: exI [of _ n])
  next
    case irq
    have "e = Tick" by (rule near_only_ticks [OF n(2) irq(3)])
    with irq(2) have "k' = timer_tick k" by (auto elim: irq_tickE simp: isr_handler_def)
    with near_stage_tick [OF n(2)] have "near_stage p d buf k0 (Suc n) k'" by simp
    with irq(1) n(1,3) late_irq_drop [OF n(1), of d buf] show ?thesis
      unfolding preempt_inv_def by (intro case_prodI exI [of _ "Suc n"]) simp
  qed
qed

lemma near_start:
  assumes "at_stage p d buf k0 7 k0"
  shows "near_stage p d buf k0 7 k0"
proof -
  have "at_stage p (woven r i d) buf k0 7 k0" for r i using assms by (simp add: at_stage_def)
  then show ?thesis using twin_kernel_refl unfolding near_stage_def by blast
qed

lemma preempt_steps_inv:
  assumes "(preempt_step junk p)\<^sup>*\<^sup>* (boot_late_irq d buf, k0) c" and "at_stage p d buf k0 7 k0"
    and "blank_tty (tty_of (k_screen k0))" and "boot_bus_ok p d buf"
  shows "preempt_inv p k0 d buf c"
  using assms(1)
proof (induction rule: rtranclp_induct)
  case base
  have "boot_late_irq d buf = drop (7 - 7) (boot_late_irq d buf)" by simp
  then show ?case using near_start [OF assms(2)] unfolding preempt_inv_def by blast
next
  case (step c c')
  then show ?case using preempt_step_inv [OF _ _ assms(3,4)] by (cases c; cases c') blast
qed

section \<open>Alongside the boot without interrupts\<close>

text \<open>If the devices do not hear ends of interrupt, the calls do what they do without interrupts.\<close>

lemma tick_behind: "behind k l \<Longrightarrow> behind (timer_tick k) l"
  using ticks_behind [of 1 k] behind_trans by simp

lemma late_behind_plain:
  assumes "i < 7" and "behind k l" and "deaf d"
  shows "rel_sum (=) behind ((boot_late_irq d buf ! i) s k) ((boot_late d buf ! i) l)"
proof -
  let ?e = "woven (at_ports s) (length (k_ports k)) d"
  obtain t tr where k: "twin_kernel k (l\<lparr>k_ticks := t, k_ports := tr\<rparr>)" "sounds_like tr (k_ports l)"
    using assms(2) by (auto simp: behind_def)
  let ?l = "l\<lparr>k_ticks := t, k_ports := tr\<rparr>"
  have "rel_sum (=) behind ((boot_late_irq d buf ! i) s k) ((boot_late ?e buf ! i) ?l)"
    by (rule late_behind [OF assms(1) k(1)])
  moreover have "rel_sum (=) later ((boot_late ?e buf ! i) ?l) ((boot_late d buf ! i) l)"
    by (rule late_later [OF laterI [OF k(2)] woven_answers [OF assms(3)] assms(1)])
  ultimately show ?thesis using behind_trans [OF _ later_behind] by (auto elim!: rel_sum.cases)
qed

definition alongside :: "device \<Rightarrow> u16 list \<Rightarrow> kernel \<Rightarrow> (schedule \<Rightarrow> kernel \<Rightarrow> kernel result) list \<times> kernel \<Rightarrow> bool" where
  "alongside d buf k0 = (\<lambda>(fs, k). \<exists>i\<le>7. fs = drop i (boot_late_irq d buf)
    \<and> (\<exists>l. seq_r (take i (boot_late d buf)) k0 = Inr l \<and> behind k l))"

lemma preempt_step_alongside:
  assumes "preempt_step junk p (fs, k) (fs', k')" and "preempt_inv p k0 d buf (fs, k)" and "alongside d buf k0 (fs, k)" and "deaf d"
  shows "alongside d buf k0 (fs', k')"
proof -
  obtain i l where i: "i \<le> 7" "fs = drop i (boot_late_irq d buf)" "seq_r (take i (boot_late d buf)) k0 = Inr l" "behind k l"
    using assms(3) by (auto simp: alongside_def)
  have left: "fs \<noteq> []" using assms(1) by (auto elim: preempt_stepE)
  then have lt: "i < 7" using i(1,2) by (cases "i = 7") simp_all
  then have fs: "fs = boot_late_irq d buf ! i # drop (Suc i) (boot_late_irq d buf)" using i(2) by (simp add: Cons_nth_drop_Suc)
  consider (call) s where "(boot_late_irq d buf ! i) s k = Inr k'" "fs' = drop (Suc i) (boot_late_irq d buf)"
    | (irq) e where "fs' = fs" "irq_step junk k e k'" "\<not> irq_masked (pics_after p (k_ports k)) (irq_line e)"
    using assms(1) fs by (auto elim: preempt_stepE)
  then show ?thesis
  proof cases
    case call
    obtain l' where l': "(boot_late d buf ! i) l = Inr l'" "behind k' l'"
      using late_behind_plain [OF lt i(4) assms(4), of buf s] call(1) by (auto elim: rel_sum.cases)
    have "take (Suc i) (boot_late d buf) = take i (boot_late d buf) @ [boot_late d buf ! i]"
      using lt by (simp add: take_Suc_conv_app_nth)
    then have "seq_r (take (Suc i) (boot_late d buf)) k0 = Inr l'" using i(3) l'(1) by (simp add: seq_r_append)
    with call(2) l'(2) lt show ?thesis by (auto simp: alongside_def intro!: exI [of _ "Suc i"])
  next
    case irq
    obtain n where "near_stage p d buf k0 (Suc n) k" using preempt_inv_next [OF assms(2) left] by blast
    then have "e = Tick" using near_only_ticks irq(3) by blast
    with irq(2) have "k' = timer_tick k" by (auto elim: irq_tickE simp: isr_handler_def)
    with i irq(1) tick_behind show ?thesis by (auto simp: alongside_def)
  qed
qed

lemma preempt_steps_alongside:
  assumes "(preempt_step junk p)\<^sup>*\<^sup>* (boot_late_irq d buf, k0) c" and "at_stage p d buf k0 7 k0"
    and "blank_tty (tty_of (k_screen k0))" and "boot_bus_ok p d buf" and "deaf d"
  shows "alongside d buf k0 c"
  using assms(1)
proof (induction rule: rtranclp_induct)
  case base
  have "behind k0 k0" by (rule twin_behind [OF twin_kernel_refl])
  then show ?case by (auto simp: alongside_def intro!: exI [of _ 0])
next
  case (step c c')
  have "preempt_inv p k0 d buf c" by (rule preempt_steps_inv [OF step.hyps(1) assms(2-4)])
  with step preempt_step_alongside [OF _ _ _ assms(5)] show ?case by (cases c; cases c') blast
qed

section \<open>Clearing repairs the picture\<close>

lemma twin_cursor_ok: "twin st st' \<Longrightarrow> cursor_ok st' = cursor_ok st"
  by (erule twinE) (simp add: cursor_ok_def grid_ok_def screen_mode_def blank_behind_def fb_wf_def)

lemma shell_clears:
  assumes "terminated ln" and "length buf = 256" and "take 16 (words (take 255 (cstr ln))) = [bytes ''clear'']"
  shows "\<exists>buf'. shell_exec p dr junk ln (buf, st, tr) = Inr (buf', fb_clear_screen st, tr)"
proof -
  obtain argv buf' where tok: "shell_tokens ln buf = Inr (argv, buf')" "\<forall>q \<in> set argv. terminated (drop q buf')"
    "map (\<lambda>q. cstr (drop q buf')) argv = [bytes ''clear'']"
    using shell_tokens_ok [OF assms(1,2)] assms(3) by auto
  then obtain q where q: "argv = [q]" "terminated (drop q buf')" "cstr (drop q buf') = bytes ''clear''" by auto
  then have "shell_exec_args p dr junk [drop q buf'] (st, tr) = Inr (fb_clear_screen st, tr)"
    by (simp add: shell_exec_args_def shell_exec_args_on_def Let_def str_switch_Cons cmd_clear_def)
  with tok(1) q(1) show ?thesis by (simp add: shell_exec_def)
qed

text \<open>Enter, with \<open>clear\<close> on the line: only the text of the screen matters, and afterwards the picture shows it.\<close>

lemma enter_clears:
  assumes "twin_kernel k l" and "kernel_ok l" and "unat (line_len (k_kbd k)) < 256"
    and "input_words (kbd_input (k_kbd k)) = [bytes ''clear'']" and run: "key_enter junk k = Inr k'"
  shows "fb_ok (k_screen k')"
proof -
  let ?kb = "k_kbd k" and ?e = "fb_erase_cursor (k_screen k)" and ?f = "fb_erase_cursor (k_screen l)"
  have same: "k_kbd l = ?kb" "k_shell l = k_shell k" "twin (k_screen k) (k_screen l)"
    using assms(1) by (auto elim: overE)
  then have ok: "fb_ok (k_screen l)" "kbd_ok ?kb" "length (k_shell k) = 256" using assms(2) by (simp_all add: kernel_ok_def)
  obtain s1 where s1: "fb_set_row (cur_row ?f + 1) ?f = Inr s1" "screen_ok {} (fb_set_col 0 s1)"
    using newline_ok [of ?f] erase_cursor_ok [OF ok(1) [unfolded fb_ok_def]] by blast
  have "twin ?e ?f" using pic.cursor_rel(2) same(3) by (simp add: rel_fun_def)
  then have "twin_r (fb_set_row (cur_row ?e + 1) ?e) (fb_set_row (cur_row ?f + 1) ?f)"
    using pic.setters_rel(4) by (auto simp: rel_fun_def elim!: twinE)
  then obtain t1 where t1: "fb_set_row (cur_row ?e + 1) ?e = Inr t1" "twin t1 s1" using s1(1) by (auto elim: rel_sum.cases)
  then have "twin (fb_set_col 0 t1) (fb_set_col 0 s1)" using pic.setters_rel(5) by (simp add: rel_fun_def)
  with s1(2) have "cursor_ok (fb_set_col 0 t1)" using screen_ok_cursor twin_cursor_ok by blast
  then have cleared: "fb_ok (fb_clear_screen (fb_set_col 0 t1))"
    using clear_screen_step by (simp add: console_step_def fb_ok_def)
  define kb where "kb = ?kb\<lparr>line := (line ?kb)[unat (line_len ?kb) := 0], line_len := 0\<rparr>"
  have split: "line kb = kbd_input ?kb @ 0 # drop (unat (line_len ?kb) + 1) (line ?kb)"
    using assms(3) ok(2) by (simp add: kb_def kbd_input_def kbd_ok_def upd_conv_take_nth_drop)
  have "take 16 (words (take 255 (cstr (line kb)))) = [bytes ''clear'']"
    using assms(4) unfolding split input_words_def cstr_cut .
  moreover have "terminated (line kb)" by (simp add: split)
  ultimately obtain buf where shell: "shell_exec (k_pages k) (k_disk k) junk (line kb) (k_shell k, fb_set_col 0 t1, k_ports k)
      = Inr (buf, fb_clear_screen (fb_set_col 0 t1), k_ports k)"
    using shell_clears [OF _ ok(3)] by blast
  obtain s3 where s3: "fb_print (lit ''> '') (fb_clear_screen (fb_set_col 0 t1)) = Inr s3" "fb_ok s3"
    using fbc.print_does [OF cleared, of "lit ''> ''"] by (auto simp: does_def ok_r_iff)
  have "k_screen k' = fb_draw_cursor s3"
    using run t1(1) shell s3(1) store_line_ok [OF ok(2) assms(3), of 0]
    by (auto simp: key_enter_def Let_def kb_def int_inc_def fb_get_row_def split: if_splits)
  then show ?thesis using draw_cursor_ok [OF s3(2) [unfolded fb_ok_def]] tty_of_fields(6) [of "fb_draw_cursor s3" s3]
    by (simp add: fb_ok_def)
qed

inductive_cases irq_snocE: "irq_run junk k (es @ [e]) k'"
inductive_cases irq_oneE: "irq_run junk k [e] k'"
inductive_cases irq_nilE: "irq_run junk k [] k'"

lemma irq_run_append: "irq_run junk k (xs @ ys) k' \<Longrightarrow> \<exists>k1. irq_run junk k xs k1 \<and> irq_run junk k1 ys k'"
proof (induction ys arbitrary: k' rule: rev_induct)
  case Nil
  then show ?case using run_idle by auto
next
  case (snoc y ys)
  from snoc.prems have "irq_run junk k ((xs @ ys) @ [y]) k'" by simp
  then obtain k2 where "irq_run junk k (xs @ ys) k2" "irq_step junk k2 y k'" by (rule irq_snocE)
  with snoc.IH run_step show ?case by blast
qed

lemma run_first: "irq_run junk k (e # es) k' \<Longrightarrow> \<exists>k1. irq_step junk k e k1 \<and> irq_run junk k1 es k'"
  using irq_run_append [of junk k "[e]" es k'] by (auto elim!: irq_oneE irq_nilE)

lemma enter_last:
  assumes "filter (\<lambda>e. e \<noteq> Tick) evs = map Key codes @ [Key 0x1C]"
  shows "\<exists>es ts. evs = es @ Key 0x1C # ts \<and> filter (\<lambda>e. e \<noteq> Tick) es = map Key codes"
  using assms
proof (induction evs arbitrary: codes)
  case (Cons e evs)
  have step: ?case if "filter (\<lambda>e. e \<noteq> Tick) evs = map Key cs @ [Key 0x1C]" "map Key codes = filter (\<lambda>e. e \<noteq> Tick) [e] @ map Key cs" for cs
  proof -
    note split = that
    obtain es ts where "evs = es @ Key 0x1C # ts" "filter (\<lambda>e. e \<noteq> Tick) es = map Key cs" using Cons.IH split(1) by blast
    with split(2) show ?thesis by (intro exI [of _ "e # es"] exI [of _ ts]) simp
  qed
  show ?case
  proof (cases "e = Tick")
    case True
    with Cons.prems step show ?thesis by simp
  next
    case key: False
    show ?thesis
    proof (cases codes)
      case Nil
      with key Cons.prems have "e # evs = [] @ Key 0x1C # evs \<and> filter (\<lambda>e. e \<noteq> Tick) [] = map Key codes" by simp
      then show ?thesis by blast
    next
      case (Cons c cs)
      with key Cons.prems step [of cs] show ?thesis by simp
    qed
  qed
qed simp

text \<open>Interrupts between the keys of the line, and behind Enter, do not get in the way.\<close>

lemma clear_repairs:
  assumes "twin_kernel k l" and "kernel_ok l" and "stopped (k_kbd l) = 0" and "length junk = 16" and "s_input (session_of l) = []"
    and "types (s_shift (session_of l)) codes cs" and "length cs \<le> 255" and "take 16 (words cs) = [bytes ''clear'']"
    and "filter (\<lambda>e. e \<noteq> Tick) evs = map Key codes @ [Key 0x1C]" and "irq_run junk k evs k'"
  shows "kernel_ok k'"
proof -
  obtain es ts where evs: "evs = es @ Key 0x1C # ts" "filter (\<lambda>e. e \<noteq> Tick) es = map Key codes"
    using enter_last [OF assms(9)] by blast
  obtain k1 k2 where k: "irq_run junk k es k1" "irq_step junk k1 (Key 0x1C) k2" "irq_run junk k2 ts k'"
    using irq_run_append [of junk k es "Key 0x1C # ts" k'] run_first assms(10) evs(1) by blast
  obtain l1 where l1: "irq_run junk l es l1" "twin_kernel k1 l1" using pic.irq_run_rel [OF k(1) assms(1)] by blast
  have inv: "kernel_ok l1" "stopped (k_kbd l1) = 0"
    using serves_all [OF l1(1) assms(2,4)] assms(3) by (simp_all add: undisturbed_def)
  have "session_of l1 = run_session (k_pages l) (k_disk l) (map Key codes) (session_of l)"
    using run_refines [OF l1(1) assms(2,4,3)] run_session_ticks [of _ _ es] evs(2) by metis
  then have typed: "kbd_input (k_kbd l1) = cs" using session_types [OF assms(6)] assms(5) by (simp add: session_of_def)
  obtain l2 where l2: "irq_step junk l1 (Key 0x1C) l2" "twin_kernel k2 l2" using pic.irq_step_rel [OF k(2) l1(2)] by blast
  have "kernel_ok l2" using step_serves [OF inv(1) assms(4) l2(1)] by (simp add: serves_def)
  moreover have "fb_ok (k_screen k2)"
  proof -
    obtain d fault buf c where d: "0x1C = pressed d k1" "isr_handler d fault junk buf 33 c k1 = Inr k2"
      using k(2) by (rule irq_keyE)
    let ?act = "\<lambda>k tr. k\<lparr>k_ports := tr, k_screen := fb_cursor_activity (k_ticks k) (k_screen k)\<rparr>"
    have kb: "k_kbd l1 = k_kbd k1" using l1(2) by (auto elim: overE)
    then obtain tr where "key_enter junk (?act k1 tr) = Inr k2"
      using d inv(2) by (auto simp: isr_handler_def keyboard_handler_def inb_def pressed_def Let_def pit_get_ticks_def)
    moreover have "twin_kernel (?act k1 tr) (?act l1 tr)" for tr
      using l1(2) by (rule overE) (use pic.setters_rel(2) in \<open>simp add: rel_fun_def over_def\<close>)
    moreover have "kernel_ok (?act l1 tr)" for tr using inv(1) by (simp add: kernel_ok_def)
    moreover have "unat (line_len (k_kbd k1)) < 256"
      using typed assms(7) inv(1) input_length [of "k_kbd l1"] kb by (simp add: kernel_ok_def)
    moreover have "input_words (kbd_input (k_kbd k1)) = [bytes ''clear'']"
      using types_words [OF assms(6,7)] assms(8) typed kb by simp
    ultimately show ?thesis using enter_clears [of "?act k1 tr" "?act l1 tr"] by auto
  qed
  ultimately have "kernel_ok k2" using l2(2) by (auto simp: kernel_ok_def elim!: overE)
  with serves_all [OF k(3) _ assms(4)] show ?thesis by blast
qed

section \<open>The preempted boot\<close>

text \<open>
  Whatever the schedules of the calls, they can be run to the end; this one has three interrupts in each call into the
  console and one before every access to a port.
\<close>

definition busy_schedule :: schedule where
  "busy_schedule = \<lparr>at_points = (\<lambda>i. [of_nat i]), in_call = 3, at_ports = (\<lambda>i. 1)\<rparr>"

lemma preempted_runs:
  assumes "near_stage p d buf k0 n k" and "n \<le> 7"
    and "blank_tty (tty_of (k_screen k0))" and "boot_bus_ok p d buf"
  shows "\<exists>k'. (preempt_step junk p)\<^sup>*\<^sup>* (drop (7 - n) (boot_late_irq d buf), k) ([], k')"
  using assms(1,2)
proof (induction n arbitrary: k)
  case 0
  then show ?case by auto
next
  case (Suc n)
  then obtain k1 where k1: "(boot_late_irq d buf ! (6 - n)) busy_schedule k = Inr k1" "near_stage p d buf k0 n k1"
    using preempt_call_ok [OF Suc.prems(1) _ assms(3,4), of busy_schedule] by (auto simp: ok_r_iff)
  have "preempt_step junk p (drop (7 - Suc n) (boot_late_irq d buf), k) (drop (7 - n) (boot_late_irq d buf), k1)"
    using Suc.prems(2) preempt_call [of "boot_late_irq d buf ! (6 - n)" busy_schedule k k1] k1(1)
      late_irq_drop [of n d buf] by simp
  moreover obtain k2 where "(preempt_step junk p)\<^sup>*\<^sup>* (drop (7 - n) (boot_late_irq d buf), k1) ([], k2)"
    using Suc.IH [OF k1(2)] Suc.prems(2) by auto
  ultimately show ?case by (meson converse_rtranclp_into_rtranclp)
qed

lemma preempted_booted:
  assumes "boot_info_ok m mbi pm tag" and "dirs_ok a b" and "boot_bus_ok p d buf"
    and "boot_early m mbi stub ia (kernel_boot v h a b) = Some (Inr k0)"
    and "(preempt_step junk p)\<^sup>*\<^sup>* (boot_late_irq d buf, k0) ([], k)"
  shows "\<exists>l r i. twin_kernel k l \<and> booted p (woven r i d) buf stub pm (first_tty tag) l"
proof -
  have early: "early_state p stub pm tag k0" using boot_early_ok [OF assms(1,2), of stub ia v h p] assms(4) by auto
  have "preempt_inv p k0 d buf ([], k)"
    by (rule preempt_steps_inv [OF assms(5) early_stage [OF early] early_blank [OF early] assms(3)])
  then obtain n l r i where "n \<le> 7" "7 \<le> 7 - n" "twin_kernel k l" "at_stage p (woven r i d) buf k0 n l"
    by (auto simp: preempt_inv_def near_stage_def)
  moreover from this have "n = 0" by arith
  ultimately show ?thesis using stage_booted [OF early, of "woven r i d" buf l] early by (auto simp: early_state_def)
qed

text \<open>
  C10: Booting with interrupts on. Timer interrupts may arrive between the calls behind \<open>sti\<close> and inside them: between
  the statements of the console's functions, between the pixels of \<open>fb_clear\<close>, and between the port accesses of the drivers,
  where the controllers and the disk see each end of interrupt. In every such run, as long as a call is left, it returns under
  every schedule and the keyboard's line is masked. When no call is left the kernel has, but for the contents of the video memory,
  all that boot establishes, with a drive record from an identification with interrupts in its midst. If moreover no device
  answers differently because of ends of interrupt, \<open>kernel_main\<close> without interrupts returns too, and the kernel is the one it
  returns, but for the video memory, the tick counter, and the ends of interrupt among the port accesses.
\<close>

theorem boot_preempted:
  assumes "boot_info_ok m mbi pm tag" and "dirs_ok a b" and "boot_bus_ok p d buf"
    and "boot_early m mbi stub ia (kernel_boot v h a b) = Some (Inr k0)"
    and "(preempt_step junk p)\<^sup>*\<^sup>* (boot_late_irq d buf, k0) (fs, k)"
  shows "if fs = []
    then (\<exists>l r i. twin_kernel k l \<and> booted p (woven r i d) buf stub pm (first_tty tag) l)
      \<and> (deaf d \<longrightarrow> (\<exists>l t tr. kernel_main m mbi stub ia d buf (kernel_boot v h a b) = Some (Inr l)
          \<and> twin_kernel k (l\<lparr>k_ticks := t, k_ports := tr\<rparr>) \<and> filter audible tr = filter audible (k_ports l)))
    else (\<forall>s. \<exists>k'. hd fs s k = Inr k') \<and> irq_masked (pics_after p (k_ports k)) 1"
proof -
  have early: "early_state p stub pm tag k0" using boot_early_ok [OF assms(1,2), of stub ia v h p] assms(4) by auto
  note start = early_stage [OF early] early_blank [OF early] assms(3)
  show ?thesis
  proof (cases "fs = []")
    case True
    have "\<exists>l t tr. kernel_main m mbi stub ia d buf (kernel_boot v h a b) = Some (Inr l)
        \<and> twin_kernel k (l\<lparr>k_ticks := t, k_ports := tr\<rparr>) \<and> filter audible tr = filter audible (k_ports l)" if deaf: "deaf d"
    proof -
      obtain i l where i: "i \<le> 7" "drop i (boot_late_irq d buf) = []" "seq_r (take i (boot_late d buf)) k0 = Inr l" "behind k l"
        using preempt_steps_alongside [OF assms(5) start deaf] True by (auto simp: alongside_def)
      from i(2) have "7 \<le> i" by simp
      with i(3) have "kernel_main m mbi stub ia d buf (kernel_boot v h a b) = Some (Inr l)" using assms(4) by (simp add: kernel_main_def)
      with i(4) show ?thesis by (auto simp: behind_def sounds_like_def)
    qed
    with True preempted_booted [OF assms(1-4)] assms(5) show ?thesis by simp
  next
    case False
    from preempt_inv_next [OF preempt_steps_inv [OF assms(5) start] False] obtain n where n: "n < 7" "near_stage p d buf k0 (Suc n) k"
      "hd fs = boot_late_irq d buf ! (6 - n)" by auto
    then have "\<exists>k'. hd fs s k = Inr k'" for s
      using preempt_call_ok [OF _ _ start(2,3)] by (fastforce simp: ok_r_iff)
    moreover have "irq_masked (pics_after p (k_ports k)) 1"
      using near_only_ticks [OF n(2), of "Key 0"] by (auto simp: irq_line_def)
    ultimately show ?thesis using False by simp
  qed
qed

lemma woven_zero_words: "insw (woven r n sample_device) port m tr = (ws, tr') \<Longrightarrow> ws = replicate m 0"
proof (induction m arbitrary: tr ws)
  case (Suc m)
  have "dev_in16 (woven r n sample_device) t q = 0" for t q by (simp add: woven_def sample_device_def)
  with Suc show ?case by (auto simp: Let_def split: prod.splits)
qed simp

lemma sample_bus_ok: "boot_bus_ok pics_set sample_device (replicate 256 0)"
proof -
  have "ws = replicate 256 0"
    if "ata_identify (woven r n sample_device) (replicate 256 0) tr = Inr (0, ws, tr')" for r n tr ws tr'
    using that
    by (auto simp: ata_identify_def Let_def store_block_def overwrite_all dest!: woven_zero_words split: if_splits prod.splits)
  moreover have "sector_count (replicate 256 0) < 2 ^ 31" by (simp add: sector_count_def)
  ultimately have "sector_count ws < 2 ^ 31"
    if "ata_identify (woven r n sample_device) (replicate 256 0) tr = Inr (0, ws, tr')" for r n tr ws tr'
    using that by blast
  then show ?thesis using sample_device_readback unfolding boot_bus_ok_def by auto
qed

lemma sample_preempted:
  "\<exists>k0 k. boot_early boot_mbi 0 (\<lambda>_. 0) 0 (kernel_boot (\<lambda>_. 7) blank_heap 0x103000 0x104000) = Some (Inr k0)
    \<and> (preempt_step (replicate 16 0) pics_set)\<^sup>*\<^sup>* (boot_late_irq sample_device (replicate 256 0), k0) ([], k)"
proof -
  obtain k0 where k0: "boot_early boot_mbi 0 (\<lambda>_. 0) 0 (kernel_boot (\<lambda>_. 7) blank_heap 0x103000 0x104000) = Some (Inr k0)"
    "early_state pics_set (\<lambda>_. 0) [False, True, True, True] sample_tag k0"
    using boot_early_ok [OF boot_mbi_ok sample_dirs_ok] by blast
  with preempted_runs [OF near_start [OF early_stage [OF k0(2)]] _ early_blank [OF k0(2)] sample_bus_ok] show ?thesis by simp
qed

theorem boot_preempted_witness:
  "\<exists>k l t tr. (preempt_step (replicate 16 0) pics_set)\<^sup>*\<^sup>* (boot_late_irq sample_device (replicate 256 0),
      the (map_option projr (boot_early boot_mbi 0 (\<lambda>_. 0) 0 (kernel_boot (\<lambda>_. 7) blank_heap 0x103000 0x104000)))) ([], k)
    \<and> (\<exists>l r i. twin_kernel k l
        \<and> booted pics_set (woven r i sample_device) (replicate 256 0) (\<lambda>_. 0) [False, True, True, True] (first_tty sample_tag) l)
    \<and> kernel_main boot_mbi 0 (\<lambda>_. 0) 0 sample_device (replicate 256 0) (kernel_boot (\<lambda>_. 7) blank_heap 0x103000 0x104000) = Some (Inr l)
    \<and> twin_kernel k (l\<lparr>k_ticks := t, k_ports := tr\<rparr>)"
proof -
  obtain k0 k where k: "boot_early boot_mbi 0 (\<lambda>_. 0) 0 (kernel_boot (\<lambda>_. 7) blank_heap 0x103000 0x104000) = Some (Inr k0)"
    "(preempt_step (replicate 16 0) pics_set)\<^sup>*\<^sup>* (boot_late_irq sample_device (replicate 256 0), k0) ([], k)"
    using sample_preempted by blast
  from boot_preempted [OF boot_mbi_ok sample_dirs_ok sample_bus_ok k] k sample_device_deaf show ?thesis by auto
qed

text \<open>
  C11: The first line after a boot with interrupts in its midst: whatever the pixels are, the keys that type a text
  of at most 255 characters and Enter can be served, with timer interrupts between them, and the text on the screen is then the
  greeting, the line and what the shell's table gives for it. If the line was \<open>clear\<close>, the picture shows the
  text again: the kernel is in order as if no interrupt had come in between.
\<close>

theorem preempted_boot_first_line:
  assumes "boot_info_ok m mbi pm tag" and "dirs_ok a b" and "boot_bus_ok p d buf" and "length junk = 16"
    and "boot_early m mbi stub ia (kernel_boot v h a b) = Some (Inr k0)"
    and "(preempt_step junk p)\<^sup>*\<^sup>* (boot_late_irq d buf, k0) ([], k)"
    and "types False codes cs" and "length cs \<le> 255" and "filter (\<lambda>e. e \<noteq> Tick) evs = map Key codes @ [Key 0x1C]"
  shows "\<exists>t \<in> {greeting 0 (first_tty tag), greeting 0 (disk_failed (first_tty tag))}. (\<exists>k'. irq_run junk k evs k')
    \<and> (\<forall>k'. irq_run junk k evs k' \<longrightarrow> s_input (session_of k') = []
        \<and> tty_of (k_screen k') = t_print (bytes ''> '')
            (t_script (shell_plan (k_pages k) (k_disk k) (take 16 (words cs))) (t_newline (t_print cs t)))
        \<and> (take 16 (words cs) = [bytes ''clear''] \<longrightarrow> kernel_ok k'))"
proof -
  obtain l r i where l: "twin_kernel k l" "booted p (woven r i d) buf stub pm (first_tty tag) l"
    using preempted_booted [OF assms(1-3,5,6)] by blast
  then have ok: "kernel_ok l" "stopped (k_kbd l) = 0" "s_input (session_of l) = []" "\<not> s_shift (session_of l)"
    by (simp_all add: booted_def)
  obtain t where t: "t \<in> {greeting 0 (first_tty tag), greeting 0 (disk_failed (first_tty tag))}" "tty_of (k_screen l) = t"
    using l(2) by (auto simp: booted_def disk_outcomes_def)
  have ty: "types (s_shift (session_of l)) codes cs" using assms(7) ok(4) by simp
  note typed = line_under_interrupts [OF ok(1,2) assms(4) ok(3) ty assms(8,9)] and ws = types_words [OF assms(7,8)]
  have same: "k_pages l = k_pages k" "k_disk l = k_disk k" using l(1) by (auto elim: overE)
  have "\<exists>k'. irq_run junk k evs k'" using typed pic.irq_run_rel [OF _ twin_kernel_sym [OF l(1)]] by blast
  moreover have "s_input (session_of k') = [] \<and> tty_of (k_screen k') = t_print (bytes ''> '')
      (t_script (shell_plan (k_pages k) (k_disk k) (take 16 (words cs))) (t_newline (t_print cs t)))
      \<and> (take 16 (words cs) = [bytes ''clear''] \<longrightarrow> kernel_ok k')" if run: "irq_run junk k evs k'" for k'
  proof -
    obtain l' where l': "irq_run junk l evs l'" "session_of l' = session_of k'"
      using pic.irq_run_rel [OF run l(1)] twin_session by blast
    have "session_of k' = key_effect (k_pages l) (k_disk l) Enter ((session_of l)\<lparr>s_input := cs, s_tty := t_print cs t\<rparr>)"
      using typed l' t(2) by simp
    then show ?thesis
      using clear_repairs [OF l(1) ok(1,2) assms(4) ok(3) ty assms(8) _ assms(9) run] ws same by (simp add: session_of_def)
  qed
  ultimately show ?thesis using t(1) by blast
qed

theorem preempted_boot_first_line_witness:
  "\<exists>k k'. irq_run (replicate 16 0) k [Tick, Key 0x2E, Key 0x26, Tick, Key 0x12, Key 0x1E, Key 0x13, Key 0x1C] k' \<and> kernel_ok k'
    \<and> (\<exists>t. tty_of (k_screen k') = t_print (bytes ''> '') (t_clear t))"
proof -
  obtain k0 k where k: "boot_early boot_mbi 0 (\<lambda>_. 0) 0 (kernel_boot (\<lambda>_. 7) blank_heap 0x103000 0x104000) = Some (Inr k0)"
    "(preempt_step (replicate 16 0) pics_set)\<^sup>*\<^sup>* (boot_late_irq sample_device (replicate 256 0), k0) ([], k)"
    using sample_preempted by blast
  have junk: "length (replicate 16 0 :: u8 list) = 16" "length (bytes ''clear'') \<le> 255" by (simp_all add: bytes_def)
  have keys: "types False [0x2E, 0x26, 0x12, 0x1E, 0x13] (bytes ''clear'')"
    by (simp add: types_def key_of_def scancode_map_def bytes_def)
  have evs: "filter (\<lambda>e. e \<noteq> Tick) [Tick, Key 0x2E, Key 0x26, Tick, Key 0x12, Key 0x1E, Key 0x13, Key 0x1C]
      = map Key [0x2E, 0x26, 0x12, 0x1E, 0x13] @ [Key 0x1C]" by simp
  have ws: "take 16 (words (bytes ''clear'')) = [bytes ''clear'']" by (simp add: bytes_def words.simps)
  have plan: "t_script (shell_plan pg dr [bytes ''clear'']) t = t_clear t" for pg dr t
    by (simp add: shell_plan_def t_script_def)
  from preempted_boot_first_line [OF boot_mbi_ok sample_dirs_ok sample_bus_ok junk(1) k keys junk(2) evs]
  show ?thesis unfolding ws plan by blast
qed

end
