(* ===== verification/Bytes.thy ===== *)
theory Bytes
  imports Multiboot
begin

text \<open>
  Little-endian stores into the byte memory, against the loads of \<open>Multiboot\<close>: the bytes of a value, storing
  the low bytes of one, what is read back, and blocks of quadwords. Shared by the theories that look at
  data structures as bytes; nothing here models a source function.
\<close>

section \<open>Storing and loading\<close>

definition byte :: "u64 \<Rightarrow> nat \<Rightarrow> u8" where
  "byte v i = ucast (drop_bit (8 * i) v)"

definition fill :: "memory \<Rightarrow> u64 \<Rightarrow> nat \<Rightarrow> u64 \<Rightarrow> memory" where
  "fill m a n v = fold (\<lambda>i m. m(a + of_nat i := byte v i)) [0..<n] m"

lemma fill_byte:
  assumes "n < 2 ^ 64"
  shows "fill m a n v b = (if unat (b - a) < n then byte v (unat (b - a)) else m b)"
  using assms
proof (induction n)
  case 0
  then show ?case by (simp add: fill_def)
next
  case (Suc n)
  have "b = a + of_nat n \<longleftrightarrow> unat (b - a) = n"
    using Suc.prems by (auto simp: unat_of_nat_u64 algebra_simps dest: sym)
  moreover have "fill m a (Suc n) v b = (if b = a + of_nat n then byte v n else fill m a n v b)"
    by (simp add: fill_def)
  ultimately show ?case using Suc by (auto simp: less_Suc_eq)
qed

lemma ld32_bytes:
  assumes "\<And>i. i < 4 \<Longrightarrow> m (a + of_nat i) = byte v i"
  shows "ld32 m a = ucast v"
proof -
  have bytes: "m a = byte v 0" "m (a + 1) = byte v 1" "m (a + 2) = byte v 2" "m (a + 3) = byte v 3"
    using assms [of 0] assms [of 1] assms [of 2] assms [of 3] by simp_all
  show ?thesis
  proof (rule bit_word_eqI)
    fix n assume "n < LENGTH(32)"
    then consider "n < 8" | "8 \<le> n" "n < 16" | "16 \<le> n" "n < 24" | "24 \<le> n" "n < 32" by force
    then show "bit (ld32 m a) n = bit (ucast v :: u32) n"
      by cases (auto simp: ld32_def bytes byte_def bit_or_iff bit_push_bit_iff bit_ucast_iff bit_drop_bit_eq)
  qed
qed

lemma byte_drop: "byte (drop_bit 32 v) i = byte v (i + 4)"
  by (simp add: byte_def algebra_simps)

lemma ld64_bytes:
  assumes "\<And>i. i < 8 \<Longrightarrow> m (a + of_nat i) = byte v i"
  shows "ld64 m a = v"
proof -
  have "ld32 m a = ucast v" by (rule ld32_bytes) (use assms in simp)
  moreover have "ld32 m (a + 4) = ucast (drop_bit 32 v)"
  proof (rule ld32_bytes)
    fix i :: nat assume "i < 4"
    then show "m (a + 4 + of_nat i) = byte (drop_bit 32 v) i" using assms [of "i + 4"] by (simp add: byte_drop ac_simps)
  qed
  ultimately show ?thesis
    unfolding ld64_def by (intro bit_word_eqI) (auto simp: bit_or_iff bit_push_bit_iff bit_ucast_iff bit_drop_bit_eq)
qed

text \<open>From address \<open>a\<close> on, memory holds the quadwords \<open>f\<close>.\<close>

definition holds :: "memory \<Rightarrow> u64 \<Rightarrow> nat \<Rightarrow> (nat \<Rightarrow> u64) \<Rightarrow> bool" where
  "holds m a n f \<longleftrightarrow> (\<forall>i<8 * n. m (a + of_nat i) = byte (f (i div 8)) (i mod 8))"

lemma holds_quad:
  assumes "holds m a n f" and "q < n"
  shows "ld64 m (a + 8 * of_nat q) = f q"
proof (rule ld64_bytes)
  fix i :: nat assume "i < 8"
  then have "(8 * q + i) div 8 = q" "(8 * q + i) mod 8 = i" "8 * q + i < 8 * n" using assms(2) by simp_all
  moreover have "a + 8 * of_nat q + of_nat i = a + of_nat (8 * q + i)" by simp
  ultimately show "m (a + 8 * of_nat q + of_nat i) = byte (f q) i"
    using assms(1) unfolding holds_def by metis
qed

lemma byte_zero [simp]: "byte 0 i = 0" by (simp add: byte_def)

lemma byte_upper: "4 \<le> i \<Longrightarrow> byte (ucast (w :: u32)) i = 0"
  by (rule bit_word_eqI) (auto simp: byte_def bit_simps dest: bit_imp_le_length)

lemma holds_put:
  assumes "holds m a n f" and "q < n" and "n < 2 ^ 32" and "f q = 0"
  shows "holds (fill m (a + 8 * of_nat q) 4 (ucast (w :: u32))) a n (f(q := ucast w))"
  unfolding holds_def
proof (intro allI impI)
  fix i :: nat assume i: "i < 8 * n"
  let ?b = "a + of_nat i" and ?a = "a + 8 * of_nat q"
  have old: "m ?b = byte (f (i div 8)) (i mod 8)" using assms(1) i by (simp add: holds_def)
  have stored: "fill m ?a 4 (ucast w) ?b = (if unat (?b - ?a) < 4 then byte (ucast w) (unat (?b - ?a)) else m ?b)"
    by (rule fill_byte) simp
  show "fill m ?a 4 (ucast w) ?b = byte ((f(q := ucast w)) (i div 8)) (i mod 8)"
  proof (cases "8 * q \<le> i")
    case True
    have "?b - ?a = of_nat (i - 8 * q)" using True by (simp add: of_nat_diff)
    moreover have "i - 8 * q < 2 ^ 64" using i assms(3) by simp
    ultimately have d: "unat (?b - ?a) = i - 8 * q" by (simp add: unat_of_nat_u64)
    show ?thesis
    proof (cases "i div 8 = q")
      case inside: True
      then have off: "i - 8 * q = i mod 8" by (simp add: minus_mult_div_eq_mod [symmetric] mult.commute)
      have "m ?b = 0" unfolding old inside assms(4) by simp
      moreover have "byte (ucast w) (i mod 8) = 0" if "\<not> i mod 8 < 4" by (rule byte_upper) (use that in simp)
      ultimately show ?thesis unfolding stored d off inside fun_upd_same by presburger
    next
      case False
      have "\<not> i < 8 * Suc q" using div_nat_eqI [of 8 q i] True False by blast
      then have "\<not> i - 8 * q < 4" by simp
      with False show ?thesis unfolding stored d using old by auto
    qed
  next
    case False
    define d where "d = 8 * q - i"
    have d: "0 < d" "d < 2 ^ 35" using False assms(2,3) by (simp_all add: d_def)
    have "?a - ?b = of_nat d" using False by (simp add: of_nat_diff d_def)
    then have diff: "?b - ?a = - of_nat d" by (metis minus_diff_eq)
    have "\<not> unat (?b - ?a) < 4"
    proof
      assume "unat (?b - ?a) < 4"
      moreover have "unat (of_nat d :: u64) = d" using d by (intro unat_of_nat_u64) simp
      ultimately have "unat (of_nat d + (?b - ?a)) = d + unat (?b - ?a)"
        using d(2) by (subst unat_word_ariths) simp
      then show False using diff d(1) by simp
    qed
    moreover have "i div 8 \<noteq> q" using False times_div_less_eq_dividend [of 8 i] by auto
    ultimately show ?thesis unfolding stored using old by auto
  qed
qed

end
