(* ===== verification/Start.thy ===== *)
theory Start
  imports Paging Bytes
begin

text \<open>
  The entry of the kernel, \<open>boot/boot.s\<close>: the header the boot loader looks for, and the code from the 32-bit
  entry point to the call of \<open>kernel_main\<close> on a model of the processor (registers, control registers, descriptor
  loads, page walk, faults). Instructions are run one by one; a step that the processor refuses is a
  fault. The theorems: the code reaches \<open>kernel_main\<close> in 64-bit mode, and the tables it leaves in memory are those
  that \<open>Paging\<close> works on.
\<close>

section \<open>The multiboot header\<close>

definition le :: "nat \<Rightarrow> u32 \<Rightarrow> u8 list" where
  "le n w = map (\<lambda>i. ucast (drop_bit (8 * i) w)) [0..<n]"

definition MB2_MAGIC :: u32 where "MB2_MAGIC = 0xE85250D6"
definition MB2_ARCH :: u32 where "MB2_ARCH = 0"

text \<open>\<open>.align 8\<close>: zero bytes up to a multiple of eight.\<close>

definition align8 :: "u8 list \<Rightarrow> u8 list" where
  "align8 bs = bs @ replicate (length bs * 7 mod 8) 0"

definition mb2_tags :: "u8 list" where
  "mb2_tags = align8 (le 2 5 @ le 2 0 @ le 4 20 @ le 4 0 @ le 4 0 @ le 4 0) @ le 2 0 @ le 2 0 @ le 4 8"

definition mb2_header :: "u8 list" where
  "mb2_header =
    (let size = of_nat (16 + length mb2_tags)
     in le 4 MB2_MAGIC @ le 4 MB2_ARCH @ le 4 size @ le 4 (- (MB2_MAGIC + MB2_ARCH + size)) @ mb2_tags)"

section \<open>The processor\<close>

datatype r32 = EAX | EBX | ECX | EDX | ESI | EDI | ESP
datatype creg = CR0 | CR3 | CR4
datatype seg = DS | ES | FS | GS | SS

datatype cpu_fault = General_protection | Page_fault

text \<open>
  \<open>gpr\<close> are the low halves of the registers; \<open>upper\<close> is what 64-bit code will find in the upper
  halves, which are undefined as long as 32-bit code runs.
  \<open>ip\<close> counts instructions, \<open>was_less\<close> is the outcome of the last comparison, \<open>long_code\<close> says that
  the code segment is a 64-bit one.
\<close>

record start_cpu =
  gpr :: "r32 \<Rightarrow> u32"
  upper :: "r32 \<Rightarrow> u32"
  cr :: "creg \<Rightarrow> u32"
  efer :: u64
  gdtr_limit :: u16
  gdtr_base :: u32
  code_seg :: u16
  data_seg :: "seg \<Rightarrow> u16"
  long_code :: bool
  was_less :: bool
  ip :: nat
  ram :: memory

text \<open>
  The page walk of 64-bit mode: four levels, with pages of 1 GiB and 2 MiB (bit 7) on the way; only
  canonical addresses translate.
\<close>

definition frame_of :: "u64 \<Rightarrow> u64" where
  "frame_of e = take_bit 52 e AND NOT (mask 12)"

definition entry :: "memory \<Rightarrow> u64 \<Rightarrow> nat \<Rightarrow> u64 \<Rightarrow> u64" where
  "entry m table shift va = ld64 m (table + 8 * (drop_bit shift va AND 0x1FF))"

definition page_of :: "nat \<Rightarrow> u64 \<Rightarrow> u64 \<Rightarrow> u64" where
  "page_of k e va = (take_bit 52 e AND NOT (mask k)) OR (va AND mask k)"

definition walk :: "memory \<Rightarrow> u64 \<Rightarrow> u64 \<Rightarrow> u64 option" where
  "walk m cr3 va =
    (if signed_take_bit 47 va \<noteq> va then None
     else let e4 = entry m (frame_of cr3) 39 va in
     if \<not> bit e4 0 then None
     else let e3 = entry m (frame_of e4) 30 va in
     if \<not> bit e3 0 then None else if bit e3 7 then Some (page_of 30 e3 va)
     else let e2 = entry m (frame_of e3) 21 va in
     if \<not> bit e2 0 then None else if bit e2 7 then Some (page_of 21 e2 va)
     else let e1 = entry m (frame_of e2) 12 va in
     if \<not> bit e1 0 then None else Some (page_of 12 e1 va))"

text \<open>
  The physical address: paging is switched by bit 31 of CR0. Paging outside long mode (bit 10 of EFER) or with five levels
  (bit 12 of CR4) does not occur here and counts as not mapped.
\<close>

definition phys :: "start_cpu \<Rightarrow> u64 \<Rightarrow> u64 option" where
  "phys c a =
    (if \<not> bit (cr c CR0) 31 then Some a
     else if bit (efer c) 10 \<and> \<not> bit (cr c CR4) 12 then walk (ram c) (ucast (cr c CR3)) a else None)"

definition mapped :: "start_cpu \<Rightarrow> u64 \<Rightarrow> nat \<Rightarrow> bool" where
  "mapped c a n = list_all (\<lambda>i. phys c (a + of_nat i) \<noteq> None) [0..<n]"

definition view :: "start_cpu \<Rightarrow> memory" where
  "view c = (\<lambda>a. case phys c a of None \<Rightarrow> 0 | Some p \<Rightarrow> ram c p)"

text \<open>Storing the low \<open>n\<close> bytes of a value.\<close>

definition put_bytes :: "start_cpu \<Rightarrow> u64 \<Rightarrow> nat \<Rightarrow> u64 \<Rightarrow> cpu_fault + start_cpu" where
  "put_bytes c a n v =
    (if mapped c a n
     then Inr (c\<lparr>ram := fold (\<lambda>i m. m(the (phys c (a + of_nat i)) := ucast (drop_bit (8 * i) v))) [0..<n] (ram c)\<rparr>)
     else Inl Page_fault)"

definition ld16 :: "memory \<Rightarrow> u64 \<Rightarrow> u16" where
  "ld16 m a = ucast (m a) OR push_bit 8 (ucast (m (a + 1)))"

text \<open>
  The descriptor of a selector in the global table: not the null one, within the limit, mapped, present
  (bit 47) and a code or data segment (bit 44) of privilege 0.
\<close>

definition descriptor :: "start_cpu \<Rightarrow> u16 \<Rightarrow> u64 option" where
  "descriptor c sel =
    (let at = ucast (gdtr_base c) + ucast (sel AND NOT 7) :: u64; d = ld64 (view c) at in
     if sel AND NOT 7 = 0 \<or> sel AND 7 \<noteq> 0 \<or> gdtr_limit c < (sel AND NOT 7) + 7 \<or> \<not> mapped c at 8
       \<or> \<not> bit d 47 \<or> \<not> bit d 44 \<or> bit d 45 \<or> bit d 46
     then None else Some d)"

text \<open>A whole register, as 64-bit code sees it.\<close>

definition reg64 :: "r32 \<Rightarrow> start_cpu \<Rightarrow> u64" where
  "reg64 r c = push_bit 32 (ucast (upper c r)) OR ucast (gpr c r)"

section \<open>Instructions\<close>

text \<open>
  In the operand order of the source. Labels are numbers of instructions, addresses those of the linker.
  \<open>Movw_ax\<close> and what follows it runs in 64-bit mode; \<open>Call_kernel_main\<close> is where the model ends.
\<close>

datatype start_instr =
    Movl_imm u32 r32 | Movl r32 r32 | Orl u32 r32 | Sall nat r32 | Incl r32
  | Cmpl u32 r32 | Jge nat | Jmp nat
  | Movl_to r32 u32 | Movl_to_ix r32 u32 r32
  | Movl_from_cr creg r32 | Movl_to_cr r32 creg | Rdmsr | Wrmsr | Lgdt u32 | Ljmp u16 nat
  | Movw_ax u16 | Mov_seg seg | Movq_rsp u32 | Call_kernel_main u32

definition next_ip :: "start_cpu \<Rightarrow> start_cpu" where
  "next_ip c = c\<lparr>ip := Suc (ip c)\<rparr>"

definition set_gpr :: "r32 \<Rightarrow> u32 \<Rightarrow> start_cpu \<Rightarrow> start_cpu" where
  "set_gpr r v c = next_ip (c\<lparr>gpr := (gpr c)(r := v)\<rparr>)"

text \<open>
  Switching paging on needs protected mode (bit 0 of CR0); with long mode enabled (bit 8 of EFER) it also needs
  PAE (bit 5 of CR4), and then activates long mode (bit 10 of EFER).
\<close>

definition set_cr0 :: "u32 \<Rightarrow> start_cpu \<Rightarrow> cpu_fault + start_cpu" where
  "set_cr0 v c =
    (if bit v 31 \<and> (\<not> bit v 0 \<or> bit (efer c) 8 \<and> \<not> bit (cr c CR4) 5) then Inl General_protection
     else Inr (next_ip (c\<lparr>cr := (cr c)(CR0 := v),
       efer := if bit v 31 \<and> bit (efer c) 8 then set_bit 10 (efer c) else unset_bit 10 (efer c)\<rparr>)))"

definition EFER :: u32 where "EFER = 0xC0000080"

fun exec_start :: "start_instr \<Rightarrow> start_cpu \<Rightarrow> cpu_fault + start_cpu" where
  "exec_start (Movl_imm n r) c = Inr (set_gpr r n c)"
| "exec_start (Movl s r) c = Inr (set_gpr r (gpr c s) c)"
| "exec_start (Orl n r) c = Inr (set_gpr r (gpr c r OR n) c)"
| "exec_start (Sall n r) c = Inr (set_gpr r (push_bit n (gpr c r)) c)"
| "exec_start (Incl r) c = Inr (set_gpr r (gpr c r + 1) c)"
| "exec_start (Cmpl n r) c = Inr (next_ip (c\<lparr>was_less := sint (gpr c r) < sint n\<rparr>))"
| "exec_start (Jge l) c = Inr (if was_less c then next_ip c else c\<lparr>ip := l\<rparr>)"
| "exec_start (Jmp l) c = Inr (c\<lparr>ip := l\<rparr>)"
| "exec_start (Movl_to s a) c = map_sum id next_ip (put_bytes c (ucast a) 4 (ucast (gpr c s)))"
| "exec_start (Movl_to_ix s a r) c = map_sum id next_ip (put_bytes c (ucast (a + gpr c r * 8)) 4 (ucast (gpr c s)))"
| "exec_start (Movl_from_cr x r) c = Inr (set_gpr r (cr c x) c)"
| "exec_start (Movl_to_cr r x) c =
    (if x = CR0 then set_cr0 (gpr c r) c else Inr (next_ip (c\<lparr>cr := (cr c)(x := gpr c r)\<rparr>)))"
| "exec_start Rdmsr c =
    (if gpr c ECX \<noteq> EFER then Inl General_protection
     else Inr (next_ip (c\<lparr>gpr := (gpr c)(EAX := ucast (efer c), EDX := ucast (drop_bit 32 (efer c)))\<rparr>)))"
| "exec_start Wrmsr c =
    (let v = push_bit 32 (ucast (gpr c EDX)) OR ucast (gpr c EAX) :: u64 in
     if gpr c ECX \<noteq> EFER \<or> bit (cr c CR0) 31 \<and> bit v 8 \<noteq> bit (efer c) 8 then Inl General_protection
     else Inr (next_ip (c\<lparr>efer := if bit (efer c) 10 then set_bit 10 v else unset_bit 10 v\<rparr>)))"
| "exec_start (Lgdt a) c =
    (if mapped c (ucast a) 6
     then Inr (next_ip (c\<lparr>gdtr_limit := ld16 (view c) (ucast a), gdtr_base := ld32 (view c) (ucast a + 2)\<rparr>))
     else Inl Page_fault)"
| "exec_start (Ljmp sel l) c =
    (case descriptor c sel of
       None \<Rightarrow> Inl General_protection
     | Some d \<Rightarrow>
         if \<not> bit d 43 \<or> bit (efer c) 10 \<and> bit d 53 \<and> bit d 54 then Inl General_protection
         else Inr (c\<lparr>code_seg := sel, long_code := bit (efer c) 10 \<and> bit d 53, ip := l\<rparr>))"
| "exec_start (Movw_ax n) c = Inr (set_gpr EAX ((gpr c EAX AND NOT (mask 16)) OR ucast n) c)"
| "exec_start (Mov_seg s) c =
    (case descriptor c (ucast (gpr c EAX)) of
       None \<Rightarrow> Inl General_protection
     | Some d \<Rightarrow>
         if bit d 43 \<or> \<not> bit d 41 then Inl General_protection
         else Inr (next_ip (c\<lparr>data_seg := (data_seg c)(s := ucast (gpr c EAX))\<rparr>)))"
| "exec_start (Movq_rsp n) c = Inr (set_gpr ESP n (c\<lparr>upper := (upper c)(ESP := ucast (drop_bit 32 (scast n :: u64)))\<rparr>))"
| "exec_start (Call_kernel_main return) c =
    (let sp = reg64 ESP c - 8 :: u64
     in map_sum id (\<lambda>c. set_gpr ESP (ucast sp) (c\<lparr>upper := (upper c)(ESP := ucast (drop_bit 32 sp))\<rparr>))
          (put_bytes c sp 8 (ucast return)))"

section \<open>The code of \<open>_start\<close>\<close>

text \<open>
  The addresses the linker chooses: \<open>stack_bottom\<close> and \<open>tables\<close> (\<open>pml4\<close>) in \<open>.bss\<close>, \<open>gdt64\<close> in \<open>.data\<close>, and
  those of the instructions.
\<close>

record labels =
  stack_bottom :: u32
  tables :: u32
  gdt64 :: u32
  code_at :: "nat \<Rightarrow> u32"

definition stack_top :: "labels \<Rightarrow> u32" where "stack_top L = stack_bottom L + 16384"
definition pdpt_at :: "labels \<Rightarrow> u32" where "pdpt_at L = tables L + 4096"
definition pd_at :: "labels \<Rightarrow> u32" where "pd_at L = tables L + 8192"
definition fb_pd_at :: "labels \<Rightarrow> u32" where "fb_pd_at L = tables L + 12288"
definition gdt64_ptr :: "labels \<Rightarrow> u32" where "gdt64_ptr L = gdt64 L + 24"

definition gdt :: "u64 list" where
  "gdt = [0, 0x00AF9A000000FFFF, 0x00CF92000000FFFF]"

definition start_code :: "labels \<Rightarrow> start_instr list" where
  "start_code L =
    [Movl_imm (stack_top L) ESP, Movl EAX EDI, Movl EBX ESI,
     Movl_imm (pdpt_at L) EAX, Orl 0x3 EAX, Movl_to EAX (tables L),
     Movl_imm (pd_at L) EAX, Orl 0x3 EAX, Movl_to EAX (pdpt_at L),
     Movl_imm 0 EAX,
     \<comment> \<open>\<open>l1\<close>\<close> Cmpl 512 EAX, Jge 18, Movl EAX EBX, Sall 21 EBX, Orl 0x83 EBX, Movl_to_ix EBX (pd_at L) EAX, Incl EAX, Jmp 10,
     \<comment> \<open>\<open>l1end\<close>\<close> Movl_from_cr CR4 EAX, Orl 0x20 EAX, Movl_to_cr EAX CR4,
     Movl_imm (tables L) EAX, Movl_to_cr EAX CR3,
     Movl_imm EFER ECX, Rdmsr, Orl 0x100 EAX, Wrmsr,
     Movl_from_cr CR0 EAX, Orl 0x80000000 EAX, Movl_to_cr EAX CR0,
     Lgdt (gdt64_ptr L), Ljmp 0x08 32,
     \<comment> \<open>\<open>.flush\<close>\<close> Movw_ax 0x10, Mov_seg DS, Mov_seg ES, Mov_seg FS, Mov_seg GS, Mov_seg SS,
     Movq_rsp (stack_top L), Call_kernel_main (code_at L 40)]"

text \<open>
  One step: the instruction is fetched through the page tables, where its address must lead to
  itself, the place the kernel was loaded to. The run ends with the call of \<open>kernel_main\<close>.
\<close>

definition start_step :: "labels \<Rightarrow> start_cpu \<Rightarrow> cpu_fault + start_cpu" where
  "start_step L c =
    (let a = ucast (code_at L (ip c)) in
     if phys c a = Some a then exec_start (start_code L ! ip c) c else Inl Page_fault)"

partial_function (option) start_run :: "labels \<Rightarrow> start_cpu \<Rightarrow> (cpu_fault + start_cpu) option" where
  "start_run L c =
    (if ip c \<ge> length (start_code L) then Some (Inr c)
     else case start_step L c of Inl e \<Rightarrow> Some (Inl e) | Inr c' \<Rightarrow> start_run L c')"

section \<open>Stores\<close>

lemma put_bytes_through:
  assumes "\<And>i. i < n \<Longrightarrow> phys c (a + of_nat i) = Some (a + of_nat i)"
  shows "put_bytes c a n v = Inr (c\<lparr>ram := fill (ram c) a n v\<rparr>)"
proof -
  have "mapped c a n" using assms by (simp add: mapped_def list_all_iff)
  moreover have "fold (\<lambda>i m. m(the (phys c (a + of_nat i)) := ucast (drop_bit (8 * i) v))) [0..<n] (ram c) = fill (ram c) a n v"
    unfolding fill_def byte_def by (rule fold_cong) (use assms in simp_all)
  ultimately show ?thesis by (simp add: put_bytes_def)
qed

section \<open>The tables in memory and the tables of the mapping code\<close>

text \<open>
  The four tables as quadwords from \<open>pml4\<close> on, for a state of the tables that \<open>Paging\<close> works on: \<open>pml4\<close> refers to \<open>pdpt\<close>
  and to nothing else.
\<close>

definition table_quads :: "u64 \<Rightarrow> page_tables \<Rightarrow> nat \<Rightarrow> u64" where
  "table_quads pml pt q =
    (if q < 512 then if q = 0 then (pml + 4096) OR 3 else 0
     else if q < 1024 then pdpt pt ! (q - 512)
     else if q < 1536 then pd pt ! (q - 1024)
     else fb_pd pt ! (q - 1536))"

definition tables_at :: "memory \<Rightarrow> u64 \<Rightarrow> page_tables \<Rightarrow> bool" where
  "tables_at m pml pt \<longleftrightarrow> holds m pml 2048 (table_quads pml pt) \<and> tables_ok pt
    \<and> pd_addr pt = pml + 8192 \<and> fb_pd_addr pt = pml + 12288"

text \<open>A memory that holds given tables.\<close>

definition table_memory :: "u64 \<Rightarrow> page_tables \<Rightarrow> memory" where
  "table_memory pml pt = (\<lambda>a. byte (table_quads pml pt (unat (a - pml) div 8)) (unat (a - pml) mod 8))"

lemma table_memory_holds:
  assumes "tables_ok pt" and "pd_addr pt = pml + 8192" and "fb_pd_addr pt = pml + 12288"
  shows "tables_at (table_memory pml pt) pml pt"
  using assms by (simp add: tables_at_def holds_def table_memory_def unat_of_nat_u64)

text \<open>Entries the two-level view of \<open>Paging\<close> is enough for: directories, no 1 GiB pages, no page tables below.\<close>

definition two_level :: "page_tables \<Rightarrow> bool" where
  "two_level pt \<longleftrightarrow>
    (\<forall>e \<in> set (pdpt pt). take_bit 52 e = e \<and> (bit e 0 \<longrightarrow> \<not> bit e 7 \<and> e AND NOT (mask 12) \<in> {pd_addr pt, fb_pd_addr pt}))
    \<and> (\<forall>e \<in> set (pd pt) \<union> set (fb_pd pt). take_bit 52 e = e \<and> (bit e 0 \<longrightarrow> bit e 7))"

lemma index9: "drop_bit k va AND 0x1FF = of_nat (unat va div 2 ^ k mod 512)" for va :: u64
proof -
  have "drop_bit k va AND 0x1FF = take_bit 9 (drop_bit k va)"
    by (simp add: take_bit_eq_mask mask_eq_exp_minus_1)
  also have "\<dots> = of_nat (unat (take_bit 9 (drop_bit k va)))" by simp
  also have "unat (take_bit 9 (drop_bit k va)) = unat va div 2 ^ k mod 512"
    by (simp only: unsigned_take_bit_eq unat_drop_bit) (simp add: take_bit_eq_mod)
  finally show ?thesis .
qed

lemma aligned_iff: "w AND mask 12 = 0 \<longleftrightarrow> unat (w :: u64) mod 4096 = 0"
  by (simp add: word_unat_eq_iff unat_mod take_bit_eq_mod flip: take_bit_eq_mask)

lemma page_aligned:
  fixes a :: u64
  assumes "a AND mask 12 = 0" and "n mod 4096 = 0"
  shows "(a + of_nat n) AND mask 12 = 0"
proof -
  have "unat (a + of_nat n) mod 4096 = (unat a + n) mod 4096"
    by (simp add: unat_word_ariths unsigned_of_nat take_bit_eq_mod mod_mod_cancel mod_add_right_eq)
  moreover have "(unat a + n) mod 4096 = 0"
    using mod_add_eq [of "unat a" 4096 n] assms by (simp add: aligned_iff)
  ultimately show ?thesis by (simp only: aligned_iff)
qed

lemma take_bit_small: "unat (w :: 'a::len word) < 2 ^ k \<Longrightarrow> take_bit k w = w"
  by (simp add: word_unat_eq_iff unsigned_take_bit_eq take_bit_nat_eq_self)

lemma frame_of_ref:
  assumes "a AND mask 12 = 0" and "unat a < 2 ^ 52"
  shows "frame_of (a OR 3) = a" and "frame_of a = a"
proof -
  have "take_bit 52 a = a" using assms(2) by (rule take_bit_small)
  then show "frame_of (a OR 3) = a" using table_ref(2) [OF assms(1)] by (simp add: frame_of_def take_bit_or)
  have "a AND NOT (mask 12) = a"
  proof (rule bit_word_eqI)
    fix n assume "n < LENGTH(64)"
    have "bit (a AND mask 12) n = False" using assms(1) by simp
    with \<open>n < LENGTH(64)\<close> show "bit (a AND NOT (mask 12)) n = bit a n" by (auto simp: bit_simps)
  qed
  with \<open>take_bit 52 a = a\<close> show "frame_of a = a" by (simp add: frame_of_def)
qed

lemma walk_translate:
  assumes "tables_at m pml pt" and "two_level pt" and "pml AND mask 12 = 0" and "unat pml < 2 ^ 51" and "unat va < 2 ^ 47"
  shows "walk m pml va = translate pt va"
proof -
  have tab: "holds m pml 2048 (table_quads pml pt)" "pd_addr pt = pml + 8192" "fb_pd_addr pt = pml + 12288"
    "length (pdpt pt) = 512" "length (pd pt) = 512" "length (fb_pd pt) = 512"
    using assms(1) by (simp_all add: tables_at_def tables_ok_def)
  have "\<not> bit va 47"
    using bit_below [OF assms(5), of 47] by blast
  then have canonical: "signed_take_bit 47 va = va"
    using take_bit_small [OF assms(5)] by (simp add: signed_take_bit_eq_if_positive)
  have page: "(pml + of_nat n) AND mask 12 = 0 \<and> unat (pml + of_nat n) < 2 ^ 52" if "n mod 4096 = 0" "n < 2 ^ 20" for n
  proof -
    have "unat (of_nat n :: u64) = n" using that(2) by (intro unat_of_nat_u64) simp
    then have "unat (pml + of_nat n) = unat pml + n" using assms(4) that(2) by (simp add: unat_word_ariths)
    with that(2) assms(4) page_aligned [OF assms(3) that(1)] show ?thesis by simp
  qed
  have quad: "entry m (pml + 4096 * of_nat t) k va = table_quads pml pt (512 * t + unat va div 2 ^ k mod 512)" if "t < 4" for t k
  proof -
    have "512 * t + unat va div 2 ^ k mod 512 < 2048" using that by (cases "t = 3") auto
    from holds_quad [OF tab(1) this] show ?thesis by (simp add: entry_def index9 algebra_simps)
  qed
  let ?i4 = "unat va div 2 ^ 39 mod 512" and ?i3 = "unat va div 2 ^ 30 mod 512" and ?i2 = "unat va div 2 ^ 21 mod 512"
  have e4: "entry m (frame_of pml) 39 va = (if ?i4 = 0 then (pml + 4096) OR 3 else 0)"
    using quad [of 0 39] frame_of_ref(2) [OF assms(3)] assms(4) by (simp add: table_quads_def)
  show ?thesis
  proof (cases "2 ^ 39 \<le> unat va")
    case True
    then have "1 \<le> unat va div 2 ^ 39" using div_le_mono [OF True, of "2 ^ 39"] by simp
    moreover have "unat va div 2 ^ 39 < 256" using assms(5) by (simp add: less_mult_imp_div_less)
    ultimately have "?i4 \<noteq> 0" by simp
    with True e4 canonical show ?thesis by (simp add: walk_def translate_def)
  next
    case False
    then have "?i4 = 0" by simp
    have "unat va div 2 ^ 30 < 512" using False by (simp add: less_mult_imp_div_less)
    then have i3: "?i3 = unat va div 2 ^ 30" "unat va div 2 ^ 30 < 512" by simp_all
    have f4: "frame_of ((pml + 4096) OR 3) = pml + 4096" using frame_of_ref(1) page [of 4096] by simp
    let ?e3 = "pdpt pt ! (unat va div 2 ^ 30)"
    have e3: "entry m (pml + 4096) 30 va = ?e3"
      using quad [of 1 30] i3 by (simp add: table_quads_def)
    have ok3: "take_bit 52 ?e3 = ?e3" "bit ?e3 0 \<Longrightarrow> \<not> bit ?e3 7"
      "bit ?e3 0 \<Longrightarrow> ?e3 AND NOT (mask 12) = pd_addr pt \<or> ?e3 AND NOT (mask 12) = fb_pd_addr pt"
      using assms(2) i3(2) tab(4) by (auto simp: two_level_def)
    have e2: "entry m (pd_addr pt) 21 va = pd pt ! ?i2" "entry m (fb_pd_addr pt) 21 va = fb_pd pt ! ?i2"
      using quad [of 2 21] quad [of 3 21] by (simp_all add: table_quads_def tab(2,3))
    have ok2: "take_bit 52 (pd pt ! ?i2) = pd pt ! ?i2" "take_bit 52 (fb_pd pt ! ?i2) = fb_pd pt ! ?i2"
      "bit (pd pt ! ?i2) 0 \<Longrightarrow> bit (pd pt ! ?i2) 7" "bit (fb_pd pt ! ?i2) 0 \<Longrightarrow> bit (fb_pd pt ! ?i2) 7"
      using assms(2) tab(5,6) by (simp_all add: two_level_def)
    have differ: "pd_addr pt \<noteq> fb_pd_addr pt" using assms(1) by (simp add: tables_at_def tables_ok_def)
    have low: "bit ((pml + 4096) OR 3) 0" by (simp add: bit_or_iff)
    show ?thesis
    proof (cases "bit ?e3 0")
      case absent: False
      then show ?thesis using False canonical
        by (simp add: walk_def translate_def e4 \<open>?i4 = 0\<close> f4 e3 low Let_def)
    next
      case True
      have frame: "frame_of ?e3 = ?e3 AND NOT (mask 12)" by (simp only: frame_of_def ok3(1))
      from True ok3(3) consider "?e3 AND NOT (mask 12) = pd_addr pt" | "?e3 AND NOT (mask 12) = fb_pd_addr pt" by blast
      then show ?thesis
      proof cases
        case 1
        then have "frame_of ?e3 = pd_addr pt" using frame by simp
        with 1 show ?thesis using False True canonical ok3(2) ok2 differ e3 e2
          by (simp add: walk_def translate_def directory_def e4 \<open>?i4 = 0\<close> f4 low Let_def page_of_def)
      next
        case 2
        then have "frame_of ?e3 = fb_pd_addr pt" using frame by simp
        with 2 show ?thesis using False True canonical ok3(2) ok2 differ e3 e2
          by (simp add: walk_def translate_def directory_def e4 \<open>?i4 = 0\<close> f4 low Let_def page_of_def)
      qed
    qed
  qed
qed

section \<open>What the loader leaves, and what \<open>kernel_main\<close> finds\<close>

text \<open>
  The sections in the order of the linker script: code, data (the segment table), then zeroed memory with the stack
  below the tables; all of it in the first GiB.
\<close>

definition layout_ok :: "labels \<Rightarrow> bool" where
  "layout_ok L \<longleftrightarrow> (\<forall>i\<le>40. unat (code_at L i) < unat (gdt64 L))
    \<and> unat (gdt64 L) + 30 \<le> unat (stack_bottom L) \<and> unat (stack_bottom L) + 16384 \<le> unat (tables L)
    \<and> unat (stack_bottom L) mod 16 = 0 \<and> unat (tables L) mod 4096 = 0 \<and> unat (tables L) + 16384 \<le> 2 ^ 30"

definition pml4 :: "labels \<Rightarrow> u64" where "pml4 L = ucast (tables L)"

definition image_ok :: "labels \<Rightarrow> memory \<Rightarrow> bool" where
  "image_ok L m \<longleftrightarrow> holds m (pml4 L) 2048 (\<lambda>_. 0) \<and> holds m (ucast (gdt64 L)) 3 ((!) gdt)
    \<and> ld16 m (ucast (gdt64_ptr L)) = 23 \<and> ld32 m (ucast (gdt64_ptr L) + 2) = gdt64 L"

text \<open>The machine state of the multiboot specification: protected mode, no paging.\<close>

definition entry_ok :: "labels \<Rightarrow> start_cpu \<Rightarrow> bool" where
  "entry_ok L c \<longleftrightarrow> ip c = 0 \<and> bit (cr c CR0) 0 \<and> \<not> bit (cr c CR0) 31 \<and> \<not> bit (cr c CR4) 12 \<and> \<not> bit (efer c) 10
    \<and> image_ok L (ram c)"

definition first_tables :: "labels \<Rightarrow> page_tables" where
  "first_tables L = boot_tables (ucast (pd_at L)) (ucast (fb_pd_at L))"

definition paged :: "labels \<Rightarrow> start_cpu \<Rightarrow> bool" where
  "paged L c \<longleftrightarrow> bit (cr c CR0) 31 \<and> bit (efer c) 10 \<and> \<not> bit (cr c CR4) 12 \<and> cr c CR3 = tables L
    \<and> tables_at (ram c) (pml4 L) (first_tables L)"

definition at_kernel_main :: "labels \<Rightarrow> start_cpu \<Rightarrow> start_cpu \<Rightarrow> bool" where
  "at_kernel_main L c0 c \<longleftrightarrow> paged L c \<and> long_code c \<and> code_seg c = 0x08 \<and> data_seg c = (\<lambda>_. 0x10)
    \<and> gpr c EDI = gpr c0 EAX \<and> gpr c ESI = gpr c0 EBX \<and> upper c = (upper c0)(ESP := 0)
    \<and> gpr c ESP = stack_top L - 8 \<and> ld64 (ram c) (ucast (stack_top L) - 8) = ucast (code_at L 40)
    \<and> (\<forall>a. ram c a = ram c0 a \<or> unat (stack_top L) - 8 \<le> unat a \<and> unat a < unat (stack_top L)
          \<or> unat (pml4 L) \<le> unat a \<and> unat a < unat (pml4 L) + 16384)"

section \<open>Addresses\<close>

lemma ucast_at:
  assumes "unat (a :: u32) + n < 2 ^ 32"
  shows "ucast (a + of_nat n) = (ucast a + of_nat n :: u64)" and "unat (ucast a + of_nat n :: u64) = unat a + n"
proof -
  have n: "unat (of_nat n :: u32) = n" "unat (of_nat n :: u64) = n"
    using assms by (auto simp: unat_of_nat_u64)
  have a: "unat (ucast a :: u64) = unat a" using unat_less_32 [of a] by (intro unat_ucast_small) simp
  show sum: "unat (ucast a + of_nat n :: u64) = unat a + n"
    using assms n(2) a by (simp add: unat_word_ariths)
  have "unat (a + of_nat n) = unat a + n" using assms n(1) by (simp add: unat_word_ariths)
  moreover from this have "unat (ucast (a + of_nat n) :: u64) = unat a + n"
    using assms by (subst unat_ucast_small) simp_all
  ultimately show "ucast (a + of_nat n) = (ucast a + of_nat n :: u64)" using sum by (simp add: word_unat_eq_iff)
qed

lemma table_addresses:
  assumes "layout_ok L"
  shows "ucast (pdpt_at L) = pml4 L + 4096" "ucast (pd_at L) = pml4 L + 8192" "ucast (fb_pd_at L) = pml4 L + 12288"
    "unat (pml4 L) = unat (tables L)" "pml4 L AND mask 12 = 0"
    "\<And>i. i < 2048 \<Longrightarrow> ucast (tables L + of_nat (8 * i)) = pml4 L + 8 * of_nat i"
proof -
  have small: "unat (tables L) + n < 2 ^ 32" if "n < 16384" for n using assms that by (simp add: layout_ok_def)
  note at = ucast_at(1) [OF small]
  show "ucast (pdpt_at L) = pml4 L + 4096" "ucast (pd_at L) = pml4 L + 8192" "ucast (fb_pd_at L) = pml4 L + 12288"
    using at [of 4096] at [of 8192] at [of 12288] by (simp_all add: pdpt_at_def pd_at_def fb_pd_at_def pml4_def)
  show p: "unat (pml4 L) = unat (tables L)" using ucast_at(2) [OF small, of 0] by (simp add: pml4_def)
  show "pml4 L AND mask 12 = 0" using assms p by (simp add: aligned_iff layout_ok_def)
  show "ucast (tables L + of_nat (8 * i)) = pml4 L + 8 * of_nat i" if "i < 2048" for i
    using at [of "8 * i"] that by (simp add: pml4_def)
qed

lemma first_tables_ok:
  assumes "layout_ok L"
  shows "tables_ok (first_tables L)" "two_level (first_tables L)"
    "pd_addr (first_tables L) = pml4 L + 8192" "fb_pd_addr (first_tables L) = pml4 L + 12288"
proof -
  note t = table_addresses [OF assms]
  have pages: "(pml4 L + 8192) AND mask 12 = 0" "(pml4 L + 12288) AND mask 12 = 0"
    using page_aligned [OF t(5), of 8192] page_aligned [OF t(5), of 12288] by simp_all
  show "tables_ok (first_tables L)" unfolding first_tables_def t(2,3)
    by (rule boot_tables_ok) (use pages in simp_all)
  show "pd_addr (first_tables L) = pml4 L + 8192" "fb_pd_addr (first_tables L) = pml4 L + 12288"
    by (simp_all add: first_tables_def boot_tables_def t(2,3))
  have "unat (pml4 L) + 8192 < 2 ^ 30" using t(4) assms by (simp add: layout_ok_def)
  then have "unat (pml4 L + 8192) = unat (pml4 L) + 8192" by (simp add: unat_word_ariths)
  then have "take_bit 52 (pml4 L + 8192) = pml4 L + 8192"
    using \<open>unat (pml4 L) + 8192 < 2 ^ 30\<close> by (intro take_bit_small) simp
  moreover have "\<not> bit (pml4 L + 8192) 7"
  proof
    assume "bit (pml4 L + 8192) 7"
    then have "bit ((pml4 L + 8192) AND mask 12) 7" by (simp add: bit_simps)
    then show False using pages(1) by simp
  qed
  moreover have "take_bit 52 (of_nat i * 0x200000 :: u64) = of_nat i * 0x200000" if "i < 512" for i
  proof -
    have "unat (of_nat (i * 0x200000) :: u64) = i * 0x200000" using that by (intro unat_of_nat_u64) simp
    then show ?thesis using that by (intro take_bit_small) simp
  qed
  ultimately show "two_level (first_tables L)"
    using table_ref(2) [OF pages(1)]
    by (auto simp: two_level_def first_tables_def boot_tables_def t(2,3) take_bit_or bit_or_iff)
qed

lemma first_tables_phys:
  assumes "layout_ok L" and "paged L c" and "unat va < 2 ^ 47"
  shows "phys c va = translate (first_tables L) va"
proof -
  note t = table_addresses [OF assms(1)]
  have "unat (pml4 L) < 2 ^ 51" using t(4) assms(1) by (simp add: layout_ok_def)
  from walk_translate [OF _ first_tables_ok(2) [OF assms(1)] t(5) this assms(3)] assms(2) show ?thesis
    by (simp add: paged_def phys_def pml4_def)
qed

lemma paged_low:
  assumes "layout_ok L" and "paged L c" and "unat va < 2 ^ 30"
  shows "phys c va = Some va"
proof -
  note ok = first_tables_ok(1,3,4) [OF assms(1)]
  have "translate (first_tables L) va = Some va"
    unfolding first_tables_def
    by (rule boot_translates) (use ok assms(3) in \<open>simp_all add: tables_ok_def first_tables_def boot_tables_def\<close>)
  then show ?thesis using first_tables_phys [OF assms(1,2)] assms(3) by simp
qed

section \<open>Running the code\<close>

text \<open>\<open>steps L n c\<close>: the state after \<open>n\<close> instructions, unless \<open>kernel_main\<close> is reached before.\<close>

fun steps :: "labels \<Rightarrow> nat \<Rightarrow> start_cpu \<Rightarrow> cpu_fault + start_cpu" where
  "steps L 0 c = Inr c"
| "steps L (Suc n) c =
    (if ip c \<ge> 40 then Inr c else case start_step L c of Inl e \<Rightarrow> Inl e | Inr c' \<Rightarrow> steps L n c')"

lemma steps_numeral:
  "steps L (numeral n) c =
    (if ip c \<ge> 40 then Inr c else case start_step L c of Inl e \<Rightarrow> Inl e | Inr c' \<Rightarrow> steps L (pred_numeral n) c')"
  by (simp add: numeral_eq_Suc)

lemma steps_run:
  assumes "steps L n c = Inr c'"
  shows "start_run L c = start_run L c'"
  using assms
proof (induction n arbitrary: c)
  case 0
  then show ?case by simp
next
  case (Suc n)
  have len: "length (start_code L) = 40" by (simp add: start_code_def)
  show ?case
  proof (cases "ip c \<ge> 40")
    case True
    then show ?thesis using Suc.prems by simp
  next
    case False
    then obtain c1 where "start_step L c = Inr c1" "steps L n c1 = Inr c'"
      using Suc.prems by (auto split: sum.splits)
    with Suc.IH False show ?thesis by (subst start_run.simps) (simp add: len)
  qed
qed

text \<open>Stepping without paging.\<close>

lemma unpaged:
  assumes "\<not> bit (cr c CR0) 31"
  shows "phys c a = Some a" and "put_bytes c a n v = Inr (c\<lparr>ram := fill (ram c) a n v\<rparr>)"
    and "start_step L c = exec_start (start_code L ! ip c) c"
  using assms by (simp_all add: phys_def put_bytes_through start_step_def)

text \<open>What the loop that fills \<open>pd\<close> has written after \<open>i\<close> rounds.\<close>

definition loop_quads :: "labels \<Rightarrow> nat \<Rightarrow> nat \<Rightarrow> u64" where
  "loop_quads L i q =
    (if q = 0 then (pml4 L + 4096) OR 3 else if q = 512 then (pml4 L + 8192) OR 3
     else if 1024 \<le> q \<and> q < 1024 + i then of_nat (q - 1024) * 0x200000 OR 0x83 else 0)"

definition in_loop :: "labels \<Rightarrow> start_cpu \<Rightarrow> nat \<Rightarrow> start_cpu \<Rightarrow> bool" where
  "in_loop L c0 i c \<longleftrightarrow> ip c = 10 \<and> gpr c EAX = of_nat i \<and> i \<le> 512 \<and> holds (ram c) (pml4 L) 2048 (loop_quads L i)
    \<and> (\<forall>a. ram c a = ram c0 a \<or> unat (pml4 L) \<le> unat a \<and> unat a < unat (pml4 L) + 16384)
    \<and> cr c = cr c0 \<and> efer c = efer c0 \<and> upper c = upper c0 \<and> gpr c EDI = gpr c0 EAX \<and> gpr c ESI = gpr c0 EBX"

lemma fill_table:
  assumes "layout_ok L" and "q < 2048"
  shows "fill m (pml4 L + 8 * of_nat q) 4 v a = m a \<or> unat (pml4 L) \<le> unat a \<and> unat a < unat (pml4 L) + 16384"
proof -
  let ?p = "pml4 L" and ?q = "8 * of_nat q :: u64"
  have p: "unat ?p + 16384 \<le> 2 ^ 30" using table_addresses(4) [OF assms(1)] assms(1) by (simp add: layout_ok_def)
  have q: "unat ?q = 8 * q" using unat_of_nat_u64 [of "8 * q"] assms(2) by simp
  then have pq: "unat (?p + ?q) = unat ?p + 8 * q" using p assms(2) by (simp add: unat_word_ariths)
  have "unat a = unat (?p + ?q) + unat (a - (?p + ?q))" if "unat (a - (?p + ?q)) < 4"
  proof -
    have "unat ((?p + ?q) + (a - (?p + ?q))) = unat (?p + ?q) + unat (a - (?p + ?q))"
      using pq p assms(2) that by (subst unat_word_ariths) simp
    then show ?thesis by simp
  qed
  then show ?thesis using pq assms(2) by (auto simp: fill_byte)
qed

lemma to_loop:
  assumes "layout_ok L" and "entry_ok L c0"
  shows "\<exists>c. steps L 10 c0 = Inr c \<and> in_loop L c0 0 c"
proof -
  note t = table_addresses [OF assms(1)]
  have z: "holds (ram c0) (pml4 L) 2048 (\<lambda>_. 0)" "\<not> bit (cr c0 CR0) 31" "ip c0 = 0"
    using assms(2) by (simp_all add: entry_ok_def image_ok_def)
  let ?m1 = "fill (ram c0) (pml4 L + 8 * of_nat 0) 4 (ucast (pdpt_at L OR 3))"
  let ?m2 = "fill ?m1 (pml4 L + 8 * of_nat 512) 4 (ucast (pd_at L OR 3))"
  have "holds ?m2 (pml4 L) 2048 ((\<lambda>_. 0)(0 := ucast (pdpt_at L OR 3), 512 := ucast (pd_at L OR 3)))"
    using holds_put [OF holds_put [OF z(1), of 0 "pdpt_at L OR 3"], of 512 "pd_at L OR 3"] by simp
  moreover have "(\<lambda>_. 0)(0 := ucast (pdpt_at L OR 3), 512 := ucast (pd_at L OR 3)) = loop_quads L 0"
    by (auto simp: loop_quads_def fun_eq_iff unsigned_or_eq t(1,2))
  ultimately have m2: "holds ?m2 (pml4 L) 2048 (loop_quads L 0)" by simp
  have outside: "?m2 a = ram c0 a \<or> unat (pml4 L) \<le> unat a \<and> unat a < unat (pml4 L) + 16384" for a
    using fill_table [OF assms(1), of 0 "ram c0" _ a] fill_table [OF assms(1), of 512 ?m1 _ a] by fastforce
  have "\<exists>c. steps L 10 c0 = Inr c \<and> ip c = 10 \<and> gpr c EAX = 0 \<and> ram c = ?m2
    \<and> cr c = cr c0 \<and> efer c = efer c0 \<and> upper c = upper c0 \<and> gpr c EDI = gpr c0 EAX \<and> gpr c ESI = gpr c0 EBX"
    using z(2,3) t(1)
    by (simp add: steps_numeral unpaged start_code_def set_gpr_def next_ip_def pml4_def)
  then show ?thesis using m2 outside by (auto simp: in_loop_def)
qed

text \<open>One round writes one entry.\<close>

lemma pd_entry:
  assumes "i < 512"
  shows "ucast (push_bit 21 (of_nat i) OR 0x83 :: u32) = (of_nat i * 0x200000 OR 0x83 :: u64)"
proof -
  have "push_bit 21 (of_nat i) = (of_nat (i * 0x200000) :: u32)" by (simp add: push_bit_eq_mult)
  moreover have "ucast (of_nat (i * 0x200000) :: u32) = (of_nat (i * 0x200000) :: u64)"
    using assms by (simp add: word_unat_eq_iff unat_ucast_small unat_of_nat_u64 del: of_nat_mult of_nat_numeral)
  ultimately show ?thesis by (simp add: unsigned_or_eq)
qed

lemma loop_round:
  assumes "layout_ok L" and "in_loop L c0 i c" and "i < 512" and "\<not> bit (cr c0 CR0) 31"
  shows "\<exists>c'. steps L 8 c = Inr c' \<and> in_loop L c0 (Suc i) c'"
proof -
  note t = table_addresses [OF assms(1)]
  have c: "ip c = 10" "gpr c EAX = of_nat i" "\<not> bit (cr c CR0) 31" "holds (ram c) (pml4 L) 2048 (loop_quads L i)"
    using assms(2,4) by (simp_all add: in_loop_def)
  have less: "sint (of_nat i :: u32) < sint (512 :: u32)" using assms(3) sint_of_nat_s32 [of i] by simp
  let ?w = "push_bit 21 (of_nat i) OR 0x83 :: u32" and ?a = "pml4 L + 8 * of_nat (1024 + i)"
  have at: "ucast (pd_at L + of_nat i * 8) = ?a"
    using t(6) [of "1024 + i"] assms(3) by (simp add: pd_at_def algebra_simps)
  have "holds (fill (ram c) ?a 4 (ucast ?w)) (pml4 L) 2048 ((loop_quads L i)(1024 + i := ucast ?w))"
    using assms(3) by (intro holds_put [OF c(4)]) (simp_all add: loop_quads_def)
  moreover have "(loop_quads L i)(1024 + i := ucast ?w) = loop_quads L (Suc i)"
    using pd_entry [OF assms(3)] by (auto simp: loop_quads_def fun_eq_iff less_Suc_eq)
  ultimately have m: "holds (fill (ram c) ?a 4 (ucast ?w)) (pml4 L) 2048 (loop_quads L (Suc i))" by simp
  have outside: "fill (ram c) ?a 4 (ucast ?w) b = ram c0 b \<or> unat (pml4 L) \<le> unat b \<and> unat b < unat (pml4 L) + 16384" for b
    using fill_table [OF assms(1), of "1024 + i" "ram c" _ b] assms(2,3) by (fastforce simp: in_loop_def)
  have "\<exists>c'. steps L 8 c = Inr c' \<and> ip c' = 10 \<and> gpr c' EAX = of_nat i + 1 \<and> ram c' = fill (ram c) ?a 4 (ucast ?w)
    \<and> cr c' = cr c \<and> efer c' = efer c \<and> upper c' = upper c \<and> gpr c' EDI = gpr c EDI \<and> gpr c' ESI = gpr c ESI"
    using c(1-3) less at
    by (simp add: steps_numeral unpaged start_code_def set_gpr_def next_ip_def)
  then show ?thesis using m outside assms(2,3) by (auto simp: in_loop_def)
qed

lemma loop_runs:
  assumes "layout_ok L" and "in_loop L c0 i c" and "\<not> bit (cr c0 CR0) 31"
  shows "\<exists>c'. start_run L c = start_run L c' \<and> in_loop L c0 512 c'"
  using assms(2)
proof (induction "512 - i" arbitrary: i c)
  case 0
  then have "i = 512" by (simp add: in_loop_def)
  with 0 show ?case by blast
next
  case (Suc n)
  then have "i < 512" by simp
  with loop_round [OF assms(1) Suc.prems _ assms(3)] obtain c1 where "steps L 8 c = Inr c1" "in_loop L c0 (Suc i) c1" by blast
  moreover have "n = 512 - Suc i" using Suc.hyps(2) by simp
  moreover from Suc.hyps(1) [OF this \<open>in_loop L c0 (Suc i) c1\<close>] obtain c' where
    "start_run L c1 = start_run L c'" "in_loop L c0 512 c'" by blast
  ultimately show ?case using steps_run by metis
qed

lemma loop_quads_tables:
  assumes "layout_ok L" and "in_loop L c0 512 c"
  shows "tables_at (ram c) (pml4 L) (first_tables L)"
proof -
  note t = table_addresses [OF assms(1)] and ok = first_tables_ok [OF assms(1)]
  have "loop_quads L 512 q = table_quads (pml4 L) (first_tables L) q" if "q < 2048" for q
    using that by (auto simp: loop_quads_def table_quads_def first_tables_def boot_tables_def t(2,3) nth_Cons')
  moreover have "holds (ram c) (pml4 L) 2048 (loop_quads L 512)" using assms(2) by (simp add: in_loop_def)
  ultimately have "holds (ram c) (pml4 L) 2048 (table_quads (pml4 L) (first_tables L))" by (simp add: holds_def)
  with ok show ?thesis by (simp add: tables_at_def)
qed

text \<open>From the loop to the first instruction fetched through the tables.\<close>

lemma to_long_mode:
  assumes "in_loop L c0 512 c" and "entry_ok L c0"
  shows "\<exists>c'. steps L 11 c = Inr c' \<and> ip c' = 27 \<and> ram c' = ram c \<and> bit (efer c') 8
    \<and> bit (cr c' CR0) 0 \<and> \<not> bit (cr c' CR0) 31 \<and> bit (cr c' CR4) 5 \<and> \<not> bit (cr c' CR4) 12 \<and> cr c' CR3 = tables L
    \<and> upper c' = upper c0 \<and> gpr c' EDI = gpr c0 EAX \<and> gpr c' ESI = gpr c0 EBX"
proof -
  have c: "ip c = 10" "gpr c EAX = 512" "\<not> bit (cr c CR0) 31" "\<not> bit (efer c) 10"
    and kept: "bit (cr c CR0) 0" "\<not> bit (cr c CR4) 12" "upper c = upper c0" "gpr c EDI = gpr c0 EAX" "gpr c ESI = gpr c0 EBX"
    using assms by (simp_all add: in_loop_def entry_ok_def)
  define e where "e = (push_bit 32 (ucast (ucast (drop_bit 32 (efer c)) :: u32)) OR ucast (ucast (efer c) OR 0x100 :: u32) :: u64)"
  have "\<exists>c'. steps L 11 c = Inr c' \<and> ip c' = 27 \<and> ram c' = ram c \<and> efer c' = unset_bit 10 e
    \<and> cr c' = (cr c)(CR4 := cr c CR4 OR 0x20, CR3 := tables L)
    \<and> upper c' = upper c \<and> gpr c' EDI = gpr c EDI \<and> gpr c' ESI = gpr c ESI"
    using c by (simp add: steps_numeral unpaged start_code_def set_gpr_def next_ip_def EFER_def e_def)
  moreover have "bit (unset_bit 10 e) 8" by (simp add: e_def bit_simps)
  moreover have "bit (cr c CR4 OR 0x20) 5" "\<not> bit (cr c CR4 OR 0x20) 12" using kept(2) by (simp_all add: bit_or_iff)
  ultimately show ?thesis using kept c(3) by fastforce
qed

lemma to_paging:
  assumes "tables_at (ram c) (pml4 L) (first_tables L)" and "ip c = 27" and "bit (efer c) 8"
    and "bit (cr c CR0) 0" and "\<not> bit (cr c CR0) 31" and "bit (cr c CR4) 5" and "\<not> bit (cr c CR4) 12" and "cr c CR3 = tables L"
  shows "\<exists>c'. steps L 3 c = Inr c' \<and> paged L c' \<and> ip c' = 30 \<and> ram c' = ram c
    \<and> upper c' = upper c \<and> gpr c' EDI = gpr c EDI \<and> gpr c' ESI = gpr c ESI"
proof -
  have bits: "bit (cr c CR0 OR 0x80000000) 31" "bit (cr c CR0 OR 0x80000000) 0" "bit (set_bit 10 (efer c)) 10"
    using assms(4) by (simp_all add: bit_or_iff bit_simps)
  have "\<exists>c'. steps L 3 c = Inr c' \<and> ip c' = 30 \<and> ram c' = ram c \<and> efer c' = set_bit 10 (efer c)
    \<and> cr c' = (cr c)(CR0 := cr c CR0 OR 0x80000000)
    \<and> upper c' = upper c \<and> gpr c' EDI = gpr c EDI \<and> gpr c' ESI = gpr c ESI"
    using assms bits(1,2) by (simp add: steps_numeral unpaged start_code_def set_gpr_def next_ip_def set_cr0_def)
  then show ?thesis using assms bits unfolding paged_def by auto
qed

text \<open>With paging on, the code runs on, and what is read in the first GiB is what is there.\<close>

lemma paged_step:
  assumes "layout_ok L" and "paged L c" and "ip c \<le> 40"
  shows "start_step L c = exec_start (start_code L ! ip c) c"
proof -
  have "unat (code_at L (ip c)) < 2 ^ 30"
  proof -
    have "unat (code_at L (ip c)) < unat (gdt64 L)" using assms(1,3) by (simp add: layout_ok_def)
    then show ?thesis using assms(1) by (simp add: layout_ok_def)
  qed
  then have "unat (ucast (code_at L (ip c)) :: u64) < 2 ^ 30" by (simp add: unat_ucast_small)
  from paged_low [OF assms(1,2) this] show ?thesis by (simp add: start_step_def)
qed

lemma paged_mapped:
  assumes "layout_ok L" and "paged L c" and "unat a + n \<le> 2 ^ 30"
  shows "i < n \<Longrightarrow> phys c (a + of_nat i) = Some (a + of_nat i)"
    and "mapped c a n" and "i < n \<Longrightarrow> view c (a + of_nat i) = ram c (a + of_nat i)"
proof -
  show through: "phys c (a + of_nat i) = Some (a + of_nat i)" if "i < n" for i
  proof (rule paged_low [OF assms(1,2)])
    have "unat (of_nat i :: u64) = i" using that assms(3) by (intro unat_of_nat_u64) simp
    then show "unat (a + of_nat i) < 2 ^ 30" using that assms(3) by (simp add: unat_word_ariths)
  qed
  then show "mapped c a n" by (simp add: mapped_def list_all_iff)
  show "view c (a + of_nat i) = ram c (a + of_nat i)" if "i < n" using through [OF that] by (simp add: view_def)
qed

definition segments_at :: "labels \<Rightarrow> start_cpu \<Rightarrow> bool" where
  "segments_at L c \<longleftrightarrow> paged L c \<and> holds (ram c) (ucast (gdt64 L)) 3 ((!) gdt) \<and> gdtr_limit c = 23 \<and> gdtr_base c = gdt64 L"

lemma data_addresses:
  assumes "layout_ok L"
  shows "unat (ucast (gdt64 L) :: u64) = unat (gdt64 L)" "ucast (gdt64_ptr L) = (ucast (gdt64 L) + 24 :: u64)"
    "unat (ucast (gdt64 L) + 24 :: u64) = unat (gdt64 L) + 24" "unat (gdt64 L) + 30 \<le> 2 ^ 30"
proof -
  show low: "unat (gdt64 L) + 30 \<le> 2 ^ 30" using assms by (simp add: layout_ok_def)
  then show "ucast (gdt64_ptr L) = (ucast (gdt64 L) + 24 :: u64)" "unat (ucast (gdt64 L) + 24 :: u64) = unat (gdt64 L) + 24"
    using ucast_at [of "gdt64 L" 24] by (simp_all add: gdt64_ptr_def)
  show "unat (ucast (gdt64 L) :: u64) = unat (gdt64 L)" using ucast_at(2) [of "gdt64 L" 0] low by simp
qed

lemma descriptors:
  assumes "layout_ok L" and "segments_at L c"
  shows "descriptor c 0x08 = Some 0x00AF9A000000FFFF" and "descriptor c 0x10 = Some 0x00CF92000000FFFF"
proof -
  let ?g = "ucast (gdt64 L) :: u64"
  note d = data_addresses [OF assms(1)]
  have p: "paged L c" "holds (ram c) ?g 3 ((!) gdt)" using assms(2) by (simp_all add: segments_at_def)
  have "holds (view c) ?g 3 ((!) gdt)"
    using p(2) paged_mapped(3) [OF assms(1) p(1), of ?g 24] d(1,4) by (simp add: holds_def)
  from holds_quad [OF this, of 1] holds_quad [OF this, of 2]
  have quads: "ld64 (view c) (?g + 8) = 0x00AF9A000000FFFF" "ld64 (view c) (?g + 16) = 0x00CF92000000FFFF"
    by (simp_all add: gdt_def)
  have "unat (?g + of_nat n) = unat ?g + n" if "n < 30" for n
    using ucast_at(2) [of "gdt64 L" n] d(1,4) that by simp
  from this [of 8] this [of 16] have m: "mapped c (?g + 8) 8" "mapped c (?g + 16) 8"
    using d(1,4) by (auto intro!: paged_mapped(2) [OF assms(1) p(1)])
  have b: "bit (0x00AF9A000000FFFF :: u64) 47" "bit (0x00AF9A000000FFFF :: u64) 44" "\<not> bit (0x00AF9A000000FFFF :: u64) 45"
    "\<not> bit (0x00AF9A000000FFFF :: u64) 46" "bit (0x00CF92000000FFFF :: u64) 47" "bit (0x00CF92000000FFFF :: u64) 44"
    "\<not> bit (0x00CF92000000FFFF :: u64) 45" "\<not> bit (0x00CF92000000FFFF :: u64) 46"
    by (simp_all add: bit_iff_odd_drop_bit drop_bit_eq_div)
  show "descriptor c 0x08 = Some 0x00AF9A000000FFFF" "descriptor c 0x10 = Some 0x00CF92000000FFFF"
    using assms(2) quads m b by (simp_all add: descriptor_def segments_at_def Let_def)
qed

lemma paged_upd:
  "paged L (c\<lparr>gpr := g\<rparr>) = paged L c" "paged L (c\<lparr>ip := i\<rparr>) = paged L c" "paged L (c\<lparr>upper := u\<rparr>) = paged L c"
  "paged L (c\<lparr>code_seg := s\<rparr>) = paged L c" "paged L (c\<lparr>data_seg := ds\<rparr>) = paged L c"
  "paged L (c\<lparr>long_code := b\<rparr>) = paged L c" "paged L (c\<lparr>gdtr_base := n\<rparr>) = paged L c" "paged L (c\<lparr>gdtr_limit := w\<rparr>) = paged L c"
  by (simp_all add: paged_def)

lemma segments_upd:
  "segments_at L (c\<lparr>gpr := g\<rparr>) = segments_at L c" "segments_at L (c\<lparr>ip := i\<rparr>) = segments_at L c"
  "segments_at L (c\<lparr>upper := u\<rparr>) = segments_at L c" "segments_at L (c\<lparr>code_seg := s\<rparr>) = segments_at L c"
  "segments_at L (c\<lparr>data_seg := ds\<rparr>) = segments_at L c" "segments_at L (c\<lparr>long_code := b\<rparr>) = segments_at L c"
  by (simp_all add: segments_at_def paged_upd)

lemma load_table:
  assumes "layout_ok L" and "paged L c" and "ip c = 30" and "holds (ram c) (ucast (gdt64 L)) 3 ((!) gdt)"
    and "ld16 (ram c) (ucast (gdt64_ptr L)) = 23" and "ld32 (ram c) (ucast (gdt64_ptr L) + 2) = gdt64 L"
  shows "\<exists>c'. steps L 1 c = Inr c' \<and> segments_at L c' \<and> ip c' = 31 \<and> ram c' = ram c
    \<and> upper c' = upper c \<and> gpr c' = gpr c"
proof -
  let ?p = "ucast (gdt64_ptr L) :: u64"
  note d = data_addresses [OF assms(1)]
  have "unat ?p + 6 \<le> 2 ^ 30" using d(2-4) by simp
  note r = paged_mapped [OF assms(1,2) this]
  have "ld16 (view c) ?p = ld16 (ram c) ?p" "ld32 (view c) (?p + 2) = ld32 (ram c) (?p + 2)"
    using r(3) [of 0] r(3) [of 1] r(3) [of 2] r(3) [of 3] r(3) [of 4] r(3) [of 5]
    by (simp_all add: ld16_def ld32_def add.assoc)
  then show ?thesis
    using assms r(2) paged_step [OF assms(1,2)]
    by (simp add: start_code_def next_ip_def segments_at_def paged_upd)
qed

lemma to_call:
  assumes "layout_ok L" and "segments_at L c" and "ip c = 31"
  shows "\<exists>c'. steps L 8 c = Inr c' \<and> paged L c' \<and> ip c' = 39 \<and> ram c' = ram c \<and> long_code c' \<and> code_seg c' = 0x08
    \<and> data_seg c' = (\<lambda>_. 0x10) \<and> gpr c' EDI = gpr c EDI \<and> gpr c' ESI = gpr c ESI
    \<and> gpr c' ESP = stack_top L \<and> upper c' = (upper c)(ESP := 0)"
proof -
  have "paged L c" "bit (efer c) 10" using assms(2) by (simp_all add: segments_at_def paged_def)
  moreover have "unat (stack_top L) < 2 ^ 31"
    using assms(1) by (simp add: stack_top_def layout_ok_def unat_add_u32)
  then have "\<not> bit (stack_top L) 31" using bit_below by blast
  then have "ucast (drop_bit 32 (scast (stack_top L) :: u64)) = (0 :: u32)"
    by (intro bit_word_eqI) (auto simp: bit_simps)
  moreover have ax: "ucast ((w AND NOT (mask 16)) OR 0x10 :: u32) = (0x10 :: u16)" for w :: u32
    by (rule bit_word_eqI) (simp add: bit_simps)
  moreover have "bit (0x00AF9A000000FFFF :: u64) 43" "bit (0x00AF9A000000FFFF :: u64) 53" "\<not> bit (0x00AF9A000000FFFF :: u64) 54"
    "\<not> bit (0x00CF92000000FFFF :: u64) 43" "bit (0x00CF92000000FFFF :: u64) 41"
    by (simp_all add: bit_iff_odd_drop_bit drop_bit_eq_div)
  moreover have "(\<lambda>_. 0x10) = (data_seg c)(DS := 0x10, ES := 0x10, FS := 0x10, GS := 0x10, SS := (0x10 :: u16))"
  proof
    fix s show "0x10 = ((data_seg c)(DS := 0x10, ES := 0x10, FS := 0x10, GS := 0x10, SS := (0x10 :: u16))) s"
      by (cases s) simp_all
  qed
  ultimately show ?thesis
    using assms(2,3)
    by (simp add: steps_numeral paged_step [OF assms(1)] descriptors [OF assms(1)] paged_upd segments_upd
        start_code_def set_gpr_def next_ip_def)
qed

lemma holds_elsewhere:
  assumes "holds m a n f" and "\<And>i. i < 8 * n \<Longrightarrow> m' (a + of_nat i) = m (a + of_nat i)"
  shows "holds m' a n f"
  using assms by (simp add: holds_def)

lemma stack_address:
  assumes "layout_ok L"
  shows "unat (stack_top L) = unat (stack_bottom L) + 16384" "unat (ucast (stack_top L) - 8 :: u64) = unat (stack_top L) - 8"
    "ucast (ucast (stack_top L) - 8 :: u64) = stack_top L - 8" "drop_bit 32 (ucast (stack_top L) - 8 :: u64) = 0"
proof -
  show top: "unat (stack_top L) = unat (stack_bottom L) + 16384"
    using assms by (simp add: stack_top_def layout_ok_def unat_add_u32)
  have wide: "unat (ucast (stack_top L) :: u64) = unat (stack_top L)" using ucast_at(2) [of "stack_top L" 0] unat_less_32 by simp
  show sp: "unat (ucast (stack_top L) - 8 :: u64) = unat (stack_top L) - 8"
    using wide top by (subst unat_sub) (simp_all add: word_le_nat_alt)
  have "unat (stack_top L - 8) = unat (stack_top L) - 8" using top by (subst unat_sub) (simp_all add: word_le_nat_alt)
  moreover have "unat (ucast (ucast (stack_top L) - 8 :: u64) :: u32) = unat (stack_top L) - 8"
    using sp unat_less_32 [of "stack_top L"] by (subst unat_ucast_small) simp_all
  ultimately show "ucast (ucast (stack_top L) - 8 :: u64) = stack_top L - 8" by (simp add: word_unat_eq_iff)
  show "drop_bit 32 (ucast (stack_top L) - 8 :: u64) = 0"
    using sp unat_less_32 [of "stack_top L"] by (simp add: word_unat_eq_iff unat_drop_bit)
qed

lemma low_half: "drop_bit 32 (w :: u64) = 0 \<Longrightarrow> ucast (ucast w :: u32) = w"
  using take_bit_small [of w 32] by (simp add: word_unat_eq_iff unat_drop_bit div_eq_0_iff unsigned_ucast_eq)

lemma calls_kernel_main:
  assumes "layout_ok L" and "paged L c" and "ip c = 39" and "gpr c ESP = stack_top L" and "upper c ESP = 0"
  shows "\<exists>c'. steps L 1 c = Inr c' \<and> c' = c\<lparr>ip := 40, ram := fill (ram c) (ucast (stack_top L) - 8) 8 (ucast (code_at L 40)),
    gpr := (gpr c)(ESP := stack_top L - 8), upper := (upper c)(ESP := 0)\<rparr> \<and> paged L c'"
proof -
  let ?sp = "ucast (stack_top L) - 8 :: u64"
  let ?m = "fill (ram c) ?sp 8 (ucast (code_at L 40))"
  note a = stack_address [OF assms(1)] and t = table_addresses [OF assms(1)]
  have "unat ?sp + 8 \<le> 2 ^ 30" using a(1,2) assms(1) by (simp add: layout_ok_def)
  then have put: "put_bytes c ?sp 8 v = Inr (c\<lparr>ram := fill (ram c) ?sp 8 v\<rparr>)" for v
    by (intro put_bytes_through paged_mapped(1) [OF assms(1,2)])
  have step: "steps L 1 c = Inr (c\<lparr>ip := 40, ram := ?m, gpr := (gpr c)(ESP := stack_top L - 8), upper := (upper c)(ESP := 0)\<rparr>)"
    using assms(3-5) a(3,4) put paged_step [OF assms(1,2)] by (simp add: start_code_def set_gpr_def next_ip_def reg64_def)
  have "?m (pml4 L + of_nat i) = ram c (pml4 L + of_nat i)" if "i < 8 * 2048" for i
  proof -
    have p: "unat (pml4 L + of_nat i) = unat (pml4 L) + i"
      using ucast_at(2) [of "tables L" i] that assms(1) t(4) by (simp add: pml4_def layout_ok_def)
    have "?sp \<le> pml4 L + of_nat i"
      using p a(1,2) t(4) assms(1) by (simp add: word_le_nat_alt layout_ok_def)
    then have "unat (pml4 L + of_nat i - ?sp) = unat (pml4 L) + i - (unat (stack_top L) - 8)"
      using p a(2) by (simp add: unat_sub)
    moreover have "unat (stack_top L) \<le> unat (pml4 L)" using a(1) t(4) assms(1) by (simp add: layout_ok_def)
    ultimately have "\<not> unat (pml4 L + of_nat i - ?sp) < 8" using a(1) by linarith
    then show ?thesis by (subst fill_byte) simp_all
  qed
  then have "tables_at ?m (pml4 L) (first_tables L)"
    using assms(2) holds_elsewhere [of "ram c"] by (simp add: paged_def tables_at_def)
  then have "paged L (c\<lparr>ip := 40, ram := ?m, gpr := (gpr c)(ESP := stack_top L - 8), upper := (upper c)(ESP := 0)\<rparr>)"
    using assms(2) by (simp add: paged_def)
  with step show ?thesis by blast
qed

text \<open>The loop leaves the descriptor table and its pseudo-descriptor as the image has them.\<close>

lemma loop_keeps_table:
  assumes "layout_ok L" and "entry_ok L c0"
    and outside: "\<And>a. ram c a = ram c0 a \<or> unat (pml4 L) \<le> unat a \<and> unat a < unat (pml4 L) + 16384"
  shows "ld16 (ram c) (ucast (gdt64_ptr L)) = 23" and "ld32 (ram c) (ucast (gdt64_ptr L) + 2) = gdt64 L"
    and "holds (ram c) (ucast (gdt64 L)) 3 ((!) gdt)"
proof -
  note d = data_addresses [OF assms(1)] and t = table_addresses [OF assms(1)]
  have data: "ram c (ucast (gdt64 L) + of_nat i) = ram c0 (ucast (gdt64 L) + of_nat i)" if "i < 30" for i
  proof -
    have "unat (ucast (gdt64 L) + of_nat i :: u64) = unat (gdt64 L) + i" using ucast_at(2) [of "gdt64 L" i] d(4) that by simp
    then show ?thesis using outside [of "ucast (gdt64 L) + of_nat i"] that t(4) assms(1) by (auto simp: layout_ok_def)
  qed
  show "ld16 (ram c) (ucast (gdt64_ptr L)) = 23" "ld32 (ram c) (ucast (gdt64_ptr L) + 2) = gdt64 L"
    using assms(2) data [of 24] data [of 25] data [of 26] data [of 27] data [of 28] data [of 29]
    by (simp_all add: entry_ok_def image_ok_def ld16_def ld32_def d(2) add.assoc)
  show "holds (ram c) (ucast (gdt64 L)) 3 ((!) gdt)"
  proof (rule holds_elsewhere)
    show "holds (ram c0) (ucast (gdt64 L)) 3 ((!) gdt)" using assms(2) by (simp add: entry_ok_def image_ok_def)
    show "ram c (ucast (gdt64 L) + of_nat i) = ram c0 (ucast (gdt64 L) + of_nat i)" if "i < 8 * 3" for i
      by (rule data) (use that in simp)
  qed
qed

text \<open>The call pushes one return address, just below the top of the stack.\<close>

lemma pushed_return:
  assumes "layout_ok L"
  defines "m' \<equiv> \<lambda>m r. fill m (ucast (stack_top L) - 8) 8 r"
  shows "ld64 (m' m r) (ucast (stack_top L) - 8) = r"
    and "m' m r b = m b \<or> unat (stack_top L) - 8 \<le> unat b \<and> unat b < unat (stack_top L)"
proof -
  note a = stack_address [OF assms(1)]
  show "ld64 (m' m r) (ucast (stack_top L) - 8) = r"
  proof (rule ld64_bytes)
    fix i :: nat assume "i < 8"
    then have "unat (of_nat i :: u64) = i" by (intro unat_of_nat_u64) simp
    with \<open>i < 8\<close> show "m' m r (ucast (stack_top L) - 8 + of_nat i) = byte r i" by (simp add: m'_def fill_byte)
  qed
  show "m' m r b = m b \<or> unat (stack_top L) - 8 \<le> unat b \<and> unat b < unat (stack_top L)"
  proof (cases "unat (b - (ucast (stack_top L) - 8)) < 8")
    case True
    have "unat ((ucast (stack_top L) - 8) + (b - (ucast (stack_top L) - 8))) = unat (stack_top L) - 8 + unat (b - (ucast (stack_top L) - 8))"
      using True a(2) unat_less_32 [of "stack_top L"] by (subst unat_word_ariths) simp
    then show ?thesis using True a(1) by simp
  qed (simp add: m'_def fill_byte)
qed

lemma start_runs:
  assumes "layout_ok L" and "entry_ok L c0"
  shows "\<exists>c. start_run L c0 = Some (Inr c) \<and> at_kernel_main L c0 c"
proof -
  have off: "\<not> bit (cr c0 CR0) 31" using assms(2) by (simp add: entry_ok_def)
  obtain c1 where c1: "start_run L c0 = start_run L c1" "in_loop L c0 0 c1" using to_loop [OF assms] steps_run by blast
  obtain c2 where c2: "start_run L c1 = start_run L c2" "in_loop L c0 512 c2" using loop_runs [OF assms(1) c1(2) off] by blast
  obtain c3 where c3: "steps L 11 c2 = Inr c3" "ip c3 = 27" "ram c3 = ram c2" "bit (efer c3) 8"
    "bit (cr c3 CR0) 0" "\<not> bit (cr c3 CR0) 31" "bit (cr c3 CR4) 5" "\<not> bit (cr c3 CR4) 12" "cr c3 CR3 = tables L"
    "upper c3 = upper c0" "gpr c3 EDI = gpr c0 EAX" "gpr c3 ESI = gpr c0 EBX"
    using to_long_mode [OF c2(2) assms(2)] by blast
  have tab: "tables_at (ram c3) (pml4 L) (first_tables L)" using loop_quads_tables [OF assms(1) c2(2)] c3(3) by simp
  obtain c4 where c4: "steps L 3 c3 = Inr c4" "paged L c4" "ip c4 = 30" "ram c4 = ram c2"
    "upper c4 = upper c0" "gpr c4 EDI = gpr c0 EAX" "gpr c4 ESI = gpr c0 EBX"
    using to_paging [OF tab c3(2,4-9)] c3(3,10-12) by auto
  have outside: "ram c2 a = ram c0 a \<or> unat (pml4 L) \<le> unat a \<and> unat a < unat (pml4 L) + 16384" for a
    using c2(2) by (simp add: in_loop_def)
  note table = loop_keeps_table [OF assms outside]
  obtain c5 where c5: "steps L 1 c4 = Inr c5" "segments_at L c5" "ip c5 = 31" "ram c5 = ram c2"
    "upper c5 = upper c0" "gpr c5 = gpr c4"
    using load_table [OF assms(1) c4(2,3)] c4(4,5) table by auto
  obtain c6 where c6: "steps L 8 c5 = Inr c6" "paged L c6" "ip c6 = 39" "ram c6 = ram c2" "long_code c6" "code_seg c6 = 0x08"
    "data_seg c6 = (\<lambda>_. 0x10)" "gpr c6 EDI = gpr c0 EAX" "gpr c6 ESI = gpr c0 EBX"
    "gpr c6 ESP = stack_top L" "upper c6 = (upper c0)(ESP := 0)"
    using to_call [OF assms(1) c5(2,3)] c4(6,7) c5(4-6) by auto
  let ?m = "fill (ram c2) (ucast (stack_top L) - 8) 8 (ucast (code_at L 40))"
  obtain c7 where c7: "steps L 1 c6 = Inr c7" "paged L c7"
    "c7 = c6\<lparr>ip := 40, ram := ?m, gpr := (gpr c6)(ESP := stack_top L - 8), upper := (upper c6)(ESP := 0)\<rparr>"
    using calls_kernel_main [OF assms(1) c6(2,3,10)] c6(4,11) by auto
  have "start_run L c0 = start_run L c7"
    by (simp only: c1(1) c2(1) steps_run [OF c3(1)] steps_run [OF c4(1)] steps_run [OF c5(1)] steps_run [OF c6(1)] steps_run [OF c7(1)])
  also have "\<dots> = Some (Inr c7)" by (subst start_run.simps) (simp add: c7(3) start_code_def)
  finally have run: "start_run L c0 = Some (Inr c7)" .
  have "?m b = ram c0 b \<or> unat (stack_top L) - 8 \<le> unat b \<and> unat b < unat (stack_top L)
      \<or> unat (pml4 L) \<le> unat b \<and> unat b < unat (pml4 L) + 16384" for b
    using pushed_return(2) [OF assms(1)] outside [of b] by metis
  with pushed_return(1) [OF assms(1)] have "at_kernel_main L c0 c7" using c6 c7(2,3) by (simp add: at_kernel_main_def)
  with run show ?thesis by blast
qed

text \<open>The header: 48 bytes, magic number first, its length and a checksum that makes the four words sum to zero.\<close>

lemma mb2_header_ok:
  "length mb2_header = 48" "length mb2_tags mod 8 = 0"
  "take 16 mb2_header = le 4 0xE85250D6 @ le 4 0 @ le 4 48 @ le 4 (- (0xE85250D6 + 0 + 48))"
  "drop 16 mb2_header = [5, 0, 0, 0, 20, 0, 0, 0] @ replicate 16 0 @ [0, 0, 0, 0, 8, 0, 0, 0]"
  by code_simp+

section \<open>The kernel is entered\<close>

text \<open>
  C8: From the 32-bit entry point the code of \<open>_start\<close> runs, without a fault at any instruction, to the call of \<open>kernel_main\<close>:
  the processor is in 64-bit mode with the kernel's segments; the first argument's register holds what EAX held (the magic number)
  and the second one's low half what EBX held (the information structure); the stack is empty but for the return address and
  aligned for the call; and the page walk of the processor over the tables in memory is the translation that \<open>Paging\<close>
  reasons about, the identity on the first GiB. Memory outside stack and tables is as before.
\<close>

theorem start_enters_kernel:
  assumes "layout_ok L" and "entry_ok L c0"
  shows "\<exists>c. start_run L c0 = Some (Inr c) \<and> long_code c \<and> code_seg c = 0x08 \<and> data_seg c = (\<lambda>_. 0x10)
    \<and> ucast (reg64 EDI c) = gpr c0 EAX \<and> reg64 ESI c = push_bit 32 (ucast (upper c0 ESI)) OR ucast (gpr c0 EBX)
    \<and> reg64 ESP c = ucast (stack_top L) - 8 \<and> unat (stack_top L) mod 16 = 0
    \<and> ld64 (ram c) (ucast (stack_top L) - 8) = ucast (code_at L 40)
    \<and> (\<forall>va. unat va < 2 ^ 47 \<longrightarrow> phys c va = translate (first_tables L) va)
    \<and> (\<forall>va. unat va < 2 ^ 30 \<longrightarrow> phys c va = Some va)
    \<and> (\<forall>a. ram c a = ram c0 a \<or> unat (stack_top L) - 8 \<le> unat a \<and> unat a < unat (stack_top L)
          \<or> unat (pml4 L) \<le> unat a \<and> unat a < unat (pml4 L) + 16384)"
proof -
  obtain c where c: "start_run L c0 = Some (Inr c)" "at_kernel_main L c0 c" using start_runs [OF assms] by blast
  have p: "paged L c" using c(2) by (simp add: at_kernel_main_def)
  have "unat (stack_bottom L) mod 16 = 0" using assms(1) by (simp add: layout_ok_def)
  then have "unat (stack_top L) mod 16 = 0" unfolding stack_address(1) [OF assms(1)] by presburger
  moreover have "ucast (reg64 EDI c) = gpr c EDI" by (intro bit_word_eqI) (auto simp: reg64_def bit_simps)
  moreover have "reg64 ESI c = push_bit 32 (ucast (upper c0 ESI)) OR ucast (gpr c0 EBX)"
    using c(2) by (simp add: reg64_def at_kernel_main_def)
  moreover have "reg64 ESP c = ucast (stack_top L) - 8"
    using c(2) stack_address(2,3) [OF assms(1)] low_half [OF stack_address(4) [OF assms(1)]] by (simp add: reg64_def at_kernel_main_def)
  ultimately show ?thesis
    using c first_tables_phys [OF assms(1) p] paged_low [OF assms(1) p] unfolding at_kernel_main_def
    by (intro exI [of _ c] conjI allI impI) simp_all
qed

section \<open>The framebuffer through the page walk of the processor\<close>

lemma aligned_bit: "a AND mask 12 = 0 \<Longrightarrow> n < 12 \<Longrightarrow> \<not> bit (a :: u64) n"
  by (drule arg_cong [where f = "\<lambda>w. bit w n"]) (simp add: bit_simps)

lemma map_fb_two_level:
  assumes "tables_ok pt" and "two_level pt" and "fits pa sz" and "paging_map_fb pa sz pt = Inr pt'"
    and "unat (fb_pd_addr pt) < 2 ^ 52"
  shows "two_level pt'"
proof -
  let ?s = "ucast (drop_bit 21 pa AND 0x1FF) :: u32" and ?n = "ucast (drop_bit 21 (sz + 0x1FFFFF)) + 1 :: u32"
  let ?base = "pa AND - 0x200000"
  have s: "unat ?s < 512" unfolding index_bits by simp
  have pt': "pd pt' = pd pt" "pd_addr pt' = pd_addr pt" "fb_pd_addr pt' = fb_pd_addr pt"
    "pdpt pt' = (pdpt pt)[unat pa div 2 ^ 30 := fb_pd_addr pt OR 3]"
    using paging_map_fb_runs [OF assms(1,3)] assms(4) by auto
  have run: "map_pages ?base ?s ?n 0 (fb_pd pt) = Inr (fb_pd pt')"
    using assms(3,4) by (auto simp: paging_map_fb_def fits_def bind_r_eq_Inr Let_def)
  have t': "fb_pd pt' ! k \<in> insert (fb_pd pt ! k) (leaf ?base ` {..<unat ?n})" "length (fb_pd pt') = 512" if "k < 512" for k
    using map_pages_correct [of "fb_pd pt" ?s ?base ?n 0] run assms(1) s that by (auto simp: tables_ok_def)
  have n: "unat ?n \<le> 1024"
  proof -
    have q: "(unat pa + unat sz - 1) div 2 ^ 30 = unat pa div 2 ^ 30" "unat pa < 2 ^ 39" using assms(3) by (simp_all add: fits_def)
    have "unat pa + unat sz - 1 < 2 ^ 30 + (unat pa + unat sz - 1) div 2 ^ 30 * 2 ^ 30" by (rule dividend_less_div_times) simp
    moreover have "unat pa div 2 ^ 30 * 2 ^ 30 \<le> unat pa" by (rule div_times_less_eq_dividend)
    ultimately have "unat sz \<le> 2 ^ 30" using q(1) by simp
    then show ?thesis unfolding page_count [OF assms(3)] by simp
  qed
  have leaf: "take_bit 52 (leaf ?base j) = leaf ?base j \<and> bit (leaf ?base j) 7" if "j < unat ?n" for j
  proof -
    have j: "j < 1024" using that n by simp
    have "?base = pa AND NOT (mask 21)" by (simp add: mask_eq_exp_minus_1)
    then have "unat ?base \<le> unat pa" by (simp only: unat_clear_low div_times_less_eq_dividend)
    then have "unat ?base < 2 ^ 39" using assms(3) by (simp add: fits_def)
    moreover have "unat (of_nat (j * 0x200000) :: u64) = j * 0x200000" using j by (intro unat_of_nat_u64) simp
    ultimately have "unat (?base + of_nat (j * 0x200000)) < 2 ^ 52"
      using j by (subst unat_word_ariths) simp
    then have "take_bit 52 (?base + of_nat j * 0x200000) = ?base + of_nat j * 0x200000" using take_bit_small by fastforce
    then show ?thesis by (simp add: leaf_def take_bit_or bit_or_iff)
  qed
  have fb: "fb_pd_addr pt AND mask 12 = 0" using assms(1) by (simp add: tables_ok_def)
  have "\<not> bit (fb_pd_addr pt) 7" by (rule aligned_bit [OF fb]) simp
  then have ref: "take_bit 52 (fb_pd_addr pt OR 3) = fb_pd_addr pt OR 3 \<and> \<not> bit (fb_pd_addr pt OR 3) 7
    \<and> (fb_pd_addr pt OR 3) AND NOT (mask 12) = fb_pd_addr pt"
    using table_ref(2) [OF fb] take_bit_small [OF assms(5)] by (simp add: take_bit_or bit_or_iff)
  have "take_bit 52 e = e \<and> (bit e 0 \<longrightarrow> bit e 7)" if e: "e \<in> set (fb_pd pt')" for e
  proof -
    obtain k where k: "e = fb_pd pt' ! k" "k < 512" using e t'(2) [of 0] by (auto simp: in_set_conv_nth)
    moreover have "fb_pd pt ! k \<in> set (fb_pd pt)" using k(2) assms(1) by (simp add: tables_ok_def)
    ultimately show ?thesis using t'(1) [OF k(2)] leaf assms(2) by (auto simp: two_level_def)
  qed
  then show ?thesis
    using assms(2) ref set_update_subset_insert [of "pdpt pt" "unat pa div 2 ^ 30" "fb_pd_addr pt OR 3"]
    unfolding two_level_def pt' by blast
qed

text \<open>
  C32: When memory holds the tables that \<open>paging_map_fb\<close> makes of those of \<open>_start\<close>, for a framebuffer above the first
  GiB, below 512 GiB and within one GiB, the processor's own four-level walk from \<open>pml4\<close> takes every
  address of the framebuffer and of the kernel's first GiB to itself, and maps nothing from 512 GiB on.
\<close>

theorem processor_sees_framebuffer:
  assumes "layout_ok L" and "fits pa sz" and "2 ^ 30 \<le> unat pa"
  shows "\<exists>pt. paging_map_fb pa sz (first_tables L) = Inr pt \<and> (\<forall>m. tables_at m (pml4 L) pt \<longrightarrow>
    (\<forall>va. unat va < 2 ^ 30 \<or> unat pa \<le> unat va \<and> unat va < unat pa + unat sz \<longrightarrow> walk m (pml4 L) va = Some va)
    \<and> (\<forall>va. 2 ^ 39 \<le> unat va \<and> unat va < 2 ^ 47 \<longrightarrow> walk m (pml4 L) va = None))"
proof -
  note first = first_tables_ok [OF assms(1)] and t = table_addresses [OF assms(1)]
  obtain pt where pt: "paging_map_fb pa sz (first_tables L) = Inr pt" using paging_map_fb_runs [OF first(1) assms(2)] by blast
  have low: "unat (pml4 L) + 12288 < 2 ^ 30" using t(4) assms(1) by (simp add: layout_ok_def)
  then have "unat (fb_pd_addr (first_tables L)) < 2 ^ 52" unfolding first(4) by (subst unat_word_ariths) simp
  note two = map_fb_two_level [OF first(1,2) assms(2) pt this]
  have same: "walk m (pml4 L) va = translate pt va" if "tables_at m (pml4 L) pt" "unat va < 2 ^ 47" for m va
    by (rule walk_translate [OF that(1) two t(5) _ that(2)]) (use low in simp)
  have ids: "translate pt va = Some va" if "unat va < 2 ^ 30 \<or> unat pa \<le> unat va \<and> unat va < unat pa + unat sz" for va
  proof (cases "unat va < 2 ^ 30")
    case True
    have "1 \<le> unat pa div 2 ^ 30" using div_le_mono [OF assms(3), of "2 ^ 30"] by simp
    moreover have "unat va div 2 ^ 30 = 0" using True by simp
    moreover have "pdpt (first_tables L) ! 0 AND NOT (mask 12) = pd_addr (first_tables L)"
      using table_ref(2) [of "pd_addr (first_tables L)"] first(1) by (simp add: first_tables_def boot_tables_def tables_ok_def)
    ultimately have "translate pt va = translate (first_tables L) va"
      using first(1) by (intro other_translates [OF first(1) assms(2) pt]) (simp_all add: tables_ok_def)
    also have "\<dots> = Some va"
      unfolding first_tables_def using first(1) True
      by (intro boot_translates) (simp_all add: tables_ok_def first_tables_def boot_tables_def)
    finally show ?thesis .
  next
    case False
    then show ?thesis using fb_translates [OF first(1) assms(2) pt] that by simp
  qed
  have "unat va < 2 ^ 39" if "unat va < 2 ^ 30 \<or> unat pa \<le> unat va \<and> unat va < unat pa + unat sz" for va :: u64
    using ids [OF that] by (simp add: translate_def split: if_splits)
  then have "walk m (pml4 L) va = Some va"
    if "tables_at m (pml4 L) pt" "unat va < 2 ^ 30 \<or> unat pa \<le> unat va \<and> unat va < unat pa + unat sz" for m va
    using ids [OF that(2)] same [OF that(1)] that(2) by fastforce
  moreover have "walk m (pml4 L) va = None" if "tables_at m (pml4 L) pt" "2 ^ 39 \<le> unat va" "unat va < 2 ^ 47" for m va
    using same [OF that(1,3)] that(2) by (simp add: translate_def)
  ultimately show ?thesis using pt by blast
qed

text \<open>A sample image: the code at 1 MiB, the segment table, stack and tables behind it, and the low 4 KiB from the loader.\<close>

definition sample_labels :: labels where
  "sample_labels = \<lparr>stack_bottom = 0x102000, tables = 0x106000, gdt64 = 0x101000, code_at = (\<lambda>i. 0x100000 + 8 * of_nat i)\<rparr>"

definition sample_image :: "memory \<Rightarrow> memory" where
  "sample_image m = (\<lambda>a.
    if unat a < 4096 then m a
    else if 0x101000 \<le> unat a \<and> unat a < 0x101018 then byte (gdt ! ((unat a - 0x101000) div 8)) ((unat a - 0x101000) mod 8)
    else if a = 0x101018 then 23 else if a = 0x10101B \<or> a = 0x10101C then 0x10 else 0)"

definition sample_start :: "memory \<Rightarrow> start_cpu" where
  "sample_start m = \<lparr>gpr = (\<lambda>_. 0)(EAX := 0x36D76289), upper = (\<lambda>_. 0), cr = (\<lambda>_. 0)(CR0 := 1), efer = 0,
    gdtr_limit = 0, gdtr_base = 0, code_seg = 0x10, data_seg = (\<lambda>_. 0x18), long_code = False, was_less = False, ip = 0,
    ram = sample_image m\<rparr>"

lemma sample_layout_ok: "layout_ok sample_labels"
  unfolding layout_ok_def
proof (intro conjI allI impI)
  fix i :: nat assume "i \<le> 40"
  then have "unat (of_nat (0x100000 + 8 * i) :: u32) = 0x100000 + 8 * i" by (intro unat_of_nat_u32) simp
  with \<open>i \<le> 40\<close> show "unat (code_at sample_labels i) < unat (gdt64 sample_labels)" by (simp add: sample_labels_def)
qed (simp_all add: sample_labels_def)

lemma sample_entry_ok: "entry_ok sample_labels (sample_start m)"
proof -
  have at: "unat (of_nat (a + i) :: u64) = a + i" if "a + i < 2 ^ 32" for a i
    using that by (intro unat_of_nat_u64) simp
  have "holds (sample_image m) 0x106000 2048 (\<lambda>_. 0)"
    unfolding holds_def
  proof (intro allI impI)
    fix i :: nat assume "i < 8 * 2048"
    then have "unat (0x106000 + of_nat i :: u64) = 0x106000 + i" using at [of "0x106000" i] by simp
    then show "sample_image m (0x106000 + of_nat i) = byte 0 (i mod 8)"
      by (auto simp: sample_image_def word_unat_eq_iff)
  qed
  moreover have "holds (sample_image m) 0x101000 3 ((!) gdt)"
    unfolding holds_def
  proof (intro allI impI)
    fix i :: nat assume "i < 8 * 3"
    moreover from this have "unat (0x101000 + of_nat i :: u64) = 0x101000 + i" using at [of "0x101000" i] by simp
    ultimately show "sample_image m (0x101000 + of_nat i) = byte (gdt ! (i div 8)) (i mod 8)"
      by (simp add: sample_image_def)
  qed
  ultimately show ?thesis
    by (simp add: entry_ok_def image_ok_def sample_start_def sample_labels_def pml4_def gdt64_ptr_def)
      (simp add: ld16_def ld32_def sample_image_def)
qed

theorem start_enters_kernel_witness:
  "\<exists>c. start_run sample_labels (sample_start (\<lambda>_. 0)) = Some (Inr c) \<and> long_code c \<and> ucast (reg64 EDI c) = (0x36D76289 :: u32)
    \<and> phys c 0x100000 = Some 0x100000"
  using start_enters_kernel [OF sample_layout_ok sample_entry_ok [of "\<lambda>_. 0"]]
  by (auto simp: sample_start_def)

lemma sample_image_low: "unat a < 4096 \<Longrightarrow> ram (sample_start m) a = m a"
  by (simp add: sample_start_def sample_image_def)

lemma sample_tables: "unat (pml4 sample_labels) = 0x106000" "unat (stack_top sample_labels) = 0x106000"
  by (simp_all add: pml4_def stack_top_def sample_labels_def)

theorem processor_sees_framebuffer_witness:
  "\<exists>pt m. paging_map_fb 0xFD000000 0x300000 (first_tables sample_labels) = Inr pt \<and> tables_at m 0x106000 pt
    \<and> walk m 0x106000 0xFD2FFFFF = Some 0xFD2FFFFF \<and> walk m 0x106000 0x100000 = Some 0x100000"
proof -
  have fits: "fits 0xFD000000 0x300000" "2 ^ 30 \<le> unat (0xFD000000 :: u64)" by (simp_all add: fits_def)
  have top: "pml4 sample_labels = 0x106000" by (simp add: pml4_def sample_labels_def)
  obtain pt where pt: "paging_map_fb 0xFD000000 0x300000 (first_tables sample_labels) = Inr pt"
    "tables_at m 0x106000 pt \<Longrightarrow> walk m 0x106000 0xFD2FFFFF = Some 0xFD2FFFFF \<and> walk m 0x106000 0x100000 = Some 0x100000" for m
    using processor_sees_framebuffer [OF sample_layout_ok fits] unfolding top by auto
  note first = first_tables_ok [OF sample_layout_ok, unfolded top]
  have "tables_ok pt" "pd_addr pt = 0x106000 + 8192" "fb_pd_addr pt = 0x106000 + 12288"
    using paging_map_fb_runs [OF first(1) fits(1)] pt(1) first(3,4) by auto
  then have "tables_at (table_memory 0x106000 pt) 0x106000 pt" by (rule table_memory_holds)
  with pt show ?thesis by blast
qed

end
