(* ===== verification/Heap_Bytes.thy ===== *)
theory Heap_Bytes
  imports Heap Bytes
begin

text \<open>
  The heap once more, now in the bytes it lives in: \<open>block_header_t\<close> is 24 bytes (size at 0, \<open>in_use\<close> at 4, \<open>next\<close>
  at 8, \<open>prev\<close> at 16, three bytes of padding) in the same memory that holds what the callers store. \<open>Heap\<close> reads
  headers from a map; the theorems say that on a laid-out heap this makes no difference, and which
  bytes the allocator writes.
\<close>

section \<open>Headers in memory (heap.h)\<close>

definition header :: "memory \<Rightarrow> u64 \<Rightarrow> block_header" where
  "header m a = \<lparr>b_size = ld32 m a, b_in_use = m (a + 4), b_next = ld64 m (a + 8), b_prev = ld64 m (a + 16)\<rparr>"

definition set_size :: "u64 \<Rightarrow> u32 \<Rightarrow> memory \<Rightarrow> memory" where
  "set_size a v m = fill m a 4 (ucast v)"

definition set_in_use :: "u64 \<Rightarrow> u8 \<Rightarrow> memory \<Rightarrow> memory" where
  "set_in_use a v m = fill m (a + 4) 1 (ucast v)"

definition set_next :: "u64 \<Rightarrow> u64 \<Rightarrow> memory \<Rightarrow> memory" where
  "set_next a v m = fill m (a + 8) 8 v"

definition set_prev :: "u64 \<Rightarrow> u64 \<Rightarrow> memory \<Rightarrow> memory" where
  "set_prev a v m = fill m (a + 16) 8 v"

section \<open>The operations (heap.c)\<close>

record byte_heap =
  ram_bytes :: memory
  head_ptr :: u64

definition init_bytes :: "byte_heap \<times> pmm \<Rightarrow> (byte_heap \<times> pmm) result" where
  "init_bytes = (\<lambda>(h, s).
     bind_r (pmm_alloc s) (\<lambda>(a, s).
       let m = set_size a (4096 - 24) (ram_bytes h); m = set_in_use a 0 m; m = set_next a 0 m; m = set_prev a 0 m
       in Inr (\<lparr>ram_bytes = m, head_ptr = a\<rparr>, s)))"

definition resize_bytes :: "u64 \<Rightarrow> u32 \<Rightarrow> memory \<Rightarrow> memory" where
  "resize_bytes block sz m =
     (let new_block = block + 24 + ucast sz;
          m = set_size new_block (b_size (header m block) - (sz + 24)) m;
          m = set_in_use new_block 0 m;
          m = set_next new_block (b_next (header m block)) m;
          m = set_prev new_block block m;
          m = (if b_next (header m block) \<noteq> 0 then set_prev (b_next (header m block)) new_block m else m);
          m = set_next block new_block m
      in set_size block sz m)"

datatype byte_search = Found_at u64 memory | Ran_off "u64 option"

partial_function (option) search_bytes :: "u32 \<Rightarrow> u64 \<Rightarrow> u64 option \<Rightarrow> memory \<Rightarrow> byte_search option" where
  "search_bytes sz block old_block m =
     (if block \<noteq> 0 then
        if b_size (header m block) \<ge> sz \<and> b_size (header m block) - sz \<ge> 24 + 4 then
          Some (Found_at (block + 24) (set_in_use block 1 (resize_bytes block sz m)))
        else if b_size (header m block) \<ge> sz then
          Some (Found_at (block + 24) (set_in_use block 1 m))
        else search_bytes sz (b_next (header m block)) (Some block) m
      else Some (Ran_off old_block))"

definition grow_bytes :: "u32 \<Rightarrow> u64 option \<Rightarrow> byte_heap \<times> pmm \<Rightarrow> (u64 \<times> byte_heap \<times> pmm) result" where
  "grow_bytes sz old_block = (\<lambda>(h, s).
     bind_r (pmm_alloc s) (\<lambda>(new_block, s).
       if new_block = 0 then Inr (0, h, s)
       else case old_block of
         None \<Rightarrow> Inl Uninitialised
       | Some old \<Rightarrow>
           let m = set_next old new_block (ram_bytes h);
               m = set_prev new_block old m;
               m = set_next new_block 0 m;
               m = set_size new_block (4096 - 24) m;
               m = (if b_size (header m new_block) - sz \<ge> 24 + 4 then resize_bytes new_block sz m else m);
               m = set_in_use new_block 1 m
           in Inr (new_block + 24, h\<lparr>ram_bytes := m\<rparr>, s)))"

definition kmalloc_bytes :: "u32 \<Rightarrow> byte_heap \<times> pmm \<Rightarrow> (u64 \<times> byte_heap \<times> pmm) result option" where
  "kmalloc_bytes sz = (\<lambda>(h, s).
     if sz > 4096 - 24 then Some (Inr (0, h, s))
     else Option.bind (search_bytes sz (head_ptr h) None (ram_bytes h)) (\<lambda>r.
       case r of
         Found_at p m \<Rightarrow> Some (Inr (p, h\<lparr>ram_bytes := m\<rparr>, s))
       | Ran_off old_block \<Rightarrow> Some (grow_bytes sz old_block (h, s))))"

definition merge_prev_bytes :: "u64 \<Rightarrow> memory \<Rightarrow> u64 \<times> memory" where
  "merge_prev_bytes block m =
     (let prev_block = b_prev (header m block);
          next_block = b_next (header m block)
      in if prev_block \<noteq> 0 \<and> prev_block + 24 + ucast (b_size (header m prev_block)) = block
            \<and> b_in_use (header m prev_block) = 0 then
           let m = set_size prev_block (b_size (header m prev_block) + (b_size (header m block) + 24)) m;
               m = set_next prev_block next_block m;
               m = (if next_block \<noteq> 0 then set_prev next_block prev_block m else m)
           in (prev_block, m)
         else (block, m))"

definition merge_next_bytes :: "u64 \<Rightarrow> u64 \<Rightarrow> memory \<Rightarrow> memory" where
  "merge_next_bytes next_block block m =
     (if next_block \<noteq> 0 \<and> block + 24 + ucast (b_size (header m block)) = next_block
         \<and> b_in_use (header m next_block) = 0 then
        let m = set_size block (b_size (header m block) + (b_size (header m next_block) + 24)) m;
            m = set_next block (b_next (header m next_block)) m
        in if b_next (header m block) \<noteq> 0 then set_prev (b_next (header m block)) block m else m
      else m)"

definition kfree_bytes :: "u64 \<Rightarrow> memory \<Rightarrow> memory" where
  "kfree_bytes ptr m =
     (let block = ptr - 24;
          next_block = b_next (header m block);
          (block, m) = merge_prev_bytes block m;
          m = merge_next_bytes next_block block m
      in set_in_use block 0 m)"

section \<open>Reading and writing one header\<close>

lemma ld32_cong: "(\<And>i. i < 4 \<Longrightarrow> m' (a + of_nat i) = m (a + of_nat i)) \<Longrightarrow> ld32 m' a = ld32 m a"
proof -
  assume eq: "\<And>i. i < 4 \<Longrightarrow> m' (a + of_nat i) = m (a + of_nat i)"
  from eq [of 0] eq [of 1] eq [of 2] eq [of 3] show ?thesis by (simp add: ld32_def)
qed

lemma ld64_cong: "(\<And>i. i < 8 \<Longrightarrow> m' (a + of_nat i) = m (a + of_nat i)) \<Longrightarrow> ld64 m' a = ld64 m a"
proof -
  assume eq: "\<And>i. i < 8 \<Longrightarrow> m' (a + of_nat i) = m (a + of_nat i)"
  have "ld32 m' a = ld32 m a" by (rule ld32_cong) (simp add: eq)
  moreover have "ld32 m' (a + 4) = ld32 m (a + 4)"
  proof (rule ld32_cong)
    fix i :: nat assume "i < 4"
    then show "m' (a + 4 + of_nat i) = m (a + 4 + of_nat i)" using eq [of "i + 4"] by (simp add: ac_simps)
  qed
  ultimately show ?thesis by (simp add: ld64_def)
qed

lemma header_cong:
  assumes "\<And>i. i < 24 \<Longrightarrow> m' (a + of_nat i) = m (a + of_nat i)"
  shows "header m' a = header m a"
proof -
  have at: "m' (a + of_nat j + of_nat i) = m (a + of_nat j + of_nat i)" if "i + j < 24" for i j
    using assms [of "i + j"] that by (simp add: ac_simps)
  have "ld32 m' a = ld32 m a" by (rule ld32_cong) (use at [of _ 0] in simp)
  moreover have "m' (a + 4) = m (a + 4)" using assms [of 4] by simp
  moreover have "ld64 m' (a + 8) = ld64 m (a + 8)" by (rule ld64_cong) (use at [of _ 8] in simp)
  moreover have "ld64 m' (a + 16) = ld64 m (a + 16)" by (rule ld64_cong) (use at [of _ 16] in simp)
  ultimately show ?thesis by (simp add: header_def)
qed

lemma fill_at:
  assumes "i < 24" and "j + n \<le> 24"
  shows "fill m (a + of_nat j) n v (a + of_nat i) = (if j \<le> i \<and> i < j + n then byte v (i - j) else m (a + of_nat i))"
proof (cases "j \<le> i")
  case True
  have "(a + of_nat i) - (a + of_nat j) = of_nat (i - j)" using True by (simp add: of_nat_diff)
  moreover have "unat (of_nat (i - j) :: u64) = i - j" using assms(1) by (intro unat_of_nat_u64) simp
  ultimately have d: "unat ((a + of_nat i) - (a + of_nat j)) = i - j" by simp
  have "fill m (a + of_nat j) n v (a + of_nat i) = (if i - j < n then byte v (i - j) else m (a + of_nat i))"
    using assms(2) by (subst fill_byte) (simp_all only: d, simp)
  then show ?thesis using True by auto
next
  case False
  have d: "(a + of_nat i) - (a + of_nat j) = - of_nat (j - i)" using False by (simp add: of_nat_diff)
  have "\<not> unat ((a + of_nat i) - (a + of_nat j)) < n"
  proof
    assume n: "unat ((a + of_nat i) - (a + of_nat j)) < n"
    have "unat (of_nat (j - i) :: u64) = j - i" using assms(2) by (intro unat_of_nat_u64) simp
    then have "unat (of_nat (j - i) + ((a + of_nat i) - (a + of_nat j))) = (j - i) + unat ((a + of_nat i) - (a + of_nat j))"
      using n assms(2) by (subst unat_word_ariths) simp
    then show False using False unfolding d by simp
  qed
  then show ?thesis using assms(2) False by (subst fill_byte) simp_all
qed

lemma header_fill:
  assumes "j + n \<le> 24"
  shows "(\<And>i. i < 4 \<Longrightarrow> \<not> (j \<le> i \<and> i < j + n)) \<Longrightarrow> ld32 (fill m (a + of_nat j) n v) a = ld32 m a"
    and "\<not> (j \<le> 4 \<and> 4 < j + n) \<Longrightarrow> fill m (a + of_nat j) n v (a + 4) = m (a + 4)"
    and "(\<And>i. i < 8 \<Longrightarrow> \<not> (j \<le> 8 + i \<and> 8 + i < j + n)) \<Longrightarrow> ld64 (fill m (a + of_nat j) n v) (a + 8) = ld64 m (a + 8)"
    and "(\<And>i. i < 8 \<Longrightarrow> \<not> (j \<le> 16 + i \<and> 16 + i < j + n)) \<Longrightarrow> ld64 (fill m (a + of_nat j) n v) (a + 16) = ld64 m (a + 16)"
proof -
  note at = fill_at [OF _ assms, of _ m a v]
  show "ld32 (fill m (a + of_nat j) n v) a = ld32 m a" if "\<And>i. i < 4 \<Longrightarrow> \<not> (j \<le> i \<and> i < j + n)"
  proof (rule ld32_cong)
    fix i :: nat assume i: "i < 4"
    then show "fill m (a + of_nat j) n v (a + of_nat i) = m (a + of_nat i)" using at [of i] that [OF i] by simp
  qed
  show "fill m (a + of_nat j) n v (a + 4) = m (a + 4)" if "\<not> (j \<le> 4 \<and> 4 < j + n)"
    using at [of 4] that by simp
  show "ld64 (fill m (a + of_nat j) n v) (a + 8) = ld64 m (a + 8)" if "\<And>i. i < 8 \<Longrightarrow> \<not> (j \<le> 8 + i \<and> 8 + i < j + n)"
  proof (rule ld64_cong)
    fix i :: nat assume i: "i < 8"
    then show "fill m (a + of_nat j) n v (a + 8 + of_nat i) = m (a + 8 + of_nat i)"
      using at [of "8 + i"] that [OF i] by (simp add: add.assoc)
  qed
  show "ld64 (fill m (a + of_nat j) n v) (a + 16) = ld64 m (a + 16)" if "\<And>i. i < 8 \<Longrightarrow> \<not> (j \<le> 16 + i \<and> 16 + i < j + n)"
  proof (rule ld64_cong)
    fix i :: nat assume i: "i < 8"
    then show "fill m (a + of_nat j) n v (a + 16 + of_nat i) = m (a + 16 + of_nat i)"
      using at [of "16 + i"] that [OF i] by (simp add: add.assoc)
  qed
qed

lemma ld_fill:
  "ld32 (fill m a 4 v) a = ucast v" "ld64 (fill m a 8 v) a = v"
proof -
  have at: "fill m a n v (a + of_nat i) = byte v i" if "n \<le> 8" "i < n" for n i
    using fill_at [of i 0 n m a v] that by simp
  show "ld32 (fill m a 4 v) a = ucast v" by (rule ld32_bytes) (simp add: at)
  show "ld64 (fill m a 8 v) a = v" by (rule ld64_bytes) (simp add: at)
qed

text \<open>Each assignment sets its field and leaves the other three.\<close>

lemma header_set:
  "header (set_size a n m) a = (header m a)\<lparr>b_size := n\<rparr>"
  "header (set_in_use a u m) a = (header m a)\<lparr>b_in_use := u\<rparr>"
  "header (set_next a p m) a = (header m a)\<lparr>b_next := p\<rparr>"
  "header (set_prev a p m) a = (header m a)\<lparr>b_prev := p\<rparr>"
proof -
  have n: "ucast (ucast n :: u64) = n" by (rule bit_word_eqI) (simp add: bit_simps)
  show "header (set_size a n m) a = (header m a)\<lparr>b_size := n\<rparr>"
    using header_fill(2-4) [of 0 4 m a "ucast n"] by (simp add: header_def set_size_def ld_fill n)
  have "fill m (a + of_nat 4) 1 (ucast u) (a + of_nat 4) = byte (ucast u) 0" by (subst fill_at) simp_all
  moreover have "byte (ucast u) 0 = u" by (rule bit_word_eqI) (simp add: byte_def bit_simps)
  ultimately show "header (set_in_use a u m) a = (header m a)\<lparr>b_in_use := u\<rparr>"
    using header_fill(1,3,4) [of 4 1 m a "ucast u"] by (simp add: header_def set_in_use_def)
  show "header (set_next a p m) a = (header m a)\<lparr>b_next := p\<rparr>"
    using header_fill(1,2,4) [of 8 8 m a p] by (simp add: header_def set_next_def ld_fill)
  show "header (set_prev a p m) a = (header m a)\<lparr>b_prev := p\<rparr>"
    using header_fill(1-3) [of 16 8 m a p] by (simp add: header_def set_prev_def ld_fill)
qed

section \<open>Two memories side by side\<close>

text \<open>
  Header addresses at least 24 bytes apart; the byte memory \<open>m\<close> tracks the header map of \<open>h\<close> at \<open>A\<close>, and outside these
  headers it is still that of \<open>h0\<close>, as is the list head.
\<close>

definition spaced :: "u64 set \<Rightarrow> bool" where
  "spaced A \<longleftrightarrow> (\<forall>a\<in>A. \<forall>b\<in>A. a \<noteq> b \<longrightarrow> 24 \<le> unat (b - a))"

definition untouched :: "u64 set \<Rightarrow> memory \<Rightarrow> memory \<Rightarrow> bool" where
  "untouched A m0 m \<longleftrightarrow> (\<forall>b. (\<forall>a\<in>A. 24 \<le> unat (b - a)) \<longrightarrow> m b = m0 b)"

definition tracks :: "u64 set \<Rightarrow> byte_heap \<Rightarrow> memory \<Rightarrow> heap \<Rightarrow> bool" where
  "tracks A h0 m h \<longleftrightarrow> (\<forall>a\<in>A. header m a = hdr h a) \<and> untouched A (ram_bytes h0) m \<and> head h = head_ptr h0"

lemma tracks_read: "tracks A h0 m h \<Longrightarrow> a \<in> A \<Longrightarrow> header m a = hdr h a"
  by (simp add: tracks_def)

lemma field_elsewhere:
  assumes "24 \<le> unat (b - a)" and "j + n \<le> 24"
  shows "fill m (a + of_nat j) n v b = m b"
proof -
  have "\<not> unat (b - (a + of_nat j)) < n"
  proof
    assume n: "unat (b - (a + of_nat j)) < n"
    have "unat (of_nat j :: u64) = j" using assms(2) by (intro unat_of_nat_u64) simp
    then have "unat (of_nat j + (b - (a + of_nat j))) = j + unat (b - (a + of_nat j))"
      using n assms(2) by (subst unat_word_ariths) simp
    then show False using n assms by (simp add: algebra_simps)
  qed
  then show ?thesis using assms(2) by (subst fill_byte) simp_all
qed

lemma tracks_field:
  assumes "tracks A h0 m h" and "spaced A" and "a \<in> A"
    and "m' = fill m (a + of_nat j) n v" and "j + n \<le> 24" and "header m' a = f (hdr h a)"
  shows "tracks A h0 m' (upd a f h)"
  unfolding tracks_def
proof (intro conjI ballI)
  fix b assume b: "b \<in> A"
  show "header m' b = hdr (upd a f h) b"
  proof (cases "b = a")
    case True
    then show ?thesis using assms(6) by (simp add: upd_def)
  next
    case False
    have "header m' b = header m b"
    proof (rule header_cong)
      fix i :: nat assume i: "i < 24"
      have d: "24 \<le> unat (b - a)" "24 \<le> unat (a - b)" using False b assms(2,3) by (auto simp: spaced_def)
      have "24 \<le> unat ((b + of_nat i) - a)"
      proof -
        have "unat (a - b) + unat (b - a) = 2 ^ 64"
        proof -
          have "unat ((a - b) + (b - a)) = (unat (a - b) + unat (b - a)) mod 2 ^ 64" by (simp only: unat_word_ariths) simp
          then have "(unat (a - b) + unat (b - a)) mod 2 ^ 64 = 0" by simp
          moreover have "unat (a - b) < 2 ^ 64" "unat (b - a) < 2 ^ 64"
            using unsigned_less [of "a - b", where 'a = nat] unsigned_less [of "b - a", where 'a = nat] by simp_all
          ultimately show ?thesis using d by auto
        qed
        moreover have "unat (of_nat i :: u64) = i" using i by (intro unat_of_nat_u64) simp
        ultimately have "unat ((b - a) + of_nat i) = unat (b - a) + i"
          using d(2) i by (subst unat_word_ariths) simp
        then show ?thesis using d(1) by (simp add: algebra_simps)
      qed
      then show "m' (b + of_nat i) = m (b + of_nat i)" unfolding assms(4) by (rule field_elsewhere [OF _ assms(5)])
    qed
    then show ?thesis using False b assms(1) by (simp add: upd_def tracks_def)
  qed
next
  show "untouched A (ram_bytes h0) m'"
    using assms(1,3) field_elsewhere [OF _ assms(5)] unfolding untouched_def tracks_def assms(4) by metis
  show "head (upd a f h) = head_ptr h0" using assms(1) by (simp add: tracks_def upd_def)
qed

lemma tracks_set:
  assumes "tracks A h0 m h" and "spaced A" and "a \<in> A"
  shows "f (hdr h a) = (hdr h a)\<lparr>b_size := n\<rparr> \<Longrightarrow> tracks A h0 (set_size a n m) (upd a f h)"
    and "f (hdr h a) = (hdr h a)\<lparr>b_in_use := u\<rparr> \<Longrightarrow> tracks A h0 (set_in_use a u m) (upd a f h)"
    and "f (hdr h a) = (hdr h a)\<lparr>b_next := p\<rparr> \<Longrightarrow> tracks A h0 (set_next a p m) (upd a f h)"
    and "f (hdr h a) = (hdr h a)\<lparr>b_prev := p\<rparr> \<Longrightarrow> tracks A h0 (set_prev a p m) (upd a f h)"
proof -
  note field = tracks_field [OF assms] and same = tracks_read [OF assms(1,3)]
  show "tracks A h0 (set_size a n m) (upd a f h)" if "f (hdr h a) = (hdr h a)\<lparr>b_size := n\<rparr>"
    by (rule field [of _ 0 4 "ucast n"]) (simp add: set_size_def, simp, simp add: header_set same that)
  show "tracks A h0 (set_in_use a u m) (upd a f h)" if "f (hdr h a) = (hdr h a)\<lparr>b_in_use := u\<rparr>"
    by (rule field [of _ 4 1 "ucast u"]) (simp add: set_in_use_def, simp, simp add: header_set same that)
  show "tracks A h0 (set_next a p m) (upd a f h)" if "f (hdr h a) = (hdr h a)\<lparr>b_next := p\<rparr>"
    by (rule field [of _ 8 8 p]) (simp add: set_next_def, simp, simp add: header_set same that)
  show "tracks A h0 (set_prev a p m) (upd a f h)" if "f (hdr h a) = (hdr h a)\<lparr>b_prev := p\<rparr>"
    by (rule field [of _ 16 8 p]) (simp add: set_prev_def, simp, simp add: header_set same that)
qed

lemma tracks_resize:
  assumes "tracks A h0 m h" and "spaced A" and "a \<in> A" and "a + 24 + ucast sz \<in> A" and "a + 24 + ucast sz \<noteq> a"
    and "b_next (hdr h a) \<noteq> 0 \<Longrightarrow> b_next (hdr h a) \<in> A"
  shows "tracks A h0 (resize_bytes a sz m) (resize_block a sz h)"
proof -
  let ?c = "a + 24 + ucast sz"
  note put = tracks_set [OF _ assms(2)]
  define h1 where "h1 = upd ?c (\<lambda>b. b\<lparr>b_size := b_size (hdr h a) - (sz + 24)\<rparr>) h"
  define m1 where "m1 = set_size ?c (b_size (header m a) - (sz + 24)) m"
  have t1: "tracks A h0 m1 h1"
    unfolding m1_def h1_def by (rule put(1) [OF assms(1,4)]) (simp add: tracks_read [OF assms(1,3)])
  define h2 where "h2 = upd ?c (\<lambda>b. b\<lparr>b_in_use := 0\<rparr>) h1"
  define m2 where "m2 = set_in_use ?c 0 m1"
  have t2: "tracks A h0 m2 h2" unfolding m2_def h2_def by (rule put(2) [OF t1 assms(4)]) simp
  define h3 where "h3 = upd ?c (\<lambda>b. b\<lparr>b_next := b_next (hdr h2 a)\<rparr>) h2"
  define m3 where "m3 = set_next ?c (b_next (header m2 a)) m2"
  have t3: "tracks A h0 m3 h3"
    unfolding m3_def h3_def by (rule put(3) [OF t2 assms(4)]) (simp add: tracks_read [OF t2 assms(3)])
  define h4 where "h4 = upd ?c (\<lambda>b. b\<lparr>b_prev := a\<rparr>) h3"
  define m4 where "m4 = set_prev ?c a m3"
  have t4: "tracks A h0 m4 h4" unfolding m4_def h4_def by (rule put(4) [OF t3 assms(4)]) simp
  define h5 where "h5 = (if b_next (hdr h4 a) \<noteq> 0 then upd (b_next (hdr h4 a)) (\<lambda>b. b\<lparr>b_prev := ?c\<rparr>) h4 else h4)"
  define m5 where "m5 = (if b_next (header m4 a) \<noteq> 0 then set_prev (b_next (header m4 a)) ?c m4 else m4)"
  have "b_next (hdr h4 a) = b_next (hdr h a)"
    using assms(5) by (simp add: h4_def h3_def h2_def h1_def upd_def)
  then have t5: "tracks A h0 m5 h5"
    using put(4) [OF t4, of "b_next (hdr h a)" "\<lambda>b. b\<lparr>b_prev := ?c\<rparr>" ?c] assms(6) t4 tracks_read [OF t4 assms(3)]
    by (simp add: m5_def h5_def)
  define h6 where "h6 = upd a (\<lambda>b. b\<lparr>b_next := ?c\<rparr>) h5"
  define m6 where "m6 = set_next a ?c m5"
  have t6: "tracks A h0 m6 h6" unfolding m6_def h6_def by (rule put(3) [OF t5 assms(3)]) simp
  have "tracks A h0 (set_size a sz m6) (upd a (\<lambda>b. b\<lparr>b_size := sz\<rparr>) h6)" by (rule put(1) [OF t6 assms(3)]) simp
  then show ?thesis
    unfolding m6_def m5_def m4_def m3_def m2_def m1_def h6_def h5_def h4_def h3_def h2_def h1_def
    by (simp add: resize_bytes_def resize_block_def Let_def)
qed

section \<open>Allocation and freeing in bytes\<close>

lemma spaced_layout:
  assumes "layout bs"
  shows "spaced (fst ` set bs)"
  unfolding spaced_def
proof (intro ballI impI)
  fix a b assume "a \<in> fst ` set bs" "b \<in> fst ` set bs" "a \<noteq> b"
  then obtain x y where xy: "x \<in> set bs" "y \<in> set bs" "a = fst x" "b = fst y" by auto
  have "apart x y" if "x \<in> set bs" "y \<in> set bs" "x \<noteq> y" for x y
    using assms that by (induction bs) (auto simp: apart_sym)
  moreover have "x \<noteq> y" using xy \<open>a \<noteq> b\<close> by blast
  ultimately have ap: "hi x \<le> lo y \<or> hi y \<le> lo x" using xy(1,2) by (simp add: apart_def)
  have bound: "hi x \<le> 4294967296" if "x \<in> set bs" for x
    using assms that by (induction bs) auto
  show "24 \<le> unat (b - a)"
  proof (cases "a \<le> b")
    case True
    with ap xy \<open>a \<noteq> b\<close> show ?thesis by (auto simp: unat_sub hi_def lo_def word_le_nat_alt word_unat_eq_iff)
  next
    case False
    then have "unat (a - b) = unat a - unat b" "unat b < unat a" by (auto simp: unat_sub word_le_nat_alt)
    moreover have "unat a < 4294967296" using bound [OF xy(1)] xy(3) by (simp add: hi_def)
    ultimately have u: "0 < unat (a - b)" "unat (a - b) < 4294967296" by simp_all
    show ?thesis
    proof (rule ccontr)
      assume "\<not> 24 \<le> unat (b - a)"
      then have "unat ((a - b) + (b - a)) = unat (a - b) + unat (b - a)" using u(2) by (subst unat_word_ariths) simp
      then show False using u(1) by simp
    qed
  qed
qed

lemma seg_next:
  "seg m q p (xs @ (a, n, u) # ys) p' \<Longrightarrow> p' = 0 \<Longrightarrow> b_next (m a) \<noteq> 0 \<Longrightarrow> b_next (m a) \<in> fst ` set ys"
  by (induction xs arbitrary: q p) (cases ys, auto)+

lemma tracks_search:
  assumes "tracks A h0 m h" and "spaced A" and "seg (hdr h) q p ys 0" and "fst ` set ys \<subseteq> A"
    and "\<And>ptr zs. take_first s ys = Some (ptr, zs) \<Longrightarrow> fst ` set zs \<subseteq> A \<and> layout zs"
  shows "case kmalloc_loop s p old h of None \<Rightarrow> True
    | Some (Found ptr h') \<Rightarrow> \<exists>m'. search_bytes s p old m = Some (Found_at ptr m') \<and> tracks A h0 m' h'
    | Some (Exhausted old') \<Rightarrow> search_bytes s p old m = Some (Ran_off old')"
  using assms(3-5)
proof (induction ys arbitrary: q p old)
  case Nil
  then show ?case by (simp add: kmalloc_loop.simps search_bytes.simps)
next
  case (Cons b ys)
  obtain a n u where b: "b = (a, n, u)" by (cases b)
  with Cons.prems(1) have p: "p = a" "a \<noteq> 0" "b_size (hdr h a) = n" and rest: "seg (hdr h) a (b_next (hdr h a)) ys 0"
    by auto
  have a: "a \<in> A" using Cons.prems(2) b by auto
  note read = tracks_read [OF assms(1) a]
  show ?case
  proof (cases "n \<ge> s")
    case False
    have "case kmalloc_loop s (b_next (hdr h a)) (Some a) h of None \<Rightarrow> True
      | Some (Found ptr h') \<Rightarrow> \<exists>m'. search_bytes s (b_next (hdr h a)) (Some a) m = Some (Found_at ptr m') \<and> tracks A h0 m' h'
      | Some (Exhausted old') \<Rightarrow> search_bytes s (b_next (hdr h a)) (Some a) m = Some (Ran_off old')"
    proof (rule Cons.IH [OF rest])
      show "fst ` set ys \<subseteq> A" using Cons.prems(2) by simp
      show "fst ` set zs \<subseteq> A \<and> layout zs" if "take_first s ys = Some (ptr, zs)" for ptr zs
        using Cons.prems(3) [of ptr "b # zs"] that b False by simp
    qed
    moreover have "kmalloc_loop s p old h = kmalloc_loop s (b_next (hdr h a)) (Some a) h"
      using p False by (simp add: kmalloc_loop.simps [of s a])
    moreover have "search_bytes s p old m = search_bytes s (b_next (hdr h a)) (Some a) m"
      using p False read by (simp add: search_bytes.simps [of s a])
    ultimately show ?thesis by (simp only:)
  next
    case fits: True
    show ?thesis
    proof (cases "n - s \<ge> 28")
      case True
      let ?c = "a + 24 + ucast s"
      have zs: "fst ` set ((a, s, 1) # (?c, n - (s + 24), 0) # ys) \<subseteq> A \<and> layout ((a, s, 1) # (?c, n - (s + 24), 0) # ys)"
        using Cons.prems(3) [of "a + 24" "(a, s, 1) # (?c, n - (s + 24), 0) # ys"] b fits True by simp
      then have c: "?c \<in> A" "?c \<noteq> a" using layout_distinct [of "(a, s, 1) # (?c, n - (s + 24), 0) # ys"] by auto
      have nxt: "b_next (hdr h a) \<in> A" if "b_next (hdr h a) \<noteq> 0"
        using rest that Cons.prems(2) by (cases ys) auto
      have "tracks A h0 (set_in_use a 1 (resize_bytes a s m)) (upd a (\<lambda>b. b\<lparr>b_in_use := 1\<rparr>) (resize_block a s h))"
        by (rule tracks_set(2) [OF tracks_resize [OF assms(1,2) a c nxt] assms(2) a]) simp_all
      then show ?thesis using p fits True read
        by (simp add: kmalloc_loop.simps [of s a] search_bytes.simps [of s a] Let_def)
    next
      case False
      have "tracks A h0 (set_in_use a 1 m) (upd a (\<lambda>b. b\<lparr>b_in_use := 1\<rparr>) h)"
        by (rule tracks_set(2) [OF assms(1,2) a]) simp
      then show ?thesis using p fits False read
        by (simp add: kmalloc_loop.simps [of s a] search_bytes.simps [of s a] Let_def)
    qed
  qed
qed

text \<open>The heap as \<open>Heap\<close> sees it.\<close>

definition heap_of :: "byte_heap \<Rightarrow> heap" where
  "heap_of h = \<lparr>hdr = header (ram_bytes h), head = head_ptr h\<rparr>"

lemma tracks_start: "tracks A h (ram_bytes h) (heap_of h)"
  by (simp add: tracks_def untouched_def heap_of_def)

lemma seg_cong: "\<forall>a \<in> fst ` set bs. m' a = m a \<Longrightarrow> seg m' q p bs p' = seg m q p bs p'"
  by (induction bs arbitrary: q p) auto

lemma tracks_rep:
  assumes "tracks (fst ` set bs) h0 m h" and "heap_rep h bs"
  shows "heap_rep (heap_of (h0\<lparr>ram_bytes := m\<rparr>)) bs"
proof -
  have "\<forall>a \<in> fst ` set bs. header m a = hdr h a" using assms(1) by (simp add: tracks_def)
  from seg_cong [OF this] show ?thesis
    using assms by (simp add: heap_rep_def heap_of_def tracks_def)
qed

lemma tracks_grow:
  assumes "tracks A h0 m h" and "spaced A" and "a \<in> A" and "b \<in> A" and "a \<noteq> b"
    and "4072 - sz \<ge> 28 \<Longrightarrow> a + 24 + ucast sz \<in> A \<and> a + 24 + ucast sz \<noteq> a" and "a \<noteq> 0"
    and "pmm_alloc p = Inr (a, q)" and "kmalloc_grow pmm_alloc sz (Some b) (h, p) = Inr (ptr, h', q')"
  shows "\<exists>m'. grow_bytes sz (Some b) (h0\<lparr>ram_bytes := m\<rparr>, p) = Inr (ptr, h0\<lparr>ram_bytes := m'\<rparr>, q') \<and> tracks A h0 m' h'"
proof -
  note put = tracks_set [OF _ assms(2)]
  define h1 where "h1 = upd b (\<lambda>b. b\<lparr>b_next := a\<rparr>) h"
  define m1 where "m1 = set_next b a m"
  have t1: "tracks A h0 m1 h1" unfolding m1_def h1_def by (rule put(3) [OF assms(1,4)]) simp
  define h2 where "h2 = upd a (\<lambda>c. c\<lparr>b_prev := b\<rparr>) h1"
  define m2 where "m2 = set_prev a b m1"
  have t2: "tracks A h0 m2 h2" unfolding m2_def h2_def by (rule put(4) [OF t1 assms(3)]) simp
  define h3 where "h3 = upd a (\<lambda>b. b\<lparr>b_next := 0\<rparr>) h2"
  define m3 where "m3 = set_next a 0 m2"
  have t3: "tracks A h0 m3 h3" unfolding m3_def h3_def by (rule put(3) [OF t2 assms(3)]) simp
  define h4 where "h4 = upd a (\<lambda>b. b\<lparr>b_size := 4096 - 24\<rparr>) h3"
  define m4 where "m4 = set_size a (4096 - 24) m3"
  have t4: "tracks A h0 m4 h4" unfolding m4_def h4_def by (rule put(1) [OF t3 assms(3)]) simp
  have now: "b_size (hdr h4 a) = 4072" "b_next (hdr h4 a) = 0" by (simp_all add: h4_def h3_def upd_def)
  define h5 where "h5 = (if b_size (hdr h4 a) - sz \<ge> 24 + 4 then resize_block a sz h4 else h4)"
  define m5 where "m5 = (if b_size (header m4 a) - sz \<ge> 24 + 4 then resize_bytes a sz m4 else m4)"
  have t5: "tracks A h0 m5 h5"
    using tracks_resize [OF t4 assms(2,3)] assms(6) now t4 tracks_read [OF t4 assms(3)] by (simp add: h5_def m5_def)
  have t6: "tracks A h0 (set_in_use a 1 m5) (upd a (\<lambda>b. b\<lparr>b_in_use := 1\<rparr>) h5)" by (rule put(2) [OF t5 assms(3)]) simp
  have "kmalloc_grow pmm_alloc sz (Some b) (h, p) = Inr (a + 24, upd a (\<lambda>b. b\<lparr>b_in_use := 1\<rparr>) h5, q)"
    using assms(7,8) by (simp add: kmalloc_grow_def Let_def h5_def h4_def h3_def h2_def h1_def)
  with assms(9) have "ptr = a + 24" "q' = q" "h' = upd a (\<lambda>b. b\<lparr>b_in_use := 1\<rparr>) h5" by simp_all
  moreover have "grow_bytes sz (Some b) (h0\<lparr>ram_bytes := m\<rparr>, p) = Inr (a + 24, h0\<lparr>ram_bytes := set_in_use a 1 m5\<rparr>, q)"
    using assms(7,8) by (simp add: grow_bytes_def Let_def m5_def m4_def m3_def m2_def m1_def)
  ultimately show ?thesis using t6 by blast
qed

lemma take_first_addrs:
  "take_first s bs = Some (p, ds) \<Longrightarrow> fst ` set bs \<subseteq> fst ` set ds"
proof (induction s bs arbitrary: p ds rule: take_first.induct)
  case (2 s a n u bs)
  show ?case
  proof (cases "s \<le> n")
    case True
    then show ?thesis using "2.prems" by (auto split: if_splits)
  next
    case False
    with "2.prems" obtain es where "take_first s bs = Some (p, es)" "ds = (a, n, u) # es" by auto
    with False "2.IH" show ?thesis by auto
  qed
qed simp

text \<open>The addresses the search may touch are among those of the blocks that \<open>kmalloc\<close> leaves.\<close>

lemma kmalloc_spec_addrs:
  assumes "kmalloc_spec sz bs av ptr cs av'" and "sz \<le> 4072" and "layout cs"
  shows "fst ` set bs \<subseteq> fst ` set cs"
    and "take_first sz bs = Some (r, zs) \<Longrightarrow> fst ` set zs \<subseteq> fst ` set cs \<and> layout zs"
proof -
  show "fst ` set bs \<subseteq> fst ` set cs"
  proof (cases "take_first sz bs")
    case None
    then show ?thesis using assms(1,2) by (auto simp: kmalloc_spec_def split: if_splits)
  next
    case (Some r)
    with assms(1,2) have "take_first sz bs = Some (fst r, cs)" by (cases r) (simp add: kmalloc_spec_def not_less [symmetric])
    then show ?thesis by (rule take_first_addrs)
  qed
  show "fst ` set zs \<subseteq> fst ` set cs \<and> layout zs" if "take_first sz bs = Some (r, zs)"
    using that assms by (simp add: kmalloc_spec_def not_less [symmetric])
qed

text \<open>The search has run off the end: a page is taken from the supply, or there is none.\<close>

lemma grow_bytes_run:
  assumes "heap_inv (heap_of h, p) bs" and "heap_inv (h', q) cs" and "sz \<le> 4072"
    and spec: "kmalloc_spec sz bs (page_avail p) ptr cs (page_avail q)"
    and none: "take_first sz bs = None" and old: "old = Some (last_addr 0 bs)" and bs: "bs \<noteq> []"
    and grow: "kmalloc_grow pmm_alloc sz old (heap_of h, p) = Inr (ptr, h', q)"
  shows "\<exists>m'. grow_bytes sz old (h, p) = Inr (ptr, h\<lparr>ram_bytes := m'\<rparr>, q) \<and> tracks (fst ` set cs) h m' h'"
proof -
  let ?A = "fst ` set cs"
  have p: "pmm_ok p" and lay: "layout cs" using assms(1,2) by (simp_all add: heap_inv_def heap_fits_def)
  note t0 = tracks_start [of ?A h]
  obtain a t where a: "pmm_alloc p = Inr (a, t)" using grow by (auto simp: kmalloc_grow_def bind_r_def split: sum.splits)
  show ?thesis
  proof (cases "a = 0")
    case True
    then have "ptr = 0" "h' = heap_of h" "q = t" using grow a by (simp_all add: kmalloc_grow_def)
    with True a t0 show ?thesis by (intro exI [of _ "ram_bytes h"]) (simp add: grow_bytes_def)
  next
    case nonzero: False
    have ptr: "ptr = a + 24" using grow a nonzero old by (auto simp: kmalloc_grow_def Let_def)
    obtain i where i: "i < 1048576" "a = page_addr i"
      using p
    proof (cases rule: pages.alloc_cases)
      case (page b t')
      with a pages.avail_pages [OF p page(2)] that show ?thesis by auto
    qed (use a nonzero in auto)
    have "unat (a + 24) = unat a + 24" using i by (simp add: unat_page_addr unat_word_ariths)
    then have "ptr \<noteq> 0" unfolding ptr by (metis add_is_0 unat_0 zero_neq_numeral)
    then have cs: "cs = bs @ grown sz a" using spec none assms(3) ptr by (auto simp: kmalloc_spec_def split: if_splits)
    have in_A: "a \<in> ?A" "last_addr 0 bs \<in> ?A" using last_addr_in [OF bs, of 0] by (auto simp: cs grown_def)
    have dist: "distinct (map fst bs @ map fst (grown sz a))" using layout_distinct [OF lay] cs by simp
    then have "a \<noteq> last_addr 0 bs" using last_addr_in [OF bs, of 0] by (auto simp: grown_def split: if_splits)
    moreover have "a + 24 + ucast sz \<in> ?A \<and> a + 24 + ucast sz \<noteq> a" if "4072 - sz \<ge> 28"
      using dist that by (auto simp: cs grown_def)
    ultimately show ?thesis
      using tracks_grow [OF t0 spaced_layout [OF lay] in_A _ _ nonzero a] grow old by fastforce
  qed
qed

lemma kmalloc_bytes_run:
  assumes "heap_inv (heap_of h, p) bs"
  shows "\<exists>ptr h' q cs. kmalloc_bytes sz (h, p) = Some (Inr (ptr, h', q)) \<and> heap_inv (heap_of h', q) cs
    \<and> kmalloc_spec sz bs (page_avail p) ptr cs (page_avail q) \<and> untouched (fst ` set cs) (ram_bytes h) (ram_bytes h')"
proof -
  obtain ptr h' q cs where run: "kmalloc sz (heap_of h, p) = Some (Inr (ptr, h', q))" "heap_inv (h', q) cs"
    "kmalloc_spec sz bs (page_avail p) ptr cs (page_avail q)"
    using kmalloc_runs [OF assms] by blast
  let ?A = "fst ` set cs" and ?h = "heap_of h"
  have lay: "layout cs" "layout bs" and rep: "heap_rep h' cs" "heap_rep ?h bs" and bs: "bs \<noteq> []"
    using run(2) assms by (auto simp: heap_inv_def heap_fits_def)
  then have seg: "seg (hdr ?h) 0 (head ?h) bs 0" by (simp add: heap_rep_def)
  have "\<exists>m'. kmalloc_bytes sz (h, p) = Some (Inr (ptr, h\<lparr>ram_bytes := m'\<rparr>, q)) \<and> tracks ?A h m' h'"
  proof (cases "4072 < sz")
    case True
    then have "ptr = 0" "h' = ?h" "q = p" using run(1) by (simp_all add: kmalloc_def kmalloc_on_def)
    with True tracks_start [of ?A h] show ?thesis by (intro exI [of _ "ram_bytes h"]) (simp add: kmalloc_bytes_def)
  next
    case False
    then have sz: "sz \<le> 4072" by simp
    note addrs = kmalloc_spec_addrs [OF run(3) sz lay(1)]
    have search: "case kmalloc_loop sz (head ?h) None ?h of None \<Rightarrow> True
      | Some (Found ptr h') \<Rightarrow> \<exists>m'. search_bytes sz (head ?h) None (ram_bytes h) = Some (Found_at ptr m') \<and> tracks ?A h m' h'
      | Some (Exhausted old') \<Rightarrow> search_bytes sz (head ?h) None (ram_bytes h) = Some (Ran_off old')"
      by (rule tracks_search [OF tracks_start spaced_layout [OF lay(1)] seg addrs(1)]) (rule addrs(2))
    obtain r where r: "kmalloc_loop sz (head ?h) None ?h = Some r"
      using run(1) False by (auto simp: kmalloc_def kmalloc_on_def bind_eq_Some_conv)
    show ?thesis
    proof (cases r)
      case (Found ptr' h'')
      then obtain m' where m': "search_bytes sz (head ?h) None (ram_bytes h) = Some (Found_at ptr' m')" "tracks ?A h m' h''"
        using search r by auto
      moreover have "ptr' = ptr" "h'' = h'" "q = p" using run(1) False r Found by (auto simp: kmalloc_def kmalloc_on_def)
      ultimately show ?thesis using False by (auto simp: kmalloc_bytes_def heap_of_def)
    next
      case (Exhausted old)
      then have "search_bytes sz (head ?h) None (ram_bytes h) = Some (Ran_off old)" using search r by simp
      then have "kmalloc_bytes sz (h, p) = Some (grow_bytes sz old (h, p))"
        using False by (simp add: kmalloc_bytes_def heap_of_def)
      moreover have "kmalloc_grow pmm_alloc sz old (?h, p) = Inr (ptr, h', q)"
        using run(1) False r Exhausted by (simp add: kmalloc_def kmalloc_on_def)
      moreover have "take_first sz bs = None" "old = Some (last_addr 0 bs)"
        using kmalloc_loop_correct [of ?h "[]" bs "head ?h" sz None] rep(2) lay(2) seg r Exhausted bs
        by (auto split: option.splits)
      ultimately show ?thesis using grow_bytes_run [OF assms run(2) sz run(3) _ _ bs] by auto
    qed
  qed
  then obtain m' where m': "kmalloc_bytes sz (h, p) = Some (Inr (ptr, h\<lparr>ram_bytes := m'\<rparr>, q))" "tracks ?A h m' h'" by blast
  have "heap_inv (heap_of (h\<lparr>ram_bytes := m'\<rparr>), q) cs"
    using tracks_rep [OF m'(2) rep(1)] run(2) by (simp add: heap_inv_def)
  with m' run(3) show ?thesis by (auto simp: tracks_def)
qed

definition unlink_bytes :: "u64 \<Rightarrow> u32 \<Rightarrow> u64 \<Rightarrow> memory \<Rightarrow> memory" where
  "unlink_bytes c k nxt m =
    (let m = set_next c nxt (set_size c k m) in if nxt \<noteq> 0 then set_prev nxt c m else m)"

lemma tracks_unlink:
  assumes "tracks A h0 m h" and "spaced A" and "c \<in> A" and "nxt \<noteq> 0 \<Longrightarrow> nxt \<in> A"
  shows "tracks A h0 (unlink_bytes c k nxt m) (unlink c k nxt h)"
proof -
  note put = tracks_set [OF _ assms(2)]
  have t1: "tracks A h0 (set_size c k m) (upd c (\<lambda>b. b\<lparr>b_size := k\<rparr>) h)" by (rule put(1) [OF assms(1,3)]) simp
  have t2: "tracks A h0 (set_next c nxt (set_size c k m)) (upd c (\<lambda>b. b\<lparr>b_next := nxt\<rparr>) (upd c (\<lambda>b. b\<lparr>b_size := k\<rparr>) h))"
    by (rule put(3) [OF t1 assms(3)]) simp
  then show ?thesis using put(4) [OF t2 assms(4), of "\<lambda>b. b\<lparr>b_prev := c\<rparr>" c]
    by (cases "nxt = 0") (simp_all add: unlink_bytes_def unlink_def Let_def)
qed

lemma tracks_merge_prev:
  assumes "tracks A h0 m h" and "spaced A" and "a \<in> A" and "b_prev (hdr h a) \<noteq> a"
    and "b_prev (hdr h a) \<noteq> 0 \<Longrightarrow> b_prev (hdr h a) \<in> A" and "b_next (hdr h a) \<noteq> 0 \<Longrightarrow> b_next (hdr h a) \<in> A"
  shows "fst (merge_prev_bytes a m) = fst (merge_prev a h)
    \<and> tracks A h0 (snd (merge_prev_bytes a m)) (snd (merge_prev a h))"
proof -
  let ?c = "b_prev (hdr h a)" and ?n = "b_next (hdr h a)"
  note read = tracks_read [OF assms(1,3)]
  show ?thesis
  proof (cases "?c \<noteq> 0 \<and> ?c + 24 + ucast (b_size (hdr h ?c)) = a \<and> b_in_use (hdr h ?c) = 0")
    case True
    then have c: "header m ?c = hdr h ?c" using tracks_read [OF assms(1)] assms(5) by blast
    let ?k = "b_size (hdr h ?c) + (b_size (hdr h a) + 24)"
    have "merge_prev a h = (?c, unlink ?c ?k ?n h)" using True assms(4) by (intro merge_prev_unlink) simp_all
    moreover have "merge_prev_bytes a m = (?c, unlink_bytes ?c ?k ?n m)"
      using True read c by (simp add: merge_prev_bytes_def unlink_bytes_def Let_def)
    ultimately show ?thesis using tracks_unlink [OF assms(1,2)] True assms(5,6) by simp
  next
    case False
    then have "merge_prev a h = (a, h)" unfolding merge_prev_def Let_def by presburger
    moreover have "header m ?c = hdr h ?c" if "?c \<noteq> 0" using tracks_read [OF assms(1)] assms(5) that by blast
    then have "merge_prev_bytes a m = (a, m)" using False read unfolding merge_prev_bytes_def Let_def by auto
    ultimately show ?thesis using assms(1) by simp
  qed
qed

lemma tracks_merge_next:
  assumes "tracks A h0 m h" and "spaced A" and "b \<in> A" and "nxt \<noteq> b" and "nxt \<noteq> 0 \<Longrightarrow> nxt \<in> A"
    and "nxt \<noteq> 0 \<Longrightarrow> b_next (hdr h nxt) \<noteq> 0 \<Longrightarrow> b_next (hdr h nxt) \<in> A"
  shows "tracks A h0 (merge_next_bytes nxt b m) (merge_next nxt b h)"
proof -
  note read = tracks_read [OF assms(1,3)]
  show ?thesis
  proof (cases "nxt \<noteq> 0 \<and> b + 24 + ucast (b_size (hdr h b)) = nxt \<and> b_in_use (hdr h nxt) = 0")
    case True
    then have n: "nxt \<in> A" "header m nxt = hdr h nxt" using tracks_read [OF assms(1)] assms(5) by blast+
    let ?k = "b_size (hdr h b) + (b_size (hdr h nxt) + 24)"
    have t1: "tracks A h0 (set_size b ?k m) (upd b (\<lambda>c. c\<lparr>b_size := ?k\<rparr>) h)" by (rule tracks_set(1) [OF assms(1-3)]) simp
    have "header (set_size b ?k m) nxt = hdr h nxt" using tracks_read [OF t1 n(1)] assms(4) by (simp add: upd_def)
    then have "merge_next_bytes nxt b m = unlink_bytes b ?k (b_next (hdr h nxt)) m"
      using True read n(2) by (simp add: merge_next_bytes_def unlink_bytes_def Let_def header_set)
    moreover have "merge_next nxt b h = unlink b ?k (b_next (hdr h nxt)) h"
      using True assms(4) by (intro merge_next_unlink) simp_all
    ultimately show ?thesis using tracks_unlink [OF assms(1-3)] True assms(6) by simp
  next
    case False
    then have "merge_next nxt b h = h" unfolding merge_next_def Let_def by presburger
    moreover have "header m nxt = hdr h nxt" if "nxt \<noteq> 0" using tracks_read [OF assms(1)] assms(5) that by blast
    then have "merge_next_bytes nxt b m = m" using False read unfolding merge_next_bytes_def Let_def by auto
    ultimately show ?thesis using assms(1) by simp
  qed
qed

lemma block_bounds: "layout bs \<Longrightarrow> b \<in> set bs \<Longrightarrow> 0 < lo b \<and> hi b \<le> 4294967296"
  by (induction bs) auto

lemma blocks_apart: "layout bs \<Longrightarrow> b \<in> set bs \<Longrightarrow> c \<in> set bs \<Longrightarrow> b \<noteq> c \<Longrightarrow> apart b c"
  by (induction bs) (auto simp: apart_sym)

lemma block_addr_nonzero: "layout bs \<Longrightarrow> c \<in> fst ` set bs \<Longrightarrow> c \<noteq> 0"
  using block_bounds [of bs] by (force simp: lo_def)

lemma absorb_prev_addr: "absorb_prev xs (a, n, u) = (xs', b) \<Longrightarrow> fst b \<in> fst ` set (xs @ [(a, n, u)])"
  by (cases xs rule: rev_cases; cases "last xs") (auto simp: absorb_prev_def split: if_splits)

text \<open>The freed block's neighbours, as its header names them, are other blocks of the list.\<close>

lemma neighbours:
  assumes "layout (xs @ (a, n, u) # ys)"
  shows "last_addr 0 xs \<noteq> a"
    and "last_addr 0 xs \<noteq> 0 \<Longrightarrow> last_addr 0 xs \<in> fst ` set (xs @ (a, n, u) # ys)"
    and "first_addr ys \<noteq> 0 \<Longrightarrow> first_addr ys \<in> fst ` set (xs @ (a, n, u) # ys)"
    and "c \<in> fst ` set (xs @ [(a, n, u)]) \<Longrightarrow> first_addr ys \<noteq> c"
proof -
  note dist = layout_distinct [OF assms] and nz = block_addr_nonzero [OF assms]
  show "last_addr 0 xs \<noteq> a" using dist last_addr_in [of xs 0] nz [of a] by (cases "xs = []") (simp, force)
  show "last_addr 0 xs \<in> fst ` set (xs @ (a, n, u) # ys)" if "last_addr 0 xs \<noteq> 0"
    using that last_addr_in [of xs 0] by (cases "xs = []") auto
  show "first_addr ys \<in> fst ` set (xs @ (a, n, u) # ys)" if "first_addr ys \<noteq> 0"
    using that by (cases ys) auto
  assume c: "c \<in> fst ` set (xs @ [(a, n, u)])"
  show "first_addr ys \<noteq> c"
  proof (cases ys)
    case Nil
    then show ?thesis using nz [of c] c by auto
  next
    case (Cons y zs)
    then have "fst y \<notin> fst ` set (xs @ [(a, n, u)])" using dist by auto
    then show ?thesis using Cons c by auto
  qed
qed

lemma kfree_bytes_tracks:
  assumes "heap_rep (heap_of h) (xs @ (a, n, u) # ys)" and "layout (xs @ (a, n, u) # ys)"
  shows "tracks (fst ` set (xs @ (a, n, u) # ys)) h (kfree_bytes (a + 24) (ram_bytes h)) (kfree (a + 24) (heap_of h))"
proof -
  let ?A = "fst ` set (xs @ (a, n, u) # ys)" and ?h = "heap_of h"
  note sp = spaced_layout [OF assms(2)] and at = heap_rep_next [OF assms(1)] and nb = neighbours [OF assms(2)]
  have t0: "tracks ?A h (ram_bytes h) ?h" and in_A: "a \<in> ?A" by (simp_all add: tracks_start)
  have read: "b_next (header (ram_bytes h) a) = first_addr ys" using at tracks_read [OF t0 in_A] by simp
  have prev: "b_prev (hdr ?h a) = last_addr 0 xs" using at by simp
  have t1: "fst (merge_prev_bytes a (ram_bytes h)) = fst (merge_prev a ?h)"
    "tracks ?A h (snd (merge_prev_bytes a (ram_bytes h))) (snd (merge_prev a ?h))"
    using tracks_merge_prev [OF t0 sp in_A] nb(1-3) prev at by auto
  obtain xs' b1 where ab: "absorb_prev xs (a, n, u) = (xs', b1)" by (cases "absorb_prev xs (a, n, u)")
  obtain h1 where h1: "merge_prev a ?h = (fst b1, h1)" "heap_rep h1 (xs' @ b1 # ys)"
    using merge_prev_correct [OF assms(1,2) ab] by auto
  have b1: "fst b1 \<in> ?A" "first_addr ys \<noteq> fst b1" using absorb_prev_addr [OF ab] nb(4) by auto
  have next2: "b_next (hdr h1 (first_addr ys)) \<in> ?A" if "first_addr ys \<noteq> 0" "b_next (hdr h1 (first_addr ys)) \<noteq> 0"
  proof (cases ys)
    case (Cons y zs)
    obtain d l w where y: "y = (d, l, w)" by (cases y)
    have "b_next (hdr h1 d) = first_addr zs" using heap_rep_next [of h1 "xs' @ [b1]" d l w zs] h1(2) Cons y by simp
    with that Cons y show ?thesis by (cases zs) auto
  qed (use that in simp)
  let ?m = "merge_next_bytes (first_addr ys) (fst b1) (snd (merge_prev_bytes a (ram_bytes h)))"
  let ?h' = "merge_next (first_addr ys) (fst b1) h1"
  have "tracks ?A h ?m ?h'"
    by (rule tracks_merge_next [OF _ sp b1]) (use t1(2) h1(1) nb(3) next2 in auto)
  then have "tracks ?A h (set_in_use (fst b1) 0 ?m) (upd (fst b1) (\<lambda>b. b\<lparr>b_in_use := 0\<rparr>) ?h')"
    by (rule tracks_set(2) [OF _ sp b1(1)]) simp
  moreover have "kfree_bytes (a + 24) (ram_bytes h) = set_in_use (fst b1) 0 ?m"
    using t1(1) h1(1) read by (simp add: kfree_bytes_def Let_def case_prod_beta)
  moreover have "kfree (a + 24) ?h = upd (fst b1) (\<lambda>b. b\<lparr>b_in_use := 0\<rparr>) ?h'"
    using h1(1) at by (simp add: kfree_def Let_def)
  ultimately show ?thesis by simp
qed

section \<open>What the callers stored\<close>

lemma data_address:
  assumes "layout bs" and "(a, n, u) \<in> set bs" and "i < unat n"
  shows "unat (a + 24 + of_nat i) = unat a + 24 + i"
proof -
  have top: "unat a + 24 + unat n \<le> 4294967296" using block_bounds [OF assms(1,2)] by simp
  have "unat (of_nat (24 + i) :: u64) = 24 + i" using top assms(3) by (intro unat_of_nat_u64) simp
  then have "unat (a + of_nat (24 + i)) = unat a + (24 + i)" using top assms(3) by (subst unat_word_ariths) simp
  then show ?thesis by (simp add: add.assoc)
qed

lemma data_off_headers:
  assumes "layout bs" and "(a, n, u) \<in> set bs" and "i < unat n" and "c \<in> fst ` set bs"
  shows "24 \<le> unat ((a + 24 + of_nat i) - c)"
proof -
  let ?x = "a + 24 + of_nat i"
  note x = data_address [OF assms(1-3)]
  obtain m v where c: "(c, m, v) \<in> set bs" using assms(4) by auto
  have top: "unat a + 24 + unat n \<le> 4294967296" "unat c + 24 + unat m \<le> 4294967296"
    using block_bounds [OF assms(1,2)] block_bounds [OF assms(1) c] by simp_all
  consider "c = a" | "unat c + 24 \<le> unat a" | "unat a + 24 + unat n \<le> unat c"
    using blocks_apart [OF assms(1,2) c] by (cases "(a, n, u) = (c, m, v)") (auto simp: apart_def)
  then show ?thesis
  proof cases
    case 1
    have "unat (of_nat (24 + i) :: u64) = 24 + i" using top(1) assms(3) by (intro unat_of_nat_u64) simp
    then show ?thesis using 1 by simp
  next
    case 3
    show ?thesis
    proof (rule ccontr)
      assume "\<not> 24 \<le> unat (?x - c)"
      then have "unat (c + (?x - c)) = unat c + unat (?x - c)" using top by (subst unat_word_ariths) simp
      moreover have "c + (?x - c) = ?x" by simp
      ultimately have "unat ?x = unat c + unat (?x - c)" by metis
      then show False using x 3 assms(3) by linarith
    qed
  qed (use x in \<open>simp_all add: unat_sub word_le_nat_alt\<close>)
qed

lemma untouched_data:
  assumes "untouched (fst ` set bs) m m'" and "layout bs" and "(a, n, u) \<in> set bs" and "i < unat n"
  shows "m' (a + 24 + of_nat i) = m (a + 24 + of_nat i)"
  using assms(1) data_off_headers [OF assms(2-4)] unfolding untouched_def by blast

lemma free_block_addrs: "fst ` set (free_block xs (a, n, u) ys) \<subseteq> fst ` set (xs @ (a, n, u) # ys)"
proof -
  obtain xs' b where ab: "absorb_prev xs (a, n, u) = (xs', b)" by (cases "absorb_prev xs (a, n, u)")
  obtain b' ys' where ac: "absorb_next b ys = (b', ys')" by (cases "absorb_next b ys")
  have m: "fst (merged c d) = fst c" "fst (mark_free c) = fst c" for c d by (cases c; cases d; simp)+
  have "fst ` set (xs' @ [b]) \<subseteq> fst ` set (xs @ [(a, n, u)])"
    using ab by (cases xs rule: rev_cases) (auto simp: absorb_prev_def m split: if_splits)
  moreover have "fst b' = fst b \<and> set ys' \<subseteq> set ys" using ac by (cases ys) (auto simp: m split: if_splits)
  ultimately show ?thesis using ab ac by (auto simp: free_block_def m)
qed

lemma kfree_bytes_run:
  assumes "heap_inv (heap_of h, p) (xs @ (a, n, u) # ys)"
  shows "heap_inv (heap_of (h\<lparr>ram_bytes := kfree_bytes (a + 24) (ram_bytes h)\<rparr>), p) (free_block xs (a, n, u) ys)
    \<and> untouched (fst ` set (xs @ (a, n, u) # ys)) (ram_bytes h) (kfree_bytes (a + 24) (ram_bytes h))"
proof -
  have rep: "heap_rep (heap_of h) (xs @ (a, n, u) # ys)" "layout (xs @ (a, n, u) # ys)"
    using assms by (auto simp: heap_inv_def heap_fits_def)
  note t = kfree_bytes_tracks [OF rep]
  have freed: "heap_inv (kfree (a + 24) (heap_of h), p) (free_block xs (a, n, u) ys)"
    using assms kfree_correct [of "heap_of h" xs a n u ys "page_avail p"] by (simp add: heap_inv_def)
  let ?m = "kfree_bytes (a + 24) (ram_bytes h)"
  have "\<forall>c \<in> fst ` set (free_block xs (a, n, u) ys). header ?m c = hdr (kfree (a + 24) (heap_of h)) c"
    using t free_block_addrs [of xs a n u ys] unfolding tracks_def by blast
  from seg_cong [OF this] have "heap_rep (heap_of (h\<lparr>ram_bytes := ?m\<rparr>)) (free_block xs (a, n, u) ys)"
    using t freed by (simp add: heap_inv_def heap_rep_def heap_of_def tracks_def)
  with freed t show ?thesis by (simp add: heap_inv_def tracks_def)
qed

text \<open>The first block of the heap, in bytes.\<close>

lemma init_bytes_run:
  assumes "pmm_ok p" and "page_avail p \<noteq> {}"
  shows "\<exists>a h' q. init_bytes (h, p) = Inr (h', q) \<and> a \<in> page_avail p \<and> head_ptr h' = a
    \<and> page_avail q = page_avail p - {a} \<and> (a \<noteq> 0 \<longrightarrow> heap_inv (heap_of h', q) [(a, 4072, 0)])"
proof -
  obtain a h' q where init: "heap_init (heap_of h, p) = Inr (h', q)" "a \<in> page_avail p" "head h' = a"
    "page_avail q = page_avail p - {a}" "a \<noteq> 0 \<longrightarrow> heap_inv (h', q) [(a, 4072, 0)]"
    using heap_init_correct [OF assms, of "heap_of h"] by blast
  obtain b t where bt: "pmm_alloc p = Inr (b, t)"
    using init(1) by (cases "pmm_alloc p") (auto simp: heap_init_def heap_init_on_def)
  then have "head h' = b" "t = q" using init(1) heap_init_head [OF init(1) bt] by (auto simp: heap_init_def heap_init_on_def Let_def)
  with bt init(3) have alloc: "pmm_alloc p = Inr (a, q)" by simp
  let ?m = "set_prev a 0 (set_next a 0 (set_in_use a 0 (set_size a (4096 - 24) (ram_bytes h))))"
  have run: "init_bytes (h, p) = Inr (\<lparr>ram_bytes = ?m, head_ptr = a\<rparr>, q)" using alloc by (simp add: init_bytes_def Let_def)
  have "heap_inv (heap_of \<lparr>ram_bytes = ?m, head_ptr = a\<rparr>, q) [(a, 4072, 0)]" if "a \<noteq> 0"
    using init(5) that by (simp add: heap_inv_def heap_rep_def heap_of_def header_set)
  then show ?thesis using run init(2,4) by auto
qed

section \<open>The allocator over the callers' data\<close>

text \<open>
  C16: \<open>kmalloc\<close> on the bytes is the first fit of the block list, and it writes headers only. From a well-formed heap
  laid out in memory it returns, with the pointer and the block list that first fit by size prescribes,
  again laid out in memory; and every data byte of every block of the new list is what it was before.
\<close>

theorem kmalloc_bytes_refines:
  assumes "heap_inv (heap_of h, p) bs"
  shows "\<exists>ptr h' q cs. kmalloc_bytes sz (h, p) = Some (Inr (ptr, h', q)) \<and> heap_inv (heap_of h', q) cs
    \<and> kmalloc_spec sz bs (page_avail p) ptr cs (page_avail q)
    \<and> (\<forall>(a, n, u) \<in> set cs. \<forall>i<unat n. ram_bytes h' (a + 24 + of_nat i) = ram_bytes h (a + 24 + of_nat i))"
proof -
  obtain ptr h' q cs where run: "kmalloc_bytes sz (h, p) = Some (Inr (ptr, h', q))" "heap_inv (heap_of h', q) cs"
    "kmalloc_spec sz bs (page_avail p) ptr cs (page_avail q)" "untouched (fst ` set cs) (ram_bytes h) (ram_bytes h')"
    using kmalloc_bytes_run [OF assms] by blast
  have "layout cs" using run(2) by (simp add: heap_inv_def heap_fits_def)
  with run untouched_data [OF run(4)] show ?thesis by (intro exI conjI) auto
qed

text \<open>
  C17: \<open>kfree\<close> on the bytes merges as on the block list and touches no data: for a block of a well-formed heap laid out
  in memory the result is laid out as \<open>free_block\<close> says, and every data byte of every block, the freed one
  included, is what it was before.
\<close>

theorem kfree_bytes_keeps_data:
  assumes "heap_inv (heap_of h, p) (xs @ (a, n, u) # ys)"
  shows "heap_inv (heap_of (h\<lparr>ram_bytes := kfree_bytes (a + 24) (ram_bytes h)\<rparr>), p) (free_block xs (a, n, u) ys)
    \<and> (\<forall>(b, k, v) \<in> set (xs @ (a, n, u) # ys). \<forall>i<unat k.
        kfree_bytes (a + 24) (ram_bytes h) (b + 24 + of_nat i) = ram_bytes h (b + 24 + of_nat i))"
proof -
  note run = kfree_bytes_run [OF assms]
  have "layout (xs @ (a, n, u) # ys)" using assms by (simp add: heap_inv_def heap_fits_def)
  with run untouched_data [OF conjunct2 [OF run]] show ?thesis by (intro conjI) auto
qed

text \<open>
  C18: \<open>kmalloc\<close> writes into live data. When the first block is in use and at least 28 bytes larger than the
  request, the call hands out that block again, cuts it, and stores a 24-byte header in the middle of the
  data its owner keeps there.
\<close>

theorem kmalloc_overwrites_live_data:
  assumes "heap_inv (heap_of h, p) ((a, n, u) # bs)" and "u \<noteq> 0" and "unat sz + 28 \<le> unat n" and "sz \<le> 4072"
  shows "\<exists>h' q. kmalloc_bytes sz (h, p) = Some (Inr (a + 24, h', q))
    \<and> header (ram_bytes h') (a + 24 + ucast sz)
        = \<lparr>b_size = n - (sz + 24), b_in_use = 0, b_next = first_addr bs, b_prev = a\<rparr>
    \<and> unat a + 24 \<le> unat (a + 24 + ucast sz) \<and> unat (a + 24 + ucast sz) + 24 \<le> unat a + 24 + unat n"
proof -
  let ?c = "a + 24 + ucast sz"
  have fit: "sz \<le> n" "28 \<le> n - sz" using assms(3) by (simp_all add: word_le_nat_alt unat_sub)
  obtain ptr h' q cs where run: "kmalloc_bytes sz (h, p) = Some (Inr (ptr, h', q))" "heap_inv (heap_of h', q) cs"
    "kmalloc_spec sz ((a, n, u) # bs) (page_avail p) ptr cs (page_avail q)"
    using kmalloc_bytes_run [OF assms(1)] by blast
  then have cs: "ptr = a + 24" "cs = [(a, sz, 1)] @ (?c, n - (sz + 24), 0) # bs"
    using fit assms(4) by (simp_all add: kmalloc_spec_def not_less [symmetric])
  have "heap_rep (heap_of h') ([(a, sz, 1)] @ (?c, n - (sz + 24), 0) # bs)" using run(2) unfolding cs(2) by (simp add: heap_inv_def)
  note at = heap_rep_next [OF this]
  have "header (ram_bytes h') ?c = hdr (heap_of h') ?c" by (simp add: heap_of_def)
  also have "\<dots> = \<lparr>b_size = n - (sz + 24), b_in_use = 0, b_next = first_addr bs, b_prev = a\<rparr>" using at by simp
  finally have hd: "header (ram_bytes h') ?c = \<lparr>b_size = n - (sz + 24), b_in_use = 0, b_next = first_addr bs, b_prev = a\<rparr>" .
  have "unat a + 24 + unat n \<le> 4294967296" using assms(1) by (simp add: heap_inv_def heap_fits_def)
  then have "unat ?c = unat a + 24 + unat sz" using assms(3) by (intro unat_behind) simp
  with run(1) cs(1) hd assms(3) show ?thesis by auto
qed

text \<open>A heap of one free block at address 4096, in a memory of sevens.\<close>

definition sample_bytes :: byte_heap where
  "sample_bytes = \<lparr>ram_bytes = set_size 4096 4072 (set_in_use 4096 0 (set_next 4096 0 (set_prev 4096 0 (\<lambda>_. 7)))), head_ptr = 4096\<rparr>"

lemma sample_bytes_inv: "heap_inv (heap_of sample_bytes, sample_supply) [(4096, 4072, 0)]"
proof -
  have "header (ram_bytes sample_bytes) 4096 = \<lparr>b_size = 4072, b_in_use = 0, b_next = 0, b_prev = 0\<rparr>"
    by (simp add: sample_bytes_def header_set)
  then have "heap_rep (heap_of sample_bytes) [(4096, 4072, 0)]"
    by (simp add: heap_rep_def heap_of_def) (simp add: sample_bytes_def)
  then show ?thesis using sample_heap_inv by (simp add: heap_inv_def)
qed

lemma sample_bytes_used:
  "\<exists>h q. kmalloc_bytes 100 (sample_bytes, sample_supply) = Some (Inr (4120, h, q))
    \<and> heap_inv (heap_of h, q) [(4096, 100, 1), (4220, 3948, 0)] \<and> ram_bytes h 4174 = 7"
proof -
  obtain ptr h' q cs where run: "kmalloc_bytes 100 (sample_bytes, sample_supply) = Some (Inr (ptr, h', q))" "heap_inv (heap_of h', q) cs"
    "kmalloc_spec 100 [(4096, 4072, 0)] (page_avail sample_supply) ptr cs (page_avail q)"
    "untouched (fst ` set cs) (ram_bytes sample_bytes) (ram_bytes h')"
    using kmalloc_bytes_run [OF sample_bytes_inv] by blast
  then have cs: "ptr = 4120" "cs = [(4096, 100, 1), (4220, 3948, 0)]" by (simp_all add: kmalloc_spec_def)
  have "layout cs" using run(2) by (simp add: heap_inv_def heap_fits_def)
  from untouched_data [OF run(4) this, of 4096 100 1 54] have "ram_bytes h' 4174 = ram_bytes sample_bytes 4174" by (simp add: cs)
  also have "\<dots> = 7" by (simp add: sample_bytes_def set_size_def set_in_use_def set_next_def set_prev_def fill_byte)
  finally show ?thesis using run(1,2) cs by simp
qed

theorem kmalloc_bytes_refines_witness:
  "\<exists>h q. kmalloc_bytes 100 (sample_bytes, sample_supply) = Some (Inr (4120, h, q))
    \<and> heap_inv (heap_of h, q) [(4096, 100, 1), (4220, 3948, 0)] \<and> ram_bytes h 4120 = ram_bytes sample_bytes 4120"
proof -
  obtain ptr h' q cs where run: "kmalloc_bytes 100 (sample_bytes, sample_supply) = Some (Inr (ptr, h', q))" "heap_inv (heap_of h', q) cs"
    "kmalloc_spec 100 [(4096, 4072, 0)] (page_avail sample_supply) ptr cs (page_avail q)"
    "\<forall>(a, n, u) \<in> set cs. \<forall>i<unat n. ram_bytes h' (a + 24 + of_nat i) = ram_bytes sample_bytes (a + 24 + of_nat i)"
    using kmalloc_bytes_refines [OF sample_bytes_inv] by blast
  then have cs: "ptr = 4120" "cs = [(4096, 100, 1), (4220, 3948, 0)]" by (simp_all add: kmalloc_spec_def)
  then have "\<forall>i<100. ram_bytes h' (4120 + of_nat i) = ram_bytes sample_bytes (4120 + of_nat i)" using run(4) by simp
  from this [rule_format, of 0] show ?thesis using run(1,2) cs by simp
qed

theorem kfree_bytes_keeps_data_witness:
  "\<exists>h q. heap_inv (heap_of h, q) [(4096, 100, 1), (4220, 3948, 0)] \<and> ram_bytes h 4174 = 7
    \<and> heap_inv (heap_of (h\<lparr>ram_bytes := kfree_bytes 4120 (ram_bytes h)\<rparr>), q) [(4096, 4072, 0)]
    \<and> kfree_bytes 4120 (ram_bytes h) 4174 = 7"
proof -
  obtain h q where h: "heap_inv (heap_of h, q) ([] @ (4096, 100, 1) # [(4220, 3948, 0)])" "ram_bytes h 4174 = 7"
    using sample_bytes_used by auto
  have fb: "free_block [] (4096, 100, 1) [(4220, 3948, 0)] = [(4096, 4072, 0)]" by (simp add: free_block_def absorb_prev_def)
  have freed: "heap_inv (heap_of (h\<lparr>ram_bytes := kfree_bytes 4120 (ram_bytes h)\<rparr>), q) [(4096, 4072, 0)]"
    "\<forall>i<100. kfree_bytes 4120 (ram_bytes h) (4120 + of_nat i) = ram_bytes h (4120 + of_nat i)"
    using kfree_bytes_keeps_data [OF h(1)] unfolding fb by simp_all
  from freed(2) [rule_format, of 54] show ?thesis using h freed(1) by auto
qed

theorem kmalloc_overwrites_live_data_witness:
  "\<exists>h q h' r. kmalloc_bytes 100 (sample_bytes, sample_supply) = Some (Inr (4120, h, q)) \<and> ram_bytes h 4174 = 7
    \<and> kmalloc_bytes 50 (h, q) = Some (Inr (4120, h', r)) \<and> ram_bytes h' 4174 = 0"
proof -
  obtain h q where h: "kmalloc_bytes 100 (sample_bytes, sample_supply) = Some (Inr (4120, h, q))"
    "heap_inv (heap_of h, q) ((4096, 100, 1) # [(4220, 3948, 0)])" "ram_bytes h 4174 = 7"
    using sample_bytes_used by blast
  obtain h' r where "kmalloc_bytes 50 (h, q) = Some (Inr (4120, h', r))"
    "header (ram_bytes h') 4170 = \<lparr>b_size = 26, b_in_use = 0, b_next = 4220, b_prev = 4096\<rparr>"
    using kmalloc_overwrites_live_data [OF h(2), of 50] by auto
  then show ?thesis using h(1,3) by (auto simp: header_def)
qed

end
