(* ===== verification/Blind.thy ===== *)
theory Blind
  imports Boot Relate
begin

text \<open>
  Boot without a framebuffer tag: \<open>fb_init\<close> leaves the pointer to the framebuffer at 0, where any
  pixel would land in the first page of memory. The console then has neither rows nor columns; the contract of
  \<open>Relate\<close> shows that no function of the kernel draws.
\<close>

section \<open>A screen of nothing\<close>

definition dark :: "memory \<Rightarrow> fb \<Rightarrow> bool" where
  "dark v st \<longleftrightarrow> fb_addr st = 0 \<and> fb_pitch st = 0 \<and> fb_width st = 0 \<and> fb_height st = 0 \<and> fb_cols st = 0 \<and> fb_rows st = 0
    \<and> glyph_w st = 0 \<and> glyph_h st = 0 \<and> vram st = v"

definition unlit :: "memory \<Rightarrow> fb \<Rightarrow> fb \<Rightarrow> bool" where
  "unlit v st st' \<longleftrightarrow> dark v st \<and> st' = st"

lemma dark_boot: "dark v (fb_boot v)"
  by (simp add: dark_def fb_boot_def)

lemma dark_updates [simp]:
  "dark v (st\<lparr>cur_col := n\<rparr>) = dark v st" "dark v (st\<lparr>cur_row := n\<rparr>) = dark v st" "dark v (set_cell r c x st) = dark v st"
  by (simp_all add: dark_def set_cell_def)

lemma dark_clear: "dark v st \<Longrightarrow> fb_clear color st = st"
  by (simp add: dark_def fb_clear_def)

lemma dark_fill: "dark v st \<Longrightarrow> fb_fill_cell col row color st = st"
  by (simp add: dark_def fb_fill_cell_def Let_def)

lemma dark_cursor: "dark v st \<Longrightarrow> fb_draw_cursor st = st \<and> fb_erase_cursor st = st"
  by (simp add: dark_def fb_draw_cursor_def fb_erase_cursor_def)

lemma dark_char:
  "dark v st \<Longrightarrow> fb_draw_char col row c fg bg st =
    Inr (if col < SCREEN_MAX_COLS \<and> row < SCREEN_MAX_ROWS then set_cell (unat row) (unat col) c st else st)"
  by (simp add: dark_def fb_draw_char_def Let_def)

text \<open>The loop over the rows of the text buffer counts to \<open>2 ^ 32 - 1\<close>, over no columns.\<close>

lemma dark_scroll: "dark v st \<Longrightarrow> fb_scroll st = Inr (st\<lparr>cur_row := - 1\<rparr>)"
proof -
  assume st: "dark v st"
  have "scroll_text st = Inr st"
    using st for_r_total [of "unat (buf_rows st - 1)" _ "\<lambda>i t. t" st]
    by (simp add: scroll_text_def dark_def buf_cols_def SCREEN_MAX_COLS_def Let_def)
  moreover have same: "st\<lparr>vram := v\<rparr> = st" using st by (cases st) (simp add: dark_def)
  ultimately have "scroll_text (st\<lparr>vram := v\<rparr>) = Inr st" unfolding same by simp
  then show ?thesis using st by (simp add: fb_scroll_def dark_def Let_def)
qed

interpretation none: screen_relation "unlit v" for v
proof unfold_locales
qed (auto simp: rel_fun_def unlit_def dark_clear dark_fill dark_char dark_scroll, auto simp: dark_def)

section \<open>Printing on it\<close>

lemma dark_scroll_if: "dark v st \<Longrightarrow> scroll_if_needed st = Inr (st\<lparr>cur_row := - 1\<rparr>)"
  by (simp add: scroll_if_needed_def dark_scroll) (simp add: dark_def)

lemma dark_advance [simp]: "dark v (advance st) = dark v st"
  by (simp add: advance_def Let_def)

text \<open>The row the cursor is in does not exist: it is 0, or the \<open>- 1\<close> that scrolling leaves.\<close>

definition idle_screen :: "memory \<Rightarrow> fb \<Rightarrow> bool" where
  "idle_screen v st \<longleftrightarrow> dark v st \<and> cur_row st \<in> {0, - 1}"

lemma dark_print_loop:
  assumes "idle_screen v st" and "terminated chars" and "n + length chars \<le> 2 ^ 31"
  shows "ok_r (idle_screen v) (print_loop fg bg (of_nat n) chars st)"
  using assms
proof (induction chars arbitrary: n st)
  case Nil
  then show ?case by (simp add: terminated_def)
next
  case (Cons a as)
  have dark: "dark v st" using Cons.prems(1) by (simp add: idle_screen_def)
  show ?case
  proof (cases "a = 0")
    case True
    with Cons.prems(1) show ?thesis by simp
  next
    case False
    then have as: "terminated as" "0 < length as" using Cons.prems(2) by (auto simp: terminated_def)
    then have inc: "int_inc (of_nat n) = Inr (of_nat (Suc n))" using Cons.prems(3) by (intro int_inc_of_nat) (simp del: length_greater_0_conv)
    let ?at = "advance (st\<lparr>cur_row := - 1\<rparr>)"
    have "idle_screen v ?at" using dark by (simp add: idle_screen_def advance_def Let_def dark_def)
    then have "ok_r (idle_screen v) (print_loop fg bg (of_nat (Suc n)) as ?at)"
      using as(1) Cons.prems(3) by (intro Cons.IH) simp_all
    then show ?thesis using False dark inc by (simp add: dark_scroll_if dark_char SCREEN_MAX_ROWS_def)
  qed
qed

lemma dark_print:
  assumes "idle_screen v st" and "terminated chars" and "length chars \<le> 2 ^ 31"
  shows "ok_r (idle_screen v) (fb_print chars st)"
proof -
  have dark: "dark v st" using assms(1) by (simp add: idle_screen_def)
  have "ok_r (idle_screen v) (print_loop (theme_fg st) (theme_bg st) (of_nat 0) chars st)"
    using assms by (intro dark_print_loop) simp_all
  then obtain st' where "print_loop (theme_fg st) (theme_bg st) 0 chars st = Inr st'" "idle_screen v st'"
    by (auto simp: ok_r_iff)
  moreover from this have "dark v st'" by (simp add: idle_screen_def)
  ultimately show ?thesis using dark by (simp add: fb_print_def fb_print_color_def dark_cursor)
qed

text \<open>A line has no place on the screen.\<close>

lemma dark_println: "idle_screen v st \<Longrightarrow> ok_r (idle_screen v) (fb_println chars st)"
proof -
  assume st: "idle_screen v st"
  then have dark: "dark v st" by (simp add: idle_screen_def)
  then have "fb_rows st = 0" by (simp add: dark_def)
  then show ?thesis
    using dark by (simp add: idle_screen_def fb_println_def fb_println_color_def dark_cursor dark_scroll_if write_fb_def)
qed

lemma dark_redraw:
  assumes "idle_screen v st"
  shows "idle_screen v (fb_clear_screen st)" and "ok_r (idle_screen v) (fb_update_theme fg bg st)"
proof -
  have dark: "dark v st" "dark v (st\<lparr>theme_fg := fg, theme_bg := bg\<rparr>)"
    using assms by (simp_all add: idle_screen_def dark_def)
  have "buf_rows st = 0" using dark(1) by (simp add: buf_rows_def dark_def SCREEN_MAX_ROWS_def)
  then show "idle_screen v (fb_clear_screen st)"
    using dark(1) by (simp add: fb_clear_screen_def dark_clear idle_screen_def)
  have "fb_rows st = 0" using dark(1) by (simp add: dark_def)
  then have "buf_rows (st\<lparr>theme_fg := fg, theme_bg := bg\<rparr>) = 0" by (simp add: buf_rows_def SCREEN_MAX_ROWS_def)
  then show "ok_r (idle_screen v) (fb_update_theme fg bg st)"
    using dark assms dark_clear [OF dark(2)] dark_cursor [OF dark(2)]
    by (simp add: fb_update_theme_def redraw_screen_def idle_screen_def)
qed

text \<open>The contract of the console, with nothing to see.\<close>

interpretation off: console fb_print fb_println fb_clear_screen fb_update_theme "idle_screen v" "\<lambda>_ _. True" "\<lambda>_. ()" "\<lambda>_ u. u" for v
  by unfold_locales (simp_all add: does_def dark_print dark_println dark_redraw)

section \<open>Keys\<close>

text \<open>Everything of \<open>kernel_ok\<close> but the screen.\<close>

definition blind_ok :: "memory \<Rightarrow> kernel \<Rightarrow> bool" where
  "blind_ok v k \<longleftrightarrow> idle_screen v (k_screen k) \<and> kbd_ok (k_kbd k) \<and> length (k_shell k) = 256
    \<and> shell_data_ok (k_pages k) (k_disk k)"

text \<open>A session but for the terminal, which nobody sees, and what a step leaves alone.\<close>

definition same_typing :: "session \<Rightarrow> session \<Rightarrow> bool" where
  "same_typing s s' \<longleftrightarrow> s_input s = s_input s' \<and> s_shift s = s_shift s'"

definition blind_step :: "memory \<Rightarrow> session \<Rightarrow> trace \<Rightarrow> kernel \<Rightarrow> kernel \<Rightarrow> bool" where
  "blind_step v s es k k' \<longleftrightarrow> blind_ok v k' \<and> stopped (k_kbd k') = stopped (k_kbd k) \<and> k_pages k' = k_pages k \<and> k_disk k' = k_disk k
    \<and> same_typing (session_of k') s \<and> k_ports k' = k_ports k @ es"

lemma blind_char:
  assumes "blind_ok v k" and "code < 58" and "unat (line_len (k_kbd k)) < 256"
  shows "\<exists>k'. key_char code k = Inr k' \<and> blind_step v (key_effect p dr (Typed ((if shift (k_kbd k) \<noteq> 0 then uppercase_map
    else scancode_map) ! unat code)) (session_of k)) [] k k'"
proof -
  define c where "c = (if shift (k_kbd k) \<noteq> 0 then uppercase_map else scancode_map) ! unat code"
  have ok: "idle_screen v (k_screen k)" "kbd_ok (k_kbd k)" using assms(1) by (simp_all add: blind_ok_def)
  obtain st where st: "fb_print [c, 0] (k_screen k) = Inr st" "idle_screen v st"
    using dark_print [OF ok(1), of "[c, 0]"] by (auto simp: ok_r_iff terminated_def)
  show ?thesis
    by (rule key_char_runs [OF ok(2) assms(2,3) c_def st(1)])
      (use assms(1) st in \<open>simp add: blind_step_def blind_ok_def same_typing_def session_of_def flip: c_def\<close>)
qed

lemma blind_backspace:
  assumes "blind_ok v k"
  shows "blind_step v (key_effect p dr Erase (session_of k)) [] k (key_backspace k)"
proof (cases "line_len (k_kbd k) = 0")
  case True
  then show ?thesis
    using assms key_backspace_idle [OF True] by (simp add: blind_step_def same_typing_def session_of_def)
next
  case False
  have ok: "idle_screen v (k_screen k)" "kbd_ok (k_kbd k)" using assms by (simp_all add: blind_ok_def)
  have "idle_screen v (fb_backspace (k_screen k))"
    using ok(1) dark_fill dark_cursor by (auto simp: fb_backspace_def idle_screen_def Let_def) (simp_all add: set_cell_def)
  then show ?thesis
    by (cases rule: key_backspace_runs [OF ok(2) False])
      (use assms in \<open>simp add: blind_step_def blind_ok_def same_typing_def session_of_def\<close>)
qed

lemma blind_enter:
  assumes "blind_ok v k" and "unat (line_len (k_kbd k)) < 256" and "length junk = 16"
  shows "\<exists>k'. key_enter junk k = Inr k'
    \<and> blind_step v (key_effect (k_pages k) (k_disk k) Enter (session_of k)) (key_events Enter (session_of k)) k k'"
proof -
  let ?words = "input_words (kbd_input (k_kbd k))" and ?st = "k_screen k"
  have ok: "idle_screen v ?st" "kbd_ok (k_kbd k)" "length (k_shell k) = 256" "shell_data_ok (k_pages k) (k_disk k)"
    and dark: "dark v ?st" using assms(1) by (simp_all add: blind_ok_def idle_screen_def)
  define s1 where "s1 = ?st\<lparr>cur_row := - 1\<rparr>"
  have s1: "fb_set_row (cur_row ?st + 1) ?st = Inr s1"
    using dark dark_scroll [of v "?st\<lparr>cur_row := cur_row ?st + 1\<rparr>"] by (simp add: fb_set_row_def s1_def) (simp add: dark_def)
  have idle: "idle_screen v (fb_set_col 0 s1)" using dark by (simp add: idle_screen_def s1_def fb_set_col_def)
  have row: "int_inc (fb_get_row ?st) = Inr (cur_row ?st + 1)"
    using ok(1) by (auto simp: idle_screen_def fb_get_row_def int_inc_def)
  have shell: "\<exists>buf s2 s3. shell_exec (k_pages k) (k_disk k) junk line (k_shell k, fb_set_col 0 s1, k_ports k)
      = Inr (buf, s2, k_ports k @ reset_events ?words) \<and> fb_print (lit ''> '') s2 = Inr s3
    \<and> (length buf = 256 \<and> idle_screen v (fb_draw_cursor s3))"
    if line: "terminated line" "take 16 (words (take 255 (cstr line))) = ?words" for line
  proof -
    obtain buf s2 where s2: "shell_exec (k_pages k) (k_disk k) junk line (k_shell k, fb_set_col 0 s1, k_ports k)
        = Inr (buf, s2, k_ports k @ reset_events ?words)" "length buf = 256" "idle_screen v s2"
      using off.shell_line_does [OF idle line(1) ok(3) assms(3) ok(4), of "k_ports k"] line(2)
      by (auto simp: shell_exec_def shell_exec_args_def)
    obtain s3 where s3: "fb_print (lit ''> '') s2 = Inr s3" "idle_screen v s3"
      using dark_print [OF s2(3), of "lit ''> ''"] by (auto simp: ok_r_iff)
    moreover have "fb_draw_cursor s3 = s3" using s3(2) dark_cursor by (auto simp: idle_screen_def)
    ultimately show ?thesis using s2 by auto
  qed
  have "fb_erase_cursor ?st = ?st" using dark_cursor [OF dark] by simp
  then show ?thesis
    by (rule key_enter_runs [OF ok(2) assms(2) _ row s1 shell])
      (use ok in \<open>auto simp: blind_step_def blind_ok_def same_typing_def session_of_def\<close>)
qed

text \<open>The interrupt handler, and with it any run that a kernel with a screen could serve.\<close>

definition irq_events :: "irq \<Rightarrow> session \<Rightarrow> trace" where
  "irq_events e s = (case e of Tick \<Rightarrow> [Out8 0x20 0x20, Out8 0x80 0] | Key code \<Rightarrow> irq1_events code @ key_events (key_of (s_shift s) code) s)"

lemma blind_handler:
  assumes "blind_ok v k" and "length junk = 16" and "stopped (k_kbd k) = 0" and "key_fits (Key code) (session_of k)"
  shows "\<exists>k'. keyboard_handler (press code) junk k = Inr k'
    \<and> blind_step v (irq_effect (k_pages k) (k_disk k) (Key code) (session_of k)) (irq_events (Key code) (session_of k)) k k'"
proof -
  let ?k1 = "k\<lparr>k_ports := k_ports k @ irq1_events code\<rparr>" and ?s = "session_of k" and ?key = "key_of (s_shift (session_of k)) code"
  let ?k2 = "?k1\<lparr>k_screen := fb_cursor_activity (k_ticks k) (k_screen k)\<rparr>"
  have "idle_screen v (fb_cursor_activity n st) = idle_screen v st" for n st
    by (simp add: fb_cursor_activity_def idle_screen_def dark_def)
  then have ok: "blind_ok v ?k1" "blind_ok v ?k2" using assms(1) by (simp_all add: blind_ok_def)
  have same: "session_of ?k1 = ?s" "session_of ?k2 = ?s" by (simp_all add: session_of_def)
  have pressed: "pressed_key (press code) k = ?key" by (simp add: pressed_key_def)
  note run = handler_cases [OF assms(3), of "press code" junk, unfolded pressed pressed_press]
  have room: "unat (line_len (k_kbd k)) < 256" if "writes_line ?key"
    using that assms(1,4) input_length [of "k_kbd k"] by (simp add: session_of_def blind_ok_def)
  have step: "blind_step v s (irq1_events code @ es) k k'" if "blind_step v s es ?k2 k'" for s es k'
    using that by (simp add: blind_step_def)
  show ?thesis
  proof (cases ?key)
    case Enter
    then have "unat (line_len (k_kbd ?k2)) < 256" using room by (simp add: writes_line_def)
    from blind_enter [OF ok(2) this assms(2)] show ?thesis
      using Enter step same(2) by (auto simp: run irq_events_def Let_def)
  next
    case Erase
    with blind_backspace [OF ok(2)] step same(2) show ?thesis by (fastforce simp: run irq_events_def Let_def)
  next
    case (Typed c)
    have "unat (line_len (k_kbd ?k2)) < 256" using room Typed by (simp add: writes_line_def)
    moreover have code: "code < 58" "c = (if shift (k_kbd k) \<noteq> 0 then uppercase_map else scancode_map) ! unat code"
      using Typed assms(4) by (auto simp: key_of_def off_map_def session_of_def split: if_splits)
    ultimately show ?thesis
      using blind_char [OF ok(2) code(1), of "k_pages k" "k_disk k"] Typed step same(2)
      by (fastforce simp: run irq_events_def Let_def)
  qed (use ok in \<open>auto simp: run irq_events_def Let_def blind_step_def blind_ok_def kbd_ok_def same_typing_def session_of_def kbd_input_def\<close>)
qed

text \<open>Interrupts have one outcome: the handler uses of the device the scan code only.\<close>

lemma irq_step_det:
  assumes "irq_step junk k e k1" and "irq_step junk k e k2"
  shows "k1 = k2"
proof (cases e)
  case Tick
  with assms show ?thesis by (auto elim!: irq_tickE simp: isr_handler_def)
next
  case (Key code)
  have "keyboard_handler d junk k = keyboard_handler (press (pressed d k)) junk k" for d
    by (simp add: keyboard_handler_def inb_def press_def pressed_def)
  then have "keyboard_handler (press code) junk k = Inr k'" if "irq_step junk k (Key code) k'" for k'
    using that by (auto elim!: irq_keyE simp: isr_handler_def)
  from this [of k1] this [of k2] assms Key show ?thesis by simp
qed

lemma irq_run_det:
  assumes "irq_run junk k evs k1" and "irq_run junk k evs k2"
  shows "k1 = k2"
  using assms
proof (induction arbitrary: k2 rule: irq_run.induct)
  case (run_idle k)
  then show ?case by (cases rule: irq_run.cases) simp_all
next
  case (run_step k evs k1 e k1')
  from run_step.prems obtain k3 where "irq_run junk k evs k3" "irq_step junk k3 e k2"
    by (cases rule: irq_run.cases) simp_all
  with run_step.IH run_step.hyps(2) show ?case using irq_step_det by blast
qed

fun run_events :: "pmm \<Rightarrow> ata_drive \<Rightarrow> irq list \<Rightarrow> session \<Rightarrow> trace" where
  "run_events p dr [] s = []"
| "run_events p dr (e # es) s = irq_events e s @ run_events p dr es (irq_effect p dr e s)"

text \<open>The terminal has no influence on the typing.\<close>

lemma same_typing_irq:
  assumes "same_typing s s'"
  shows "same_typing (irq_effect p dr e s) (irq_effect p dr e s')" "key_fits e s = key_fits e s'" "irq_events e s = irq_events e s'"
proof -
  have eq: "s_input s = s_input s'" "s_shift s = s_shift s'" using assms by (simp_all add: same_typing_def)
  have "same_typing (key_effect p dr ky s) (key_effect p dr ky s')" "key_events ky s = key_events ky s'" for ky
    using eq by (cases ky; simp add: same_typing_def)+
  then show "same_typing (irq_effect p dr e s) (irq_effect p dr e s')" "key_fits e s = key_fits e s'" "irq_events e s = irq_events e s'"
    using assms eq by (cases e; simp add: irq_events_def)+
qed

lemma blind_irq:
  assumes "blind_ok v k" and "length junk = 16" and "stopped (k_kbd k) = 0" and "key_fits e (session_of k)"
  shows "\<exists>k'. irq_step junk k e k'
    \<and> blind_step v (irq_effect (k_pages k) (k_disk k) e (session_of k)) (irq_events e (session_of k)) k k'"
proof (cases e)
  case Tick
  have "fb_update_cursor n (k_screen k) = k_screen k" for n
    using assms(1) dark_cursor by (auto simp: blind_ok_def idle_screen_def fb_update_cursor_def)
  then have "blind_step v (session_of k) [Out8 0x20 0x20, Out8 0x80 0] k (timer_tick k)"
    using assms(1)
    by (simp add: timer_tick_def Let_def blind_step_def blind_ok_def same_typing_def session_of_def pic_eoi_low)
  moreover have "irq_step junk k Tick (timer_tick k)" by (rule step_tick) (simp add: isr_handler_def)
  ultimately show ?thesis using Tick by (auto simp: irq_events_def)
next
  case (Key code)
  then obtain k' where k': "keyboard_handler (press code) junk k = Inr k'"
    "blind_step v (irq_effect (k_pages k) (k_disk k) e (session_of k)) (irq_events e (session_of k)) k k'"
    using blind_handler [OF assms(1-3)] assms(4) by blast
  then have "isr_handler (press code) 0 junk [] 33 0 k = Inr k'" by (simp add: isr_handler_def)
  from step_key [OF this] k'(2) Key show ?thesis by auto
qed

lemma blind_run:
  assumes "blind_ok v k" and "length junk = 16" and "stopped (k_kbd k) = 0" and "run_fits (k_pages k) (k_disk k) evs s"
    and "same_typing (session_of k) s"
  shows "\<exists>k'. irq_run junk k evs k' \<and> k_ports k' = k_ports k @ run_events (k_pages k) (k_disk k) evs s"
  using assms(1,3-)
proof (induction evs arbitrary: k s)
  case Nil
  then show ?case using run_idle by auto
next
  case (Cons e evs)
  let ?p = "k_pages k" and ?dr = "k_disk k"
  note same = same_typing_irq [OF Cons.prems(4)]
  obtain k1 where k1: "irq_step junk k e k1" "blind_step v (irq_effect ?p ?dr e (session_of k)) (irq_events e s) k k1"
    using blind_irq [OF Cons.prems(1) assms(2) Cons.prems(2), of e] Cons.prems(3) same(2,3) by auto
  then have "same_typing (session_of k1) (irq_effect ?p ?dr e s)"
    using same(1) [of ?p ?dr e] by (simp add: blind_step_def same_typing_def)
  moreover have "k_pages k1 = ?p" "k_disk k1 = ?dr" "blind_ok v k1" "stopped (k_kbd k1) = 0" "k_ports k1 = k_ports k @ irq_events e s"
    using k1(2) Cons.prems(2) by (simp_all add: blind_step_def)
  ultimately obtain k2 where "irq_run junk k1 evs k2"
    "k_ports k2 = k_ports k @ run_events ?p ?dr (e # evs) s"
    using Cons.IH [of k1 "irq_effect ?p ?dr e s"] Cons.prems(3) by auto
  with run_Cons [OF _ k1(1)] show ?case by blast
qed

section \<open>Boot\<close>

text \<open>What is known of the kernel after boot; \<open>D\<close> is what is known of the drive record.\<close>

definition blind_booted ::
  "memory \<Rightarrow> pics \<Rightarrow> (nat \<Rightarrow> u64) \<Rightarrow> bool list \<Rightarrow> page_tables \<Rightarrow> (ata_drive \<Rightarrow> bool) \<Rightarrow> kernel \<Rightarrow> bool" where
  "blind_booted v p stub pm pt D k \<longleftrightarrow> idle_screen v (k_screen k) \<and> k_sti k \<and> lines_open p {0, 1} (k_ports k) \<and> gates_ok stub (k_idt k)
    \<and> k_tables k = pt \<and> heap_ready pm (k_heap k) (k_pages k) \<and> pages_left pm (k_pages k) \<and> k_kbd k = kbd_boot
    \<and> length (k_shell k) = 256 \<and> shell_data_ok (k_pages k) (k_disk k) \<and> D (k_disk k)"

text \<open>The drive record, and a message if the identification failed.\<close>

lemma dark_ata:
  assumes "boot_device_ok p d buf" and "idle_screen v st" and "shell_data_ok pg drive_boot"
  shows "\<exists>dr st' tr'. ata_init_on fb_println d buf drive_boot st tr = Inr (dr, st', tr') \<and> idle_screen v st'
    \<and> (\<forall>p. pics_after p tr' = pics_after p tr) \<and> shell_data_ok pg dr \<and> (disk_read d buf dr \<or> disk_absent d buf dr)"
proof (rule ata_outcome [OF assms(1), where tr = tr], goal_cases failed filled)
  case (failed tr')
  obtain st' where "fb_println (lit ''Drive identification failed'') st = Inr st'" "idle_screen v st'"
    using dark_println [OF assms(2)] by (auto simp: ok_r_iff)
  with failed assms(3) show ?case by auto
next
  case (filled tr' dr)
  with assms(2,3) show ?case by blast
qed

lemma blind_early:
  assumes "mmap_at m mbi t es n" and "pm = page_map (regions m t es 0 n)" and "length pm \<le> 1048576"
    and "mb2_find_tag m mbi MB2_TAG_FB = Some 0"
  obtains q i h' where "boot_early m mbi stub ia (kernel_boot v h a b) = Some (Inr ((kernel_boot v h a b)
      \<lparr>k_pages := q, k_idt := i, k_heap := h', k_ports := pic_init [], k_sti := True\<rparr>))"
    "pmm_ok q" "heap_ready pm h' q" "pages_left pm q" "gates_ok stub i"
proof -
  obtain q i h' q' where q: "pmm_init m mbi pmm_boot = Some (Inr q)"
    and i: "idt_init stub ia idt_boot = Inr i" "gates_ok stub i"
    and heap: "heap_init (\<lparr>hdr = h, head = 0\<rparr>, q) = Inr (h', q')" "pmm_ok q'" "heap_ready pm h' q'" "pages_left pm q'"
    by (rule boot_parts [OF assms(1-3)])
  have "fb_init m mbi (fb_boot v) = Some (fb_boot v)" using assms(4) by (simp add: fb_init_def)
  moreover have "paging_map_fb (fb_get_addr (fb_boot v)) (fb_get_size (fb_boot v)) pt = Inr pt" for pt
    by (simp add: paging_map_fb_def fb_get_addr_def fb_boot_def)
  ultimately have "boot_early m mbi stub ia (kernel_boot v h a b) = Some (Inr ((kernel_boot v h a b)
      \<lparr>k_pages := q', k_idt := i, k_heap := h', k_ports := pic_init [], k_sti := True\<rparr>))"
    using q i(1) heap(1) dark_clear [OF dark_boot, of FB_BLACK v] by (simp add: boot_early_def kernel_boot_def Let_def)
  from that [OF this heap(2-4) i(2)] show thesis .
qed

lemma blind_late:
  assumes "boot_device_ok p d buf" and "idle_screen v (k_screen k)" and "k_disk k = drive_boot" and "shell_data_ok (k_pages k) drive_boot"
    and "lines_open p {} (k_ports k)"
  shows "\<exists>st dr tr. seq_r (boot_late d buf) k = Inr (k\<lparr>k_screen := st, k_disk := dr, k_ports := tr\<rparr>) \<and> idle_screen v st
    \<and> lines_open p {0, 1} tr \<and> shell_data_ok (k_pages k) dr \<and> (disk_read d buf dr \<or> disk_absent d buf dr)"
proof -
  have mask: "mask_readback d p" using assms(1) by (simp add: boot_device_ok_def)
  have dark: "dark v (k_screen k)" using assms(2) by (simp add: idle_screen_def)
  obtain tr1 where tr1: "pit_init d (k_ports k) = Inr tr1" "lines_open p {0} tr1"
    using unmask_lines [OF assms(5) mask _ pit_call] by (auto simp: ok_r_iff)
  obtain dr st1 tr2 where ata: "ata_init_on fb_println d buf drive_boot (k_screen k) tr1 = Inr (dr, st1, tr2)" "idle_screen v st1"
    "\<forall>p. pics_after p tr2 = pics_after p tr1" "shell_data_ok (k_pages k) dr" "disk_read d buf dr \<or> disk_absent d buf dr"
    using dark_ata [OF assms(1,2,4)] by blast
  obtain st2 where st2: "fb_println (lit ''Welcome to JordanOS'') st1 = Inr st2" "idle_screen v st2"
    using dark_println [OF ata(2)] by (auto simp: ok_r_iff)
  obtain st3 where st3: "fb_println (lit ''Type a command or help'') st2 = Inr st3" "idle_screen v st3"
    using dark_println [OF st2(2)] by (auto simp: ok_r_iff)
  obtain st4 where st4: "fb_print (lit ''> '') st3 = Inr st4" "idle_screen v st4"
    using dark_print [OF st3(2) terminated_lit, of "''> ''"] by (auto simp: ok_r_iff)
  have "lines_open p {0} tr2" using tr1(2) ata(3) by (simp add: lines_open_def)
  then obtain tr3 where tr3: "keyboard_init d tr2 = Inr tr3" "lines_open p {1, 0} tr3"
    using unmask_lines [OF _ mask _ keyboard_call] by (fastforce simp: ok_r_iff)
  have "seq_r (boot_late d buf) k = Inr (k\<lparr>k_screen := st4, k_disk := dr, k_ports := tr3\<rparr>)"
    using tr1(1) ata(1) st2(1) st3(1) st4(1) tr3(1) assms(3) dark_clear [OF dark]
    by (simp add: boot_late_def port_call_def con_call_def boot_ata_init_def)
  with st4(2) tr3(2) ata(4,5) show ?thesis by (auto simp: insert_commute)
qed

text \<open>The whole of \<open>kernel_main\<close>, whatever the tag search leaves of the screen.\<close>

lemma blind_main:
  assumes "mmap_at m mbi t es n" and "pm = page_map (regions m t es 0 n)" and "length pm \<le> 1048576"
    and "mb2_find_tag m mbi MB2_TAG_FB = Some 0" and "boot_device_ok p d buf"
  obtains k where "kernel_main m mbi stub ia d buf (kernel_boot v h a b) = Some (Inr k)"
    "blind_booted v p stub pm (boot_tables a b) (\<lambda>dr. disk_read d buf dr \<or> disk_absent d buf dr) k"
proof -
  obtain q i h' where early: "boot_early m mbi stub ia (kernel_boot v h a b) = Some (Inr ((kernel_boot v h a b)
      \<lparr>k_pages := q, k_idt := i, k_heap := h', k_ports := pic_init [], k_sti := True\<rparr>))"
    and ok: "pmm_ok q" "heap_ready pm h' q" "pages_left pm q" "gates_ok stub i"
    by (rule blind_early [OF assms(1-4)])
  let ?k = "(kernel_boot v h a b)\<lparr>k_pages := q, k_idt := i, k_heap := h', k_ports := pic_init [], k_sti := True\<rparr>"
  have "idle_screen v (k_screen ?k)" "k_disk ?k = drive_boot"
    using dark_boot [of v] by (simp_all add: kernel_boot_def idle_screen_def) (simp add: fb_boot_def)
  moreover have "shell_data_ok (k_pages ?k) drive_boot" using shell_data_boot [OF ok(1)] by simp
  moreover have "lines_open p {} (k_ports ?k)" by (simp add: lines_open_def pic_init_sets pics_set_masked pics_set_vector)
  ultimately obtain st dr tr where late: "seq_r (boot_late d buf) ?k = Inr (?k\<lparr>k_screen := st, k_disk := dr, k_ports := tr\<rparr>)"
    "idle_screen v st" "lines_open p {0, 1} tr" "shell_data_ok (k_pages ?k) dr" "disk_read d buf dr \<or> disk_absent d buf dr"
    using blind_late [OF assms(5)] by blast
  show thesis
  proof (rule that)
    show "kernel_main m mbi stub ia d buf (kernel_boot v h a b) = Some (Inr (?k\<lparr>k_screen := st, k_disk := dr, k_ports := tr\<rparr>))"
      using early late(1) by (simp add: kernel_main_def)
    show "blind_booted v p stub pm (boot_tables a b) (\<lambda>dr. disk_read d buf dr \<or> disk_absent d buf dr)
        (?k\<lparr>k_screen := st, k_disk := dr, k_ports := tr\<rparr>)"
      using late(2-5) ok by (simp add: blind_booted_def kernel_boot_def)
  qed
qed

lemma blind_booted_ok:
  assumes "blind_booted v p stub pm pt D k"
  shows "blind_ok v k" "stopped (k_kbd k) = 0" "s_input (session_of k) = []" "\<not> s_shift (session_of k)"
  using assms by (simp_all add: blind_booted_def blind_ok_def kbd_boot_def session_of_def kbd_input_def) (simp add: kbd_ok_def)

text \<open>Whatever runs, no byte of memory behind the null pointer changes.\<close>

lemma blind_memory:
  assumes "blind_ok v k" and "irq_run junk k evs k'"
  shows "vram (k_screen k') = v"
proof -
  have "over (unlit v) k k" using assms(1) by (simp add: over_def unlit_def blind_ok_def idle_screen_def)
  then obtain l' where "over (unlit v) k' l'" using none.irq_run_rel [OF assms(2)] by blast
  then show ?thesis by (simp add: over_def unlit_def dark_def)
qed

section \<open>The system without a framebuffer\<close>

text \<open>
  C12: Without a framebuffer tag in the boot information, \<open>kernel_main\<close> still reaches its idle loop with gates, heap, page counters,
  drive record and open interrupt lines as usual and the boot page tables unchanged. From then on every run of interrupts that a kernel
  with a screen could serve is served; and although the pointer to the framebuffer is null, no run writes a single
  byte through it.
\<close>

theorem no_framebuffer_no_write:
  assumes "mmap_at m mbi t es n" and "pm = page_map (regions m t es 0 n)" and "length pm \<le> 1048576"
    and "mb2_find_tag m mbi MB2_TAG_FB = Some 0" and "boot_device_ok p d buf" and "length junk = 16"
  shows "\<exists>k. kernel_main m mbi stub ia d buf (kernel_boot v h a b) = Some (Inr k)
    \<and> fb_addr (k_screen k) = 0 \<and> vram (k_screen k) = v \<and> k_tables k = boot_tables a b
    \<and> lines_open p {0, 1} (k_ports k) \<and> gates_ok stub (k_idt k) \<and> heap_ready pm (k_heap k) (k_pages k) \<and> pages_left pm (k_pages k)
    \<and> (disk_read d buf (k_disk k) \<or> disk_absent d buf (k_disk k))
    \<and> (\<forall>evs. run_fits (k_pages k) (k_disk k) evs (session_of k) \<longrightarrow> (\<exists>k'. irq_run junk k evs k'))
    \<and> (\<forall>evs k'. irq_run junk k evs k' \<longrightarrow> vram (k_screen k') = v)"
proof (rule blind_main [OF assms(1-5)])
  fix k assume k: "kernel_main m mbi stub ia d buf (kernel_boot v h a b) = Some (Inr k)"
    "blind_booted v p stub pm (boot_tables a b) (\<lambda>dr. disk_read d buf dr \<or> disk_absent d buf dr) k"
  note ok = blind_booted_ok [OF k(2)]
  have "\<exists>k'. irq_run junk k evs k'" if "run_fits (k_pages k) (k_disk k) evs (session_of k)" for evs
    using blind_run [OF ok(1) assms(6) ok(2) that] by (auto simp: same_typing_def)
  moreover have "vram (k_screen k') = v" if "irq_run junk k evs k'" for evs k' by (rule blind_memory [OF ok(1) that])
  ultimately show ?thesis using k by (auto simp: blind_booted_def idle_screen_def dark_def)
qed

text \<open>A boot information block with the sample's memory map and nothing else.\<close>

definition blind_mbi :: memory where
  "blind_mbi = (\<lambda>a. if unat a < 72 then boot_mbi a else 0)"

lemma blind_mbi_ok:
  "mmap_at blind_mbi 0 8 24 2" "[False, True, True, True] = page_map (regions blind_mbi 8 24 0 2)"
  "mb2_find_tag blind_mbi 0 MB2_TAG_FB = Some 0"
proof -
  have tags: "tags_at blind_mbi (0 + 8) [(8, MB2_TAG_MMAP)]"
    by (simp add: blind_mbi_def boot_mbi_def tag_type_def tag_size_def mb2_next_tag_def ld32_def
        MB2_TAG_END_def MB2_TAG_FB_def MB2_TAG_MMAP_def)
  have find: "mb2_find_tag blind_mbi 0 MB2_TAG_MMAP = Some 8"
    using find_tag_tags [OF tags] by (simp add: MB2_TAG_END_def MB2_TAG_FB_def MB2_TAG_MMAP_def)
  show "mb2_find_tag blind_mbi 0 MB2_TAG_FB = Some 0"
    using find_tag_tags [OF tags] by (simp add: MB2_TAG_END_def MB2_TAG_FB_def MB2_TAG_MMAP_def)
  show "mmap_at blind_mbi 0 8 24 2" "[False, True, True, True] = page_map (regions blind_mbi 8 24 0 2)"
    using boot_map_like [OF _ find] by (simp_all add: blind_mbi_def)
qed

theorem no_framebuffer_no_write_witness:
  "\<exists>k k'. kernel_main blind_mbi 0 (\<lambda>_. 0) 0 sample_device (replicate 256 0) (kernel_boot (\<lambda>_. 7) blank_heap 0x103000 0x104000)
      = Some (Inr k) \<and> irq_run (replicate 16 0) k [Tick, Tick] k' \<and> vram (k_screen k') = (\<lambda>_. 7)"
proof -
  obtain k where k: "kernel_main blind_mbi 0 (\<lambda>_. 0) 0 sample_device (replicate 256 0)
      (kernel_boot (\<lambda>_. 7) blank_heap 0x103000 0x104000) = Some (Inr k)"
    "\<forall>evs. run_fits (k_pages k) (k_disk k) evs (session_of k) \<longrightarrow> (\<exists>k'. irq_run (replicate 16 0) k evs k')"
    "\<forall>evs k'. irq_run (replicate 16 0) k evs k' \<longrightarrow> vram (k_screen k') = (\<lambda>_. 7)"
    using no_framebuffer_no_write [OF blind_mbi_ok(1,2) _ blind_mbi_ok(3) sample_device_ok, of "replicate 16 0" "\<lambda>_. 0" 0 "\<lambda>_. 7"
      blank_heap "0x103000" "0x104000"] by auto
  have "run_fits (k_pages k) (k_disk k) [Tick, Tick] (session_of k)" by simp
  with k show ?thesis by blast
qed

text \<open>The port accesses of a run end with those of its last interrupt.\<close>

lemma run_events_snoc: "run_events p dr (es @ [e]) s = run_events p dr es s @ irq_events e (run_session p dr es s)"
  by (induction es arbitrary: s) (simp_all add: run_session_def)

text \<open>
  C13: The machine can be worked blind. Without a framebuffer, the keys that type a line of at most 255 characters and Enter can be
  served, whatever timer interrupts come in between; in every such run the port accesses of Enter are the last:
  the scan code is read, the interrupt acknowledged, and the line's words have reached the shell, so that \<open>reboot\<close> resets the machine.
\<close>

theorem no_framebuffer_line:
  assumes "mmap_at m mbi t es n" and "pm = page_map (regions m t es 0 n)" and "length pm \<le> 1048576"
    and "mb2_find_tag m mbi MB2_TAG_FB = Some 0" and "boot_device_ok p d buf" and "length junk = 16"
    and "types False codes cs" and "length cs \<le> 255" and "filter (\<lambda>e. e \<noteq> Tick) evs = map Key codes"
  shows "\<exists>k. kernel_main m mbi stub ia d buf (kernel_boot v h a b) = Some (Inr k)
    \<and> (\<exists>k'. irq_run junk k (evs @ [Key 0x1C]) k')
    \<and> (\<forall>k'. irq_run junk k (evs @ [Key 0x1C]) k' \<longrightarrow> (\<exists>tr. k_ports k' = tr @ [In8 0x60 0x1C, Out8 0x20 0x20, Out8 0x80 0]
        @ (if take 16 (words cs) = [bytes ''reboot''] then [Out8 0x64 0xFE, Out8 0xCF9 0x06] else [])))"
proof (rule blind_main [OF assms(1-5)])
  fix k assume k: "kernel_main m mbi stub ia d buf (kernel_boot v h a b) = Some (Inr k)"
    "blind_booted v p stub pm (boot_tables a b) (\<lambda>dr. disk_read d buf dr \<or> disk_absent d buf dr) k"
  let ?s = "session_of k" and ?p = "k_pages k" and ?dr = "k_disk k"
  note ok = blind_booted_ok [OF k(2)]
  have types: "types (s_shift ?s) codes cs" using assms(7) ok(4) by simp
  have typed: "s_input (run_session ?p ?dr evs ?s) = cs"
    using session_types [OF types, of ?p ?dr] run_session_ticks [of ?p ?dr evs] assms(9) ok(3) by simp
  have enter: "key_of u 0x1C = Enter" for u by (simp add: key_of_def)
  have "run_fits ?p ?dr evs ?s"
    using run_fits_types [OF types, of ?p ?dr] run_fits_ticks [of ?p ?dr evs] assms(8,9) ok(3) by simp
  then have "run_fits ?p ?dr (evs @ [Key 0x1C]) ?s"
    using typed assms(8) by (simp add: run_fits_snoc off_map_def)
  then obtain k' where run: "irq_run junk k (evs @ [Key 0x1C]) k'"
    "k_ports k' = k_ports k @ run_events ?p ?dr (evs @ [Key 0x1C]) ?s"
    using blind_run [OF ok(1) assms(6) ok(2), of "evs @ [Key 0x1C]" ?s] by (auto simp: same_typing_def)
  have "input_words cs = take 16 (words cs)" by (rule types_words [OF assms(7,8)])
  then have "k_ports k' = (k_ports k @ run_events ?p ?dr evs ?s) @ [In8 0x60 0x1C, Out8 0x20 0x20, Out8 0x80 0]
      @ (if take 16 (words cs) = [bytes ''reboot''] then [Out8 0x64 0xFE, Out8 0xCF9 0x06] else [])"
    using run(2) typed by (simp add: run_events_snoc irq_events_def irq1_events_def enter reset_events_def)
  with run(1) irq_run_det [OF _ run(1)] have "(\<exists>k'. irq_run junk k (evs @ [Key 0x1C]) k')
    \<and> (\<forall>k'. irq_run junk k (evs @ [Key 0x1C]) k' \<longrightarrow> (\<exists>tr. k_ports k' = tr @ [In8 0x60 0x1C, Out8 0x20 0x20, Out8 0x80 0]
        @ (if take 16 (words cs) = [bytes ''reboot''] then [Out8 0x64 0xFE, Out8 0xCF9 0x06] else [])))" by blast
  with k(1) show ?thesis by blast
qed

theorem no_framebuffer_line_witness:
  "\<exists>k k' tr. kernel_main blind_mbi 0 (\<lambda>_. 0) 0 sample_device (replicate 256 0) (kernel_boot (\<lambda>_. 7) blank_heap 0x103000 0x104000)
      = Some (Inr k) \<and> irq_run (replicate 16 0) k ([Key 0x13, Tick, Key 0x12, Key 0x30, Key 0x18, Key 0x18, Tick, Key 0x14] @ [Key 0x1C]) k'
    \<and> k_ports k' = tr @ [Out8 0x64 0xFE, Out8 0xCF9 0x06]"
proof -
  let ?evs = "[Key 0x13, Tick, Key 0x12, Key 0x30, Key 0x18, Key 0x18, Tick, Key 0x14]"
  have types: "types False [0x13, 0x12, 0x30, 0x18, 0x18, 0x14] (bytes ''reboot'')"
    by (simp add: types_def key_of_def scancode_map_def bytes_def)
  have words: "take 16 (words (bytes ''reboot'')) = [bytes ''reboot'']" by (simp add: bytes_def words.simps)
  have len: "length (bytes ''reboot'') \<le> 255" by (simp add: bytes_def)
  obtain k where k: "kernel_main blind_mbi 0 (\<lambda>_. 0) 0 sample_device (replicate 256 0)
      (kernel_boot (\<lambda>_. 7) blank_heap 0x103000 0x104000) = Some (Inr k)"
    "\<exists>k'. irq_run (replicate 16 0) k (?evs @ [Key 0x1C]) k'"
    "\<forall>k'. irq_run (replicate 16 0) k (?evs @ [Key 0x1C]) k' \<longrightarrow>
      (\<exists>tr. k_ports k' = tr @ [In8 0x60 0x1C, Out8 0x20 0x20, Out8 0x80 0] @ [Out8 0x64 0xFE, Out8 0xCF9 0x06])"
    using no_framebuffer_line [OF blind_mbi_ok(1,2) _ blind_mbi_ok(3) sample_device_ok _ types len, of "replicate 16 0" ?evs "\<lambda>_. 0" 0
      "\<lambda>_. 7" blank_heap "0x103000" "0x104000"] unfolding words by auto
  then obtain k' tr where "irq_run (replicate 16 0) k (?evs @ [Key 0x1C]) k'"
    "k_ports k' = (tr @ [In8 0x60 0x1C, Out8 0x20 0x20, Out8 0x80 0]) @ [Out8 0x64 0xFE, Out8 0xCF9 0x06]" by auto
  with k(1) show ?thesis by blast
qed

end
