(* ===== verification/Spec2Isabelle.thy ===== *)
theory Spec2Isabelle
  imports Stubs Preempt_Boot Start Heap_Bytes Blind
begin

text \<open>
  JordanOS: a verification development for the kernel (C and x86-64 assembly, under \<open>src/\<close>).

  The program. GRUB finds the header in \<open>boot/boot.s\<close> and jumps to \<open>_start\<close>, which builds page tables, switches to
  64-bit mode and calls \<open>kernel_main\<close>, which counts the physical pages, sets up the framebuffer and its mapping, the
  interrupt table, the heap, the interrupt controllers, the timer and the disk, prints a greeting
  and idles. From then on everything happens in interrupts: the timer blinks the cursor, the
  keyboard edits a line, and Enter hands the line to the shell, which prints through the console.

  Parts and theories, in dependency order (state, operations, lemmas):

  \<^item> \<open>Kernel_Base\<close>: the C integer types as words, the errors of C operations (out-of-bounds access,
    signed overflow, use of an uninitialised variable), the result type, counted loops, checked buffers,
    strings; the rule collections \<open>ok_rules\<close> and \<open>result_simps\<close>.
  \<^item> \<open>CString\<close> (\<open>kernel/string.c\<close>), \<open>Numfmt\<close> (the number printers of \<open>memory.c\<close> and \<open>fb.c\<close>): what each
    function leaves in its buffer, that it stays inside, and that numbers can be read back.
  \<^item> \<open>Multiboot\<close> (\<open>include/multiboot.h\<close>, \<open>memory.c\<close>): the walks over the tags and over the memory map in a
    byte memory; a tag of size 0 makes the walk endless, which is the value \<open>None\<close>.
  \<^item> \<open>Pmm\<close> (\<open>kernel/pmm.c\<close>): the bitmap behind the contract \<open>bit_table\<close>, the page list read off the memory
    map, allocation and freeing as operations on the set of available pages (contract \<open>page_source\<close>).
  \<^item> \<open>Heap\<close> (\<open>kernel/heap.c\<close>): headers in memory as a map from addresses, the doubly linked list as its
    invariant, \<open>kmalloc\<close> and \<open>kfree\<close> as refinements of first fit and merging on a list of blocks. \<open>kmalloc\<close> uses
    the page allocator through \<open>page_source\<close>.
  \<^item> \<open>Bytes\<close>, \<open>Heap_Bytes\<close> (\<open>kernel/heap.c\<close>): little-endian stores; the heap once more in the bytes it lives in, a
    refinement of \<open>Heap\<close> through the layout of \<open>block_header_t\<close>, and which bytes of the callers survive.
  \<^item> \<open>Ports\<close> (\<open>io.h\<close>, \<open>pic.c\<close>, \<open>pit.c\<close>, \<open>beep.c\<close>) and \<open>Ata\<close> (\<open>ata.c\<close>): port accesses as a trace; the answers
    of devices are a parameter that may depend on the trace; a model of the 8259 controllers and of the disk registers
    decodes the trace. Polls without a bound are partial functions.
  \<^item> \<open>Weave\<close>: port accesses with timer interrupts between them, as the unchanged driver running against a woven device; which
    devices do not hear the ends of interrupt among them.
  \<^item> \<open>Paging\<close> (\<open>paging.c\<close>, the tables of \<open>boot.s\<close>) with the page walk of the processor, \<open>Idt\<close> (\<open>idt.c\<close>) with its
    gate lookup.
  \<^item> \<open>Font\<close> (\<open>font.h\<close>), \<open>Framebuffer\<close>, \<open>Picture\<close>, \<open>Scroll\<close>, \<open>Terminal\<close>, \<open>Render\<close>, \<open>Console\<close> (\<open>fb.c\<close>): drawing in a
    byte memory; the picture as a colour for each pixel; the text operations; the abstract terminal \<open>tty\<close>;
    the invariant \<open>screen_ok\<close> that the picture shows the text; the contract \<open>console\<close>, over any notion of what can be
    seen, interpreted on \<open>fb.c\<close> with the terminal.
  \<^item> \<open>Preempt\<close> (\<open>fb.c\<close>): the printing functions with timer interrupts between their statements, under a schedule.
  \<^item> \<open>Tokens\<close>, \<open>Shell\<close> (\<open>shell.c\<close>): cutting the line in place, the commands over the \<open>console\<close> contract, and the
    table \<open>shell_plan\<close> of what each line should print.
  \<^item> \<open>Machine\<close>, \<open>Keyboard\<close> (\<open>keyboard.c\<close>): the whole static state as one record, and the handler as a refinement of
    editing sessions (terminal, pending input, shift).
  \<^item> \<open>Interrupts\<close> (\<open>isr_handler\<close> in \<open>idt.c\<close>): timer, keyboard and exceptions; the running kernel as a system of interrupts,
    its invariant, its refinement of sessions, and which runs are possible.
  \<^item> \<open>Stubs\<close> (\<open>boot/interrupts.s\<close>): the entry code on a model of registers and stack.
  \<^item> \<open>Boot\<close> (\<open>kernel.c\<close>): \<open>kernel_main\<close>, also with timer interrupts between its calls; what is known of the page
    counters and the drive record afterwards, and what a first line prints.
  \<^item> \<open>Relate\<close> (\<open>fb.c\<close>, \<open>shell.c\<close>, \<open>keyboard.c\<close>, \<open>idt.c\<close>): the contract \<open>screen_relation\<close>: a relation between screens that the
    drawing routines respect is respected by everything above them, by a transfer rule for each function.
  \<^item> \<open>Oblivious\<close>: its first instance: no function reads the picture; runs on two kernels that differ in the video memory only
    stay so.
  \<^item> \<open>Blind\<close>: its second instance: without a framebuffer no function draws, while \<open>console\<close>, interpreted with nothing to see, and
    the keyboard's lemmas show that boot ends and all keys are still served.
  \<^item> \<open>Deaf\<close>: the contract \<open>port_relation\<close>: a relation between traces, and one between devices, that port accesses respect is respected
    by the drivers. Its instance: on a device that does not hear ends of interrupt a driver does the same with interrupts in its midst.
  \<^item> \<open>Preempt_Boot\<close> (\<open>kernel.c\<close>): the second half of \<open>kernel_main\<close> with timer interrupts inside its calls, between the statements
    of the console and between the port accesses of the drivers; up to picture, time and ends of interrupt it is that of \<open>Boot\<close>, and
    \<open>clear\<close> puts the picture right.
  \<^item> \<open>Start\<close> (\<open>boot/boot.s\<close>): the header, and \<open>_start\<close> instruction by instruction on a model of a processor that can
    refuse: control registers, descriptors, page walk, faults; the tables in memory refine those of \<open>Paging\<close>.

  This theory holds the properties of the whole system.

  Loops and bounds. Counted loops recurse on their counter; loops over memory that may not end, and the run of \<open>_start\<close>, are
  \<open>partial_function (option)\<close>, and the theorems show that they return on well-formed data; no fuel is used. The
  disk identification polls at most 100000 times per condition, which is the bound of the source.
  Screens of 32 bits per pixel with 1 to 64 text rows, no screen at all, and up to 1048576 pages are covered by the
  theorems; what happens beyond these limits is recorded in the findings.

  Idealisations. The heap's memory is a map of its own: that its pages are mapped (\<open>boot.s\<close> maps the first GiB) and are
  not those of the kernel's image, stack, tables and boot information (\<open>pmm_init\<close> does not reserve them) is taken for granted,
  in \<open>Heap\<close>, \<open>Heap_Bytes\<close> and \<open>Boot\<close>; so is, for the single block that identification reads, that the compiler
  sees what the inline assembly has written, which declares no memory clobber. For the repeated inline assembly of \<open>ata_read\<close>
  what a round finds in \<open>rcx\<close> and \<open>rdi\<close> is a parameter. The upper half of \<open>rsi\<close> at the start is a parameter too, and C1 says
  what hangs on it. The exceptions with an error code are those of Intel's list. \<open>mem_plan\<close> and \<open>shell_plan\<close> state what the
  shell prints, wrapped sizes included; C6 says when that is the truth.

  Parameters. Uninitialised buffers on the stack (\<open>junk\<close>, \<open>buf\<close>), the answers of devices, the addresses the linker
  chooses, the contents of memory at boot, the fault address, the registers that repeated inline assembly finds, and, for the stubs, the effect of compiled code on
  registers, of which the calling convention \<open>abi_ok\<close> is assumed.

  Not modelled. The linker script (the order of the sections is the hypothesis \<open>layout_ok\<close>), the build files, and the halt behind
  the call of \<open>kernel_main\<close>, which does not return. The processor of \<open>Start\<close> has flat segments, as the loader leaves them, and
  neither caches nor reserved bits. Timer interrupts come in between the calls of \<open>kernel_main\<close>, between the statements of the
  printing functions (the pixels of \<open>fb_clear\<close>) and between the port accesses of the drivers, not between the pixels of a
  character or of a scroll; the tick values they see inside a call into the console are arbitrary. The volatile delay
  loop is an event with its count. Exceptions are followed in the text they report, not in the colours of the
  report, which ignores the theme.
\<close>

section \<open>The system\<close>

text \<open>Putting the halves of a register together gives the low half only if the upper one is clear.\<close>

lemma joined_halves:
  "push_bit 32 (ucast (u :: u32)) OR ucast (l :: u32) = (ucast l :: u64) \<longleftrightarrow> u = 0"
proof
  assume eq: "push_bit 32 (ucast u) OR ucast l = (ucast l :: u64)"
  show "u = 0"
  proof (rule bit_word_eqI)
    fix n assume n: "n < LENGTH(32)"
    have l: "\<not> bit l (n + 32)" using bit_imp_le_length [of l "n + 32"] by auto
    then have "bit (push_bit 32 (ucast u) OR ucast l :: u64) (n + 32) = bit u n" using n by (simp add: bit_simps)
    with eq n l show "bit u n = bit (0 :: u32) n" by (simp add: bit_simps)
  qed
qed simp

text \<open>
  C1: From power-on to the first command, if the upper half of \<open>rsi\<close> is clear at the start, which nothing in the code sees to.
  The loader jumps to \<open>_start\<close> with an information structure that stack and tables do not overwrite, on a machine whose
  controllers read back their masks and whose disk identifies with less than 1 TiB or not at all. \<open>_start\<close> reaches \<open>kernel_main\<close>
  without a fault in any case, but as 32-bit code it has set only the low half of the argument: what it hands over is the
  address of the structure exactly if the processor comes into 64-bit mode with the upper half of \<open>rsi\<close> zero. Then
  \<open>kernel_main\<close>, with the tables and the argument it was given, reaches its idle loop, and for any text of at most 255
  characters, the keys that type it and Enter can be served, whatever timer interrupts come in between; afterwards
  the screen shows the greeting and prompt of boot, the typed text, the output
  that the shell's command table gives for its words, and a new prompt.
\<close>

theorem power_on_to_first_command:
  assumes "layout_ok L" and "entry_ok L c0"
    and "\<And>m. \<forall>a. m a = ram c0 a \<or> unat (stack_top L) - 8 \<le> unat a \<and> unat a < unat (pml4 L) + 16384
      \<Longrightarrow> boot_info_ok m (ucast (gpr c0 EBX)) pm tag"
    and "boot_device_ok p d buf" and "length junk = 16"
    and "types False codes cs" and "length cs \<le> 255" and "filter (\<lambda>e. e \<noteq> Tick) evs = map Key codes @ [Key 0x1C]"
  shows "\<exists>c. start_run L c0 = Some (Inr c) \<and> long_code c \<and> tables_at (ram c) (pml4 L) (first_tables L)
    \<and> (reg64 ESI c = ucast (gpr c0 EBX) \<longleftrightarrow> upper c0 ESI = 0)
    \<and> (upper c0 ESI = 0 \<longrightarrow> (\<exists>k t.
        kernel_main (ram c) (reg64 ESI c) stub ia d buf (kernel_boot v h (ucast (pd_at L)) (ucast (fb_pd_at L))) = Some (Inr k)
        \<and> t \<in> {greeting 0 (first_tty tag), greeting 0 (disk_failed (first_tty tag))}
        \<and> (\<exists>k'. irq_run junk k evs k')
        \<and> (\<forall>k'. irq_run junk k evs k' \<longrightarrow> kernel_ok k' \<and> s_input (session_of k') = []
            \<and> tty_of (k_screen k') = t_print (bytes ''> '')
                (t_script (shell_plan (k_pages k) (k_disk k) (take 16 (words cs))) (t_newline (t_print cs t))))))"
proof -
  obtain c where c: "start_run L c0 = Some (Inr c)" "at_kernel_main L c0 c" using start_runs [OF assms(1,2)] by blast
  then have reached: "long_code c" "tables_at (ram c) (pml4 L) (first_tables L)"
    "reg64 ESI c = push_bit 32 (ucast (upper c0 ESI)) OR ucast (gpr c0 EBX)"
    by (simp_all add: at_kernel_main_def paged_def reg64_def)
  have arg: "reg64 ESI c = ucast (gpr c0 EBX) \<longleftrightarrow> upper c0 ESI = 0" unfolding reached(3) by (rule joined_halves)
  have "unat (stack_top L) \<le> unat (pml4 L)"
    using stack_address(1) [OF assms(1)] table_addresses(4) [OF assms(1)] assms(1) by (simp add: layout_ok_def)
  then have "\<forall>a. ram c a = ram c0 a \<or> unat (stack_top L) - 8 \<le> unat a \<and> unat a < unat (pml4 L) + 16384"
    using c(2) unfolding at_kernel_main_def by (meson diff_le_self le_trans less_le_trans order.strict_trans2 trans_le_add1)
  then have info: "boot_info_ok (ram c) (reg64 ESI c) pm tag" if "upper c0 ESI = 0" using assms(3) arg that by simp
  have dirs: "dirs_ok (ucast (pd_at L)) (ucast (fb_pd_at L))"
    using first_tables_ok(1) [OF assms(1)] by (simp add: dirs_ok_def tables_ok_def first_tables_def boot_tables_def)
  have "\<exists>k t. kernel_main (ram c) (reg64 ESI c) stub ia d buf (kernel_boot v h (ucast (pd_at L)) (ucast (fb_pd_at L))) = Some (Inr k)
      \<and> t \<in> {greeting 0 (first_tty tag), greeting 0 (disk_failed (first_tty tag))}
      \<and> (\<exists>k'. irq_run junk k evs k')
      \<and> (\<forall>k'. irq_run junk k evs k' \<longrightarrow> kernel_ok k' \<and> s_input (session_of k') = []
          \<and> tty_of (k_screen k') = t_print (bytes ''> '')
              (t_script (shell_plan (k_pages k) (k_disk k) (take 16 (words cs))) (t_newline (t_print cs t))))"
    if "upper c0 ESI = 0"
    using first_line [OF info [OF that] dirs assms(4-8), of stub ia v h] by (fastforce simp: disk_outcomes_def)
  with c(1) reached(1,2) arg show ?thesis by blast
qed

theorem power_on_to_first_command_witness:
  "\<exists>c k k' t. start_run sample_labels (sample_start boot_mbi) = Some (Inr c)
    \<and> kernel_main (ram c) (reg64 ESI c) (\<lambda>_. 0x100000) 0x5000 sample_device (replicate 256 0)
        (kernel_boot (\<lambda>_. 7) blank_heap 0x108000 0x109000) = Some (Inr k)
    \<and> irq_run (replicate 16 0) k [Tick, Key 0x2E, Key 0x26, Tick, Key 0x12, Key 0x1E, Key 0x13, Key 0x1C] k'
    \<and> tty_of (k_screen k') = t_print (bytes ''> '') (t_clear t)"
proof -
  have junk: "length (replicate 16 0 :: u8 list) = 16" "length (bytes ''clear'') \<le> 255" by (simp_all add: bytes_def)
  have keys: "types False [0x2E, 0x26, 0x12, 0x1E, 0x13] (bytes ''clear'')"
    by (simp add: types_def key_of_def scancode_map_def bytes_def)
  have evs: "filter (\<lambda>e. e \<noteq> Tick) [Tick, Key 0x2E, Key 0x26, Tick, Key 0x12, Key 0x1E, Key 0x13, Key 0x1C]
      = map Key [0x2E, 0x26, 0x12, 0x1E, 0x13] @ [Key 0x1C]" by simp
  have ws: "words (bytes ''clear'') = [bytes ''clear'']" by (simp add: bytes_def words.simps)
  have plan: "t_script (shell_plan pg dr (take 16 [bytes ''clear''])) t = t_clear t" for pg dr t
    by (simp add: shell_plan_def t_script_def)
  have start: "upper (sample_start boot_mbi) ESI = 0" "gpr (sample_start boot_mbi) EBX = 0" by (simp_all add: sample_start_def)
  have at: "ucast (pd_at sample_labels) = (0x108000 :: u64)" "ucast (fb_pd_at sample_labels) = (0x109000 :: u64)"
    by (simp_all add: pd_at_def fb_pd_at_def sample_labels_def)
  have info: "boot_info_ok m (ucast (gpr (sample_start boot_mbi) EBX)) [False, True, True, True] sample_tag"
    if m: "\<forall>a. m a = ram (sample_start boot_mbi) a
      \<or> unat (stack_top sample_labels) - 8 \<le> unat a \<and> unat a < unat (pml4 sample_labels) + 16384" for m
  proof -
    have "m a = boot_mbi a" if "unat a < 4096" for a
      using m [rule_format, of a] that sample_image_low by (auto simp: sample_tables)
    then show ?thesis using boot_mbi_like by (simp add: start)
  qed
  from power_on_to_first_command [OF sample_layout_ok sample_entry_ok info sample_device_ok junk(1) keys junk(2) evs,
      of "\<lambda>_. 0x100000" "0x5000" "\<lambda>_. 7" blank_heap] start(1)
  show ?thesis unfolding ws plan at by blast
qed

text \<open>
  C5: \<open>kernel_main\<close> reaches its idle loop. Given a boot information block with a memory map that fits
  the bitmap and a usable framebuffer, interrupt controllers that read back their masks and a disk that
  identifies with less than 1 TiB or not at all, it returns from every call, and then: console, keyboard and
  shell are in order; interrupts are on, exactly the timer's and the keyboard's lines are open,
  every open line's vector (and every exception) has its gate; the first GiB and the framebuffer
  are mapped to themselves; the heap is one free page, if a page is free and page 0 is not; the page counters are
  those of the memory map less the page of the heap; the drive record is one that the disk sent, or as in the image; the
  screen shows the greeting and the prompt, below a notice if the disk did not identify.
\<close>

theorem kernel_main_boots:
  assumes "boot_info_ok m mbi pm tag" and "dirs_ok a b" and "boot_device_ok p d buf"
  shows "\<exists>k. kernel_main m mbi stub ia d buf (kernel_boot v h a b) = Some (Inr k) \<and> booted p d buf stub pm (first_tty tag) k"
  using kernel_main_returns [OF assms] .

theorem kernel_main_boots_witness:
  "\<exists>k. kernel_main boot_mbi 0 (\<lambda>v. of_nat (0x100000 + 16 * v)) 0x5000 sample_device (replicate 256 0)
      (kernel_boot (\<lambda>_. 7) blank_heap 0x103000 0x104000) = Some (Inr k)
    \<and> dispatch (k_idt k) 33 = Some (0x08, 0x100210) \<and> \<not> irq_masked (pics_after pics_set (k_ports k)) 1
    \<and> translate (k_tables k) 0x200000 = Some 0x200000"
proof -
  obtain k where k: "kernel_main boot_mbi 0 (\<lambda>v. of_nat (0x100000 + 16 * v)) 0x5000 sample_device (replicate 256 0)
      (kernel_boot (\<lambda>_. 7) blank_heap 0x103000 0x104000) = Some (Inr k)"
    "booted pics_set sample_device (replicate 256 0) (\<lambda>v. of_nat (0x100000 + 16 * v)) [False, True, True, True] (first_tty sample_tag) k"
    using kernel_main_boots [OF boot_mbi_ok sample_dirs_ok sample_device_ok] by blast
  from k(2) have "dispatch (k_idt k) 33 = Some (0x08, 0x100210)" "\<not> irq_masked (pics_after pics_set (k_ports k)) 1"
    "translate (k_tables k) 0x200000 = Some 0x200000"
    by (simp_all add: booted_def gates_ok_def lines_open_def mapped_ok_def)
  with k(1) show ?thesis by blast
qed

text \<open>
  The same holds when timer interrupts arrive between the calls behind \<open>sti\<close>: in every interleaving the
  next call still returns (no error can be reached), no keyboard interrupt gets in before its line is
  opened, and when no call is left the kernel is booted as above.
\<close>

theorem boot_interleaved:
  assumes "boot_info_ok m mbi pm tag" and "dirs_ok a b" and "boot_device_ok p d buf"
    and "boot_early m mbi stub ia (kernel_boot v h a b) = Some (Inr k0)"
    and "(boot_step junk p)\<^sup>*\<^sup>* (boot_late d buf, k0) (fs, k)"
  shows "if fs = [] then booted p d buf stub pm (first_tty tag) k else \<exists>k'. hd fs k = Inr k'"
proof -
  have early: "early_state p stub pm tag k0" using boot_early_ok [OF assms(1,2), of stub ia v h p] assms(4) by auto
  note blank = early_blank [OF early]
  have inv: "boot_inv p k0 d buf (fs, k)" by (rule boot_steps_inv [OF assms(5) early_stage [OF early] blank assms(3)])
  show ?thesis
  proof (cases "fs = []")
    case True
    then obtain n where "n \<le> 7" "7 \<le> 7 - n" "at_stage p d buf k0 n k" using inv by (auto simp: boot_inv_def)
    moreover then have "n = 0" by arith
    ultimately have "at_stage p d buf k0 0 k" by simp
    with True stage_booted [OF early] early show ?thesis by (simp add: early_state_def)
  next
    case False
    then obtain n where "n < 7" "at_stage p d buf k0 (Suc n) k" "hd fs = boot_late d buf ! (6 - n)"
      using boot_inv_next [OF inv] by auto
    with call_ok [OF _ _ blank assms(3)] False show ?thesis by (auto simp: ok_r_iff)
  qed
qed

theorem boot_interleaved_witness:
  "\<exists>k0 k. boot_early boot_mbi 0 (\<lambda>_. 0) 0 (kernel_boot (\<lambda>_. 7) blank_heap 0x103000 0x104000) = Some (Inr k0)
    \<and> (boot_step (replicate 16 0) pics_set)\<^sup>*\<^sup>* (boot_late sample_device (replicate 256 0), k0) (tl (boot_late sample_device (replicate 256 0)), k)
    \<and> (\<exists>k'. hd (tl (boot_late sample_device (replicate 256 0))) k = Inr k')"
proof -
  let ?fs = "boot_late sample_device (replicate 256 0)"
  obtain k0 where k0: "boot_early boot_mbi 0 (\<lambda>_. 0) 0 (kernel_boot (\<lambda>_. 7) blank_heap 0x103000 0x104000) = Some (Inr k0)"
    "early_state pics_set (\<lambda>_. 0) [False, True, True, True] sample_tag k0"
    using boot_early_ok [OF boot_mbi_ok sample_dirs_ok] by blast
  from call_ok [OF _ _ early_blank [OF k0(2)] sample_device_ok, of 6 k0] early_stage [OF k0(2)] obtain k where
    "(?fs ! 0) k0 = Inr k" by (auto simp: ok_r_iff)
  then have step: "(boot_step (replicate 16 0) pics_set)\<^sup>*\<^sup>* (?fs, k0) (tl ?fs, k)"
    using boot_call [of "?fs ! 0" k0 k "replicate 16 0" pics_set "tl ?fs"] by (simp add: boot_late_def r_into_rtranclp)
  have "tl ?fs \<noteq> []" by (simp add: boot_late_def)
  with boot_interleaved [OF boot_mbi_ok sample_dirs_ok sample_device_ok k0(1) step] k0(1) step show ?thesis by auto
qed

text \<open>
  C9: From boot to any moment after it: on the booted kernel, every run of interrupts whose handler returns keeps the whole
  set-up: console and keyboard in order, exactly the timer's and the keyboard's lines open with their vectors and gates,
  the identity map, the heap, and one end of interrupt for each.
\<close>

theorem system_invariant:
  assumes "boot_info_ok m mbi pm tag" and "dirs_ok a b" and "boot_device_ok p d buf" and "length junk = 16"
  shows "\<exists>k. kernel_main m mbi stub ia d buf (kernel_boot v h a b) = Some (Inr k)
    \<and> (\<forall>evs k'. irq_run junk k evs k' \<longrightarrow> kernel_ok k' \<and> gates_ok stub (k_idt k') \<and> lines_open p {0, 1} (k_ports k')
        \<and> mapped_ok (k_screen k') (k_tables k') \<and> heap_ready pm (k_heap k') (k_pages k')
        \<and> eois (k_ports k') = eois (k_ports k) + length evs)"
proof -
  obtain k where k: "kernel_main m mbi stub ia d buf (kernel_boot v h a b) = Some (Inr k)" "booted p d buf stub pm (first_tty tag) k"
    using kernel_main_returns [OF assms(1-3)] by blast
  have "kernel_ok k' \<and> gates_ok stub (k_idt k') \<and> lines_open p {0, 1} (k_ports k') \<and> mapped_ok (k_screen k') (k_tables k')
      \<and> heap_ready pm (k_heap k') (k_pages k') \<and> eois (k_ports k') = eois (k_ports k) + length evs"
    if run: "irq_run junk k evs k'" for evs k'
  proof -
    have s: "kernel_ok k'" "undisturbed k (k'\<lparr>k_ticks := k_ticks k\<rparr>)" "eois (k_ports k') = eois (k_ports k) + length evs"
      "pics_after p (k_ports k') = pics_after p (k_ports k)"
      using serves_all [OF run _ assms(4)] run_pics [OF run _ assms(4)] k(2) by (auto simp: booted_def)
    have "region (k_screen k') = region (k_screen k)"
      using s(2) same_mode_shape(2) by (auto simp: undisturbed_def evolves_def)
    with s k(2) show ?thesis by (simp add: booted_def undisturbed_def mapped_ok_def lines_open_def)
  qed
  with k(1) show ?thesis by blast
qed

theorem system_invariant_witness:
  "\<exists>k. kernel_main boot_mbi 0 (\<lambda>_. 0x100000) 0x5000 sample_device (replicate 256 0)
      (kernel_boot (\<lambda>_. 7) blank_heap 0x103000 0x104000) = Some (Inr k)
    \<and> irq_run (replicate 16 0) k [] k \<and> kernel_ok k \<and> gates_ok (\<lambda>_. 0x100000) (k_idt k)"
proof -
  have "length (replicate 16 0 :: u8 list) = 16" by simp
  from system_invariant [OF boot_mbi_ok sample_dirs_ok sample_device_ok this,
      of "\<lambda>_. 0x100000" "0x5000" "\<lambda>_. 7" blank_heap]
  show ?thesis using run_idle by blast
qed

text \<open>
  From power-on to the first command: on every machine as above, the kernel boots, and then for any text of
  at most 255 characters the keys that type it and Enter can be served, whatever timer interrupts
  come in between; afterwards the screen shows the greeting and prompt of boot, the typed text, the output
  that the shell's command table gives for its words, and a new prompt.
\<close>

theorem boot_to_first_command:
  assumes "boot_info_ok m mbi pm tag" and "dirs_ok a b" and "boot_device_ok p d buf" and "length junk = 16"
    and "types False codes cs" and "length cs \<le> 255" and "filter (\<lambda>e. e \<noteq> Tick) evs = map Key codes @ [Key 0x1C]"
  shows "\<exists>k t. kernel_main m mbi stub ia d buf (kernel_boot v h a b) = Some (Inr k)
    \<and> t \<in> {greeting 0 (first_tty tag), greeting 0 (disk_failed (first_tty tag))}
    \<and> (\<exists>k'. irq_run junk k evs k')
    \<and> (\<forall>k'. irq_run junk k evs k' \<longrightarrow> kernel_ok k' \<and> s_input (session_of k') = []
        \<and> tty_of (k_screen k') = t_print (bytes ''> '')
            (t_script (shell_plan (k_pages k) (k_disk k) (take 16 (words cs))) (t_newline (t_print cs t))))"
  using first_line [OF assms, of stub ia v h] by (fastforce simp: disk_outcomes_def)

theorem boot_to_first_command_witness:
  "\<exists>k k' t. kernel_main boot_mbi 0 (\<lambda>_. 0x100000) 0x5000 sample_device (replicate 256 0)
      (kernel_boot (\<lambda>_. 7) blank_heap 0x103000 0x104000) = Some (Inr k)
    \<and> irq_run (replicate 16 0) k [Tick, Key 0x2E, Key 0x26, Tick, Key 0x12, Key 0x1E, Key 0x13, Key 0x1C] k'
    \<and> tty_of (k_screen k') = t_print (bytes ''> '') (t_clear t)"
proof -
  have junk: "length (replicate 16 0 :: u8 list) = 16" "length (bytes ''clear'') \<le> 255" by (simp_all add: bytes_def)
  have keys: "types False [0x2E, 0x26, 0x12, 0x1E, 0x13] (bytes ''clear'')"
    by (simp add: types_def key_of_def scancode_map_def bytes_def)
  have evs: "filter (\<lambda>e. e \<noteq> Tick) [Tick, Key 0x2E, Key 0x26, Tick, Key 0x12, Key 0x1E, Key 0x13, Key 0x1C]
      = map Key [0x2E, 0x26, 0x12, 0x1E, 0x13] @ [Key 0x1C]" by simp
  have ws: "words (bytes ''clear'') = [bytes ''clear'']" by (simp add: bytes_def words.simps)
  have plan: "t_script (shell_plan pg dr (take 16 [bytes ''clear''])) t = t_clear t" for pg dr t
    by (simp add: shell_plan_def t_script_def)
  from boot_to_first_command [OF boot_mbi_ok sample_dirs_ok sample_device_ok junk(1) keys junk(2) evs,
      of "\<lambda>_. 0x100000" "0x5000" "\<lambda>_. 7" blank_heap]
  show ?thesis unfolding ws plan by blast
qed



text \<open>
  C7: The disk report tells what the disk sent during boot. The port accesses of boot are those of the controllers and the timer,
  then those of one identification, then the unmasking of the keyboard's line, and nothing else. Typing \<open>disk\<close> as
  the first line prints the model (bytes swapped, blanks cut off) and the sector count of the block that this
  identification read; if it failed, the line below said so at boot, and the report has an empty model and no sectors.
\<close>

theorem boot_disk_report:
  assumes "boot_info_ok m mbi pm tag" and "dirs_ok a b" and "boot_device_ok p d buf" and "length junk = 16"
    and "filter (\<lambda>e. e \<noteq> Tick) evs = map Key [0x20, 0x17, 0x1F, 0x25, 0x1C]"
  shows "\<exists>k tr r ws tr'. kernel_main m mbi stub ia d buf (kernel_boot v h a b) = Some (Inr k)
    \<and> pit_init d (pic_init []) = Inr tr \<and> ata_identify d buf tr = Inr (r, ws, tr') \<and> keyboard_init d tr' = Inr (k_ports k)
    \<and> (\<exists>k'. irq_run junk k evs k')
    \<and> (\<forall>k'. irq_run junk k evs k' \<longrightarrow> tty_of (k_screen k') = t_print (bytes ''> '')
        (t_script (if r = 0 then disk_plan (cstr (rtrim (model_bytes ws))) (sector_count ws) else disk_plan [] 0)
          (t_newline (t_print (bytes ''disk'') (greeting 0 (if r = 0 then first_tty tag else disk_failed (first_tty tag)))))))"
proof -
  have keys: "types False [0x20, 0x17, 0x1F, 0x25] (bytes ''disk'')" "length (bytes ''disk'') \<le> 255"
    by (simp_all add: types_def key_of_def scancode_map_def bytes_def)
  have ws: "take 16 (words (bytes ''disk'')) = [bytes ''disk'']" by (simp add: bytes_def words.simps)
  have "filter (\<lambda>e. e \<noteq> Tick) evs = map Key [0x20, 0x17, 0x1F, 0x25] @ [Key 0x1C]" using assms(5) by simp
  from first_line [OF assms(1-4) keys this, unfolded ws plan_disk, of stub ia v h] obtain k T D where
    k: "kernel_main m mbi stub ia d buf (kernel_boot v h a b) = Some (Inr k)" "\<exists>k'. irq_run junk k evs k'"
      "(T, D) \<in> disk_outcomes d buf (first_tty tag)" "D (k_disk k)"
    and typed: "\<forall>k'. irq_run junk k evs k' \<longrightarrow> tty_of (k_screen k') = t_print (bytes ''> '')
      (t_script (disk_plan (cstr (model (k_disk k))) (unat (total_sectors (k_disk k)))) (t_newline (t_print (bytes ''disk'') (greeting 0 T))))"
    by blast
  have "length buf = 256" using assms(3) by (simp add: boot_device_ok_def)
  then obtain tr r ws tr' where at: "pit_init d (pic_init []) = Inr tr" "ata_identify d buf tr = Inr (r, ws, tr')"
    "keyboard_init d tr' = Inr (k_ports k)" "identified_as r ws (k_disk k)"
    using boot_identification [OF k(1)] by blast
  have T: "T = (if r = 0 then first_tty tag else disk_failed (first_tty tag))"
    using k(3,4) at(4) by (auto simp: disk_outcomes_def identified_as_def disk_read_def disk_absent_def drive_boot_def split: if_splits)
  have plan: "disk_plan (cstr (model (k_disk k))) (unat (total_sectors (k_disk k)))
      = (if r = 0 then disk_plan (cstr (rtrim (model_bytes ws))) (sector_count ws) else disk_plan [] 0)"
  proof (cases "r = 0")
    case True
    with at(4) show ?thesis by (simp add: identified_as_def cstr_pad)
  next
    case False
    with at(4) show ?thesis by (simp add: identified_as_def drive_boot_def cstr_def)
  qed
  show ?thesis using k(1,2) at(1-3) typed [unfolded plan T] by blast
qed

theorem boot_disk_report_witness:
  "\<exists>k k' t name sectors. kernel_main boot_mbi 0 (\<lambda>_. 0x100000) 0x5000 sample_device (replicate 256 0)
      (kernel_boot (\<lambda>_. 7) blank_heap 0x103000 0x104000) = Some (Inr k)
    \<and> irq_run (replicate 16 0) k [Key 0x20, Key 0x17, Tick, Tick, Key 0x1F, Key 0x25, Key 0x1C] k'
    \<and> tty_of (k_screen k') = t_print (bytes ''> '') (t_script (disk_plan name sectors) t)"
proof -
  have junk: "length (replicate 16 0 :: u8 list) = 16" by simp
  have evs: "filter (\<lambda>e. e \<noteq> Tick) [Key 0x20, Key 0x17, Tick, Tick, Key 0x1F, Key 0x25, Key 0x1C]
      = map Key [0x20, 0x17, 0x1F, 0x25, 0x1C]" by simp
  from boot_disk_report [OF boot_mbi_ok sample_dirs_ok sample_device_ok junk evs,
      of "\<lambda>_. 0x100000" "0x5000" "\<lambda>_. 7" blank_heap]
  obtain k k' t and r :: s32 and ws where k: "kernel_main boot_mbi 0 (\<lambda>_. 0x100000) 0x5000 sample_device (replicate 256 0)
      (kernel_boot (\<lambda>_. 7) blank_heap 0x103000 0x104000) = Some (Inr k)"
    "irq_run (replicate 16 0) k [Key 0x20, Key 0x17, Tick, Tick, Key 0x1F, Key 0x25, Key 0x1C] k'"
    "tty_of (k_screen k') = t_print (bytes ''> '')
      (t_script (if r = 0 then disk_plan (cstr (rtrim (model_bytes ws))) (sector_count ws) else disk_plan [] 0) t)"
    by blast
  then show ?thesis by (cases "r = 0") auto
qed

end
